(* ===== verification/Kern_Prelude.thy ===== *)
theory Kern_Prelude
  imports Main "HOL-Library.Word"
begin

text \<open>
  The vocabulary every component shares.

  \<^item> \<open>errno\<close>: the kernel's result codes (\<^verbatim>\<open>kern/include/kern/errno.h\<close>). A C function
    that returns \<open>int\<close> returns one of them; \<open>EOK\<close> is the code 0 of a successful call.
  \<^item> \<open>outcome\<close>: what running a kernel function can come to. \<open>Done x\<close> is an ordinary
    return. \<open>Panic\<close> is a failed \<open>KASSERT\<close> or a call of \<open>panic\<close>. \<open>Fault\<close> is an access
    outside an array, through a null pointer or through a pointer that was never set:
    behaviour the C language leaves undefined. \<open>Stuck\<close> is a call that never returns, in a
    run in which no other thread acts: it sleeps on a lock that nobody will release, or it
    loops forever.
  \<^item> \<open>bnd\<close>: sequencing. The first outcome that is not \<open>Done\<close> is the outcome of the whole.
  \<^item> Generic lemmas on lists and on machine words.
\<close>

section \<open>Result codes\<close>

datatype errno = Err (errno_code: nat)

abbreviation EOK :: errno where "EOK \<equiv> Err 0"
abbreviation ENOSYS :: errno where "ENOSYS \<equiv> Err 1"
abbreviation ENOMEM :: errno where "ENOMEM \<equiv> Err 3"
abbreviation EAGAIN :: errno where "EAGAIN \<equiv> Err 4"
abbreviation EINTR :: errno where "EINTR \<equiv> Err 5"
abbreviation EFAULT :: errno where "EFAULT \<equiv> Err 6"
abbreviation ENAMETOOLONG :: errno where "ENAMETOOLONG \<equiv> Err 7"
abbreviation EINVAL :: errno where "EINVAL \<equiv> Err 8"
abbreviation EPERM :: errno where "EPERM \<equiv> Err 9"
abbreviation EACCES :: errno where "EACCES \<equiv> Err 10"
abbreviation EMPROC :: errno where "EMPROC \<equiv> Err 11"
abbreviation ENPROC :: errno where "ENPROC \<equiv> Err 12"
abbreviation ENOEXEC :: errno where "ENOEXEC \<equiv> Err 13"
abbreviation E2BIG :: errno where "E2BIG \<equiv> Err 14"
abbreviation ESRCH :: errno where "ESRCH \<equiv> Err 15"
abbreviation ECHILD :: errno where "ECHILD \<equiv> Err 16"
abbreviation ENOTDIR :: errno where "ENOTDIR \<equiv> Err 17"
abbreviation EISDIR :: errno where "EISDIR \<equiv> Err 18"
abbreviation ENOENT :: errno where "ENOENT \<equiv> Err 19"
abbreviation ELOOP :: errno where "ELOOP \<equiv> Err 20"
abbreviation ENOTEMPTY :: errno where "ENOTEMPTY \<equiv> Err 21"
abbreviation EEXIST :: errno where "EEXIST \<equiv> Err 22"
abbreviation EMLINK :: errno where "EMLINK \<equiv> Err 23"
abbreviation EXDEV :: errno where "EXDEV \<equiv> Err 24"
abbreviation ENODEV :: errno where "ENODEV \<equiv> Err 25"
abbreviation ENXIO :: errno where "ENXIO \<equiv> Err 26"
abbreviation EBUSY :: errno where "EBUSY \<equiv> Err 27"
abbreviation EMFILE :: errno where "EMFILE \<equiv> Err 28"
abbreviation ENFILE :: errno where "ENFILE \<equiv> Err 29"
abbreviation EBADF :: errno where "EBADF \<equiv> Err 30"
abbreviation EIOCTL :: errno where "EIOCTL \<equiv> Err 31"
abbreviation EIO :: errno where "EIO \<equiv> Err 32"
abbreviation ESPIPE :: errno where "ESPIPE \<equiv> Err 33"
abbreviation EPIPE :: errno where "EPIPE \<equiv> Err 34"
abbreviation EROFS :: errno where "EROFS \<equiv> Err 35"
abbreviation ENOSPC :: errno where "ENOSPC \<equiv> Err 36"
abbreviation EDQUOT :: errno where "EDQUOT \<equiv> Err 37"
abbreviation EFBIG :: errno where "EFBIG \<equiv> Err 38"
abbreviation EFTYPE :: errno where "EFTYPE \<equiv> Err 39"
abbreviation EDOM :: errno where "EDOM \<equiv> Err 40"
abbreviation ERANGE :: errno where "ERANGE \<equiv> Err 41"
abbreviation EILSEQ :: errno where "EILSEQ \<equiv> Err 42"
abbreviation ENOTSOCK :: errno where "ENOTSOCK \<equiv> Err 43"
abbreviation EISSOCK :: errno where "EISSOCK \<equiv> Err 44"
abbreviation EISCONN :: errno where "EISCONN \<equiv> Err 45"
abbreviation ENOTCONN :: errno where "ENOTCONN \<equiv> Err 46"
abbreviation ESHUTDOWN :: errno where "ESHUTDOWN \<equiv> Err 47"
abbreviation EPFNOSUPPORT :: errno where "EPFNOSUPPORT \<equiv> Err 48"
abbreviation ESOCKTNOSUPPORT :: errno where "ESOCKTNOSUPPORT \<equiv> Err 49"
abbreviation EPROTONOSUPPORT :: errno where "EPROTONOSUPPORT \<equiv> Err 50"
abbreviation EPROTOTYPE :: errno where "EPROTOTYPE \<equiv> Err 51"
abbreviation EAFNOSUPPORT :: errno where "EAFNOSUPPORT \<equiv> Err 52"
abbreviation ENOPROTOOPT :: errno where "ENOPROTOOPT \<equiv> Err 53"
abbreviation EADDRINUSE :: errno where "EADDRINUSE \<equiv> Err 54"
abbreviation EADDRNOTAVAIL :: errno where "EADDRNOTAVAIL \<equiv> Err 55"
abbreviation ENETDOWN :: errno where "ENETDOWN \<equiv> Err 56"
abbreviation ENETUNREACH :: errno where "ENETUNREACH \<equiv> Err 57"
abbreviation EHOSTDOWN :: errno where "EHOSTDOWN \<equiv> Err 58"
abbreviation EHOSTUNREACH :: errno where "EHOSTUNREACH \<equiv> Err 59"
abbreviation ECONNREFUSED :: errno where "ECONNREFUSED \<equiv> Err 60"
abbreviation ETIMEDOUT :: errno where "ETIMEDOUT \<equiv> Err 61"
abbreviation ECONNRESET :: errno where "ECONNRESET \<equiv> Err 62"
abbreviation EMSGSIZE :: errno where "EMSGSIZE \<equiv> Err 63"
abbreviation ENOTSUP :: errno where "ENOTSUP \<equiv> Err 64"

section \<open>Outcomes\<close>

datatype 'a outcome = Done 'a | Panic | Fault | Stuck

primrec bnd :: "'a outcome \<Rightarrow> ('a \<Rightarrow> 'b outcome) \<Rightarrow> 'b outcome" where
  "bnd (Done x) f = f x"
| "bnd Panic f = Panic"
| "bnd Fault f = Fault"
| "bnd Stuck f = Stuck"

text \<open>\<open>KASSERT (P)\<close> followed by the rest of the function.\<close>

definition kassert :: "bool \<Rightarrow> 'a outcome \<Rightarrow> 'a outcome" where
  "kassert P k = (if P then k else Panic)"

text \<open>Reading element \<open>i\<close> of an array: outside it the behaviour is undefined.\<close>

definition arr_get :: "'a list \<Rightarrow> nat \<Rightarrow> 'a outcome" where
  "arr_get xs i = (if i < length xs then Done (xs ! i) else Fault)"

definition arr_set :: "'a list \<Rightarrow> nat \<Rightarrow> 'a \<Rightarrow> 'a list outcome" where
  "arr_set xs i x = (if i < length xs then Done (xs[i := x]) else Fault)"

text \<open>Dereferencing a pointer that may be null.\<close>

definition deref :: "'a option \<Rightarrow> 'a outcome" where
  "deref p = (case p of None \<Rightarrow> Fault | Some x \<Rightarrow> Done x)"

lemma bnd_Done_iff: "bnd m f = Done y \<longleftrightarrow> (\<exists>x. m = Done x \<and> f x = Done y)"
  by (cases m) simp_all

lemma bnd_DoneE:
  assumes "bnd m f = Done y"
  obtains x where "m = Done x" and "f x = Done y"
  using assms by (auto simp: bnd_Done_iff)

lemma bnd_assoc: "bnd (bnd m f) g = bnd m (\<lambda>x. bnd (f x) g)"
  by (cases m) simp_all

lemma bnd_Done_right [simp]: "bnd m Done = m"
  by (cases m) simp_all

lemma bnd_cong [fundef_cong]:
  "m = m' \<Longrightarrow> (\<And>x. m' = Done x \<Longrightarrow> f x = f' x) \<Longrightarrow> bnd m f = bnd m' f'"
  by (cases m') simp_all

lemma kassert_True [simp]: "kassert True k = k"
  by (simp add: kassert_def)

lemma kassert_False [simp]: "kassert False k = Panic"
  by (simp add: kassert_def)

lemma kassert_Done_iff [simp]: "kassert P k = Done x \<longleftrightarrow> P \<and> k = Done x"
  by (simp add: kassert_def)

lemma arr_get_in [simp]: "i < length xs \<Longrightarrow> arr_get xs i = Done (xs ! i)"
  by (simp add: arr_get_def)

lemma arr_get_out [simp]: "length xs \<le> i \<Longrightarrow> arr_get xs i = Fault"
  by (simp add: arr_get_def)

lemma arr_get_Done_iff: "arr_get xs i = Done x \<longleftrightarrow> i < length xs \<and> x = xs ! i"
  by (auto simp: arr_get_def)

lemma arr_set_in [simp]: "i < length xs \<Longrightarrow> arr_set xs i x = Done (xs[i := x])"
  by (simp add: arr_set_def)

lemma arr_set_out [simp]: "length xs \<le> i \<Longrightarrow> arr_set xs i x = Fault"
  by (simp add: arr_set_def)

lemma arr_set_Done_iff: "arr_set xs i x = Done ys \<longleftrightarrow> i < length xs \<and> ys = xs[i := x]"
  by (auto simp: arr_set_def)

lemma deref_simps [simp]: "deref (Some x) = Done x" "deref None = Fault"
  by (simp_all add: deref_def)

lemma deref_Done_iff: "deref p = Done x \<longleftrightarrow> p = Some x"
  by (cases p) auto

lemmas outcome_iffs = bnd_Done_iff arr_get_Done_iff arr_set_Done_iff deref_Done_iff

section \<open>Machine types\<close>

type_synonym u8 = "8 word"
type_synonym u16 = "16 word"
type_synonym u32 = "32 word"
type_synonym u64 = "64 word"

text \<open>\<open>DIVROUNDUP\<close> and \<open>ROUNDUP\<close> of \<^verbatim>\<open>kern/include/lib.h\<close>, on values that do not overflow.\<close>

definition DIVROUNDUP :: "nat \<Rightarrow> nat \<Rightarrow> nat" where
  "DIVROUNDUP a b = (a + b - 1) div b"

definition ROUNDUP :: "nat \<Rightarrow> nat \<Rightarrow> nat" where
  "ROUNDUP a b = DIVROUNDUP a b * b"

lemma ROUNDUP_ge:
  assumes "0 < b"
  shows "a \<le> ROUNDUP a b"
proof -
  have "a + b - 1 = (a + b - 1) div b * b + (a + b - 1) mod b"
    by (rule div_mult_mod_eq [symmetric])
  moreover have "(a + b - 1) mod b \<le> b - 1"
    using assms mod_less_divisor [OF assms, of "a + b - 1"] by linarith
  ultimately show ?thesis
    unfolding ROUNDUP_def DIVROUNDUP_def using assms by linarith
qed

lemma ROUNDUP_less:
  assumes "0 < b"
  shows "ROUNDUP a b < a + b"
proof -
  have "(a + b - 1) div b * b \<le> a + b - 1"
    by (rule div_times_less_eq_dividend)
  then show ?thesis
    unfolding ROUNDUP_def DIVROUNDUP_def using assms by linarith
qed

text \<open>Quotient and remainder of a number inside block \<open>q\<close> of blocks of size \<open>b\<close>.\<close>

lemma div_mod_block:
  fixes i :: nat
  assumes "b * q \<le> i" and "i < b * q + b"
  shows "i div b = q" and "i mod b = i - b * q"
proof -
  obtain r where r: "i = b * q + r" using assms(1) le_Suc_ex by blast
  then have "r < b" using assms(2) by simp
  then show "i div b = q" and "i mod b = i - b * q" by (simp_all add: r)
qed

lemma div_less_blocks: "i < b * n \<Longrightarrow> i div b < n" for i :: nat
  by (simp add: less_mult_imp_div_less mult.commute)

section \<open>Lists\<close>

text \<open>The element and the index of the first element that satisfies a test.\<close>

primrec find_index :: "('a \<Rightarrow> bool) \<Rightarrow> 'a list \<Rightarrow> nat option" where
  "find_index P [] = None"
| "find_index P (x # xs) = (if P x then Some 0 else map_option Suc (find_index P xs))"

lemma find_index_Some:
  "find_index P xs = Some i \<longleftrightarrow> i < length xs \<and> P (xs ! i) \<and> (\<forall>j < i. \<not> P (xs ! j))"
proof (induction xs arbitrary: i)
  case Nil
  then show ?case by simp
next
  case (Cons x xs)
  show ?case
  proof (cases i)
    case 0
    then show ?thesis by (auto split: option.splits)
  next
    case (Suc k)
    then show ?thesis using Cons.IH [of k] by (auto simp: less_Suc_eq_0_disj)
  qed
qed

lemma find_index_cong: "(\<And>x. x \<in> set xs \<Longrightarrow> P x = Q x) \<Longrightarrow> find_index P xs = find_index Q xs"
  by (induction xs) simp_all

lemma find_index_None: "find_index P xs = None \<longleftrightarrow> (\<forall>x \<in> set xs. \<not> P x)"
  by (induction xs) auto

text \<open>
  The linear search the kernel writes as \<open>for (i = 0; i < n; i++) if (P (get (i))) return i\<close>.
\<close>

function search_from ::
  "(nat \<Rightarrow> 'a outcome) \<Rightarrow> ('a \<Rightarrow> bool outcome) \<Rightarrow> nat \<Rightarrow> nat \<Rightarrow> nat option outcome" where
  "search_from get P i n =
     (if i < n
      then bnd (get i) (\<lambda>x. bnd (P x) (\<lambda>b. if b then Done (Some i) else search_from get P (Suc i) n))
      else Done None)"
  by pat_completeness auto
termination
  by (relation "measure (\<lambda>(get, P, i, n). n - i)") auto

declare search_from.simps [simp del]

lemma search_from_find_index:
  assumes "\<And>j. j < length xs \<Longrightarrow> get (i + j) = Done (xs ! j)"
    and "\<And>x. x \<in> set xs \<Longrightarrow> P x = Done (Q x)"
  shows "search_from get P i (i + length xs) = Done (map_option (\<lambda>j. i + j) (find_index Q xs))"
  using assms
proof (induction xs arbitrary: i)
  case Nil
  then show ?case by (simp add: search_from.simps)
next
  case (Cons x xs)
  have "get (Suc i + j) = Done (xs ! j)" if "j < length xs" for j
    using Cons.prems(1) [of "Suc j"] that by simp
  then have IH: "search_from get P (Suc i) (Suc i + length xs)
      = Done (map_option (\<lambda>j. Suc i + j) (find_index Q xs))"
    using Cons.prems(2) by (intro Cons.IH) simp_all
  have "get i = Done x" using Cons.prems(1) [of 0] by simp
  moreover have "P x = Done (Q x)" using Cons.prems(2) by simp
  ultimately show ?case
    using IH by (simp add: search_from.simps [of get P i] option.map_comp comp_def)
qed

section \<open>A sequence that is read by index\<close>

text \<open>
  What the search loops rely on of the container they walk: it has a size, and every index
  below the size can be read.
\<close>

locale indexed =
  fixes ok :: "'s \<Rightarrow> bool"
    and elems :: "'s \<Rightarrow> 'a list"
    and count :: "'s \<Rightarrow> nat"
    and get :: "'s \<Rightarrow> nat \<Rightarrow> 'a outcome"
  assumes count_elems: "ok s \<Longrightarrow> count s = length (elems s)"
    and get_elems: "ok s \<Longrightarrow> i < count s \<Longrightarrow> get s i = Done (elems s ! i)"
begin

lemma search_elems:
  assumes "ok s" and "\<And>x. x \<in> set (elems s) \<Longrightarrow> P x = Done (Q x)"
  shows "search_from (get s) P 0 (count s) = Done (find_index Q (elems s))"
proof -
  have "search_from (get s) P 0 (0 + length (elems s)) = Done (map_option (\<lambda>j. 0 + j) (find_index Q (elems s)))"
    using assms count_elems [of s] get_elems [of s] by (intro search_from_find_index) simp_all
  then show ?thesis using assms(1) by (simp add: count_elems option.map_ident comp_def)
qed

lemma search_absent:
  assumes "ok s" and "\<And>x. x \<in> set (elems s) \<Longrightarrow> P x = Done (Q x)"
  shows "search_from (get s) P 0 (count s) = Done None \<longleftrightarrow> (\<forall>x \<in> set (elems s). \<not> Q x)"
  by (simp add: search_elems [OF assms] find_index_None)

end

lemma take_list_update_snoc: "n < length xs \<Longrightarrow> take (Suc n) (xs[n := x]) = take n xs @ [x]"
  by (simp add: take_Suc_conv_app_nth)

lemma nth_mem_take: "i < n \<Longrightarrow> n \<le> length xs \<Longrightarrow> take n xs ! i = xs ! i"
  by simp

lemma upt_0_Suc: "[0..<Suc n] = 0 # map Suc [0..<n]"
  by (simp add: map_Suc_upt upt_conv_Cons)

end
