(* ===== verification/Kern_Array.thy ===== *)
theory Kern_Array
  imports Kern_Prelude
begin

text \<open>
  Resizable arrays of pointers: \<^verbatim>\<open>kern/lib/array.c\<close> and the inline operations of
  \<^verbatim>\<open>kern/include/array.h\<close>. \<open>threadarray\<close>, \<open>vnodearray\<close>, \<open>cpuarray\<close>, \<open>wchanarray\<close> and the
  \<open>children\<close> of a process are instances of it.

  The fields \<open>num\<close> and \<open>max\<close> are \<open>unsigned\<close> (32 bits): the arithmetic on them is written
  with its wrap-around. The block \<open>v\<close> points to is the list of its cells; \<open>kmalloc\<close> is the
  argument \<open>kmalloc\<close>, which gets the size in bytes and gives the new block with whatever it
  happens to hold, or \<open>None\<close>. A pointer takes 4 bytes.
\<close>

record 'a array =
  arr_v :: "'a list"
  arr_num :: nat
  arr_max :: nat

definition array_init :: "'a array" where
  "array_init = \<lparr>arr_v = [], arr_num = 0, arr_max = 0\<rparr>"

definition array_create :: "bool \<Rightarrow> 'a array option" where
  "array_create got = (if got then Some array_init else None)"

definition array_cleanup :: "'a array \<Rightarrow> 'a array outcome" where
  "array_cleanup a = kassert (arr_num a = 0) (Done (a\<lparr>arr_v := []\<rparr>))"

definition array_destroy :: "'a array \<Rightarrow> unit outcome" where
  "array_destroy a = bnd (array_cleanup a) (\<lambda>_. Done ())"

definition array_num :: "'a array \<Rightarrow> nat" where
  "array_num a = arr_num a"

definition array_get :: "'a array \<Rightarrow> nat \<Rightarrow> 'a outcome" where
  "array_get a index = kassert (index < arr_num a) (arr_get (arr_v a) index)"

definition array_set :: "'a array \<Rightarrow> nat \<Rightarrow> 'a \<Rightarrow> 'a array outcome" where
  "array_set a index val =
     kassert (index < arr_num a)
       (bnd (arr_set (arr_v a) index val) (\<lambda>v. Done (a\<lparr>arr_v := v\<rparr>)))"

text \<open>
  The loop of \<open>array_preallocate\<close> that doubles the capacity. When \<open>num\<close> is above \<open>2 ^ 31\<close> the
  doubling wraps to 0 and the loop never ends: then the result is \<open>None\<close>.
\<close>

partial_function (option) array_grow :: "nat \<Rightarrow> nat \<Rightarrow> nat option" where
  "array_grow num newmax =
     (if newmax < num
      then array_grow num (if newmax \<noteq> 0 then newmax * 2 mod 2 ^ 32 else 4)
      else Some newmax)"

definition array_preallocate ::
  "(nat \<Rightarrow> 'a list option) \<Rightarrow> 'a array \<Rightarrow> nat \<Rightarrow> (errno \<times> 'a array) outcome" where
  "array_preallocate kmalloc a num =
     (if arr_max a < num
      then (case array_grow num (arr_max a) of
              None \<Rightarrow> Stuck
            | Some newmax \<Rightarrow>
                (case kmalloc (newmax * 4 mod 2 ^ 32) of
                   None \<Rightarrow> Done (ENOMEM, a)
                 | Some newptr \<Rightarrow>
                     if arr_num a \<le> length (arr_v a) \<and> arr_num a \<le> length newptr
                     then Done (EOK, a\<lparr>arr_v := take (arr_num a) (arr_v a) @ drop (arr_num a) newptr,
                                       arr_max := newmax\<rparr>)
                     else Fault))
      else Done (EOK, a))"

definition array_setsize ::
  "(nat \<Rightarrow> 'a list option) \<Rightarrow> 'a array \<Rightarrow> nat \<Rightarrow> (errno \<times> 'a array) outcome" where
  "array_setsize kmalloc a num =
     bnd (array_preallocate kmalloc a num) (\<lambda>(result, a).
       if result \<noteq> EOK then Done (result, a)
       else Done (EOK, a\<lparr>arr_num := num\<rparr>))"

text \<open>\<open>array_add\<close> hands back the index as well; the callers that pass a null \<open>index_ret\<close> ignore it.\<close>

definition array_add ::
  "(nat \<Rightarrow> 'a list option) \<Rightarrow> 'a array \<Rightarrow> 'a \<Rightarrow> (errno \<times> nat \<times> 'a array) outcome" where
  "array_add kmalloc a val =
     (let index = arr_num a in
      bnd (array_setsize kmalloc a ((index + 1) mod 2 ^ 32)) (\<lambda>(ret, a).
        if ret \<noteq> EOK then Done (ret, index, a)
        else bnd (arr_set (arr_v a) index val) (\<lambda>v. Done (EOK, index, a\<lparr>arr_v := v\<rparr>))))"

text \<open>\<open>memmove\<close> slides the entries above \<open>index\<close> down by one; the last cell keeps its old content.\<close>

definition array_remove :: "'a array \<Rightarrow> nat \<Rightarrow> 'a array outcome" where
  "array_remove a index =
     kassert (arr_num a \<le> arr_max a) (
     kassert (index < arr_num a) (
       let num_to_move = arr_num a - (index + 1) in
       if index + 1 + num_to_move \<le> length (arr_v a)
       then Done (a\<lparr>arr_v := take index (arr_v a) @ take num_to_move (drop (index + 1) (arr_v a))
                               @ drop (index + num_to_move) (arr_v a),
                    arr_num := arr_num a - 1\<rparr>)
       else Fault))"

section \<open>Invariant and abstraction\<close>

definition array_ok :: "'a array \<Rightarrow> bool" where
  "array_ok a \<longleftrightarrow> arr_num a \<le> arr_max a \<and> length (arr_v a) = arr_max a \<and> arr_max a < 2 ^ 30"

text \<open>What the array holds: the first \<open>num\<close> cells.\<close>

definition array_list :: "'a array \<Rightarrow> 'a list" where
  "array_list a = take (arr_num a) (arr_v a)"

text \<open>
  What the array code relies on of \<open>kmalloc\<close>: a block that is handed out has room for the cells
  that were asked for.
\<close>

definition kmalloc_cells :: "(nat \<Rightarrow> 'a list option) \<Rightarrow> bool" where
  "kmalloc_cells kmalloc \<longleftrightarrow> (\<forall>n blk. kmalloc n = Some blk \<longrightarrow> length blk = n div 4)"

lemma array_ok_init: "array_ok array_init"
  by (simp add: array_ok_def array_init_def)

lemma array_list_init: "array_list array_init = []"
  by (simp add: array_list_def array_init_def)

lemma length_array_list: "array_ok a \<Longrightarrow> length (array_list a) = array_num a"
  by (simp add: array_ok_def array_list_def array_num_def)

lemma array_get_list:
  "array_ok a \<Longrightarrow> array_get a i = (if i < array_num a then Done (array_list a ! i) else Panic)"
  by (auto simp: array_get_def array_ok_def array_list_def array_num_def kassert_def)

lemma array_set_list:
  assumes "array_ok a" and "i < array_num a"
  shows "\<exists>a'. array_set a i x = Done a' \<and> array_ok a' \<and> array_num a' = array_num a
           \<and> array_list a' = (array_list a)[i := x]"
  using assms by (auto simp: array_set_def array_ok_def array_list_def array_num_def take_update_swap)

interpretation arr: indexed array_ok array_list array_num array_get
  by unfold_locales (auto simp: length_array_list array_get_list)

section \<open>Growing\<close>

lemma array_grow_step:
  "array_grow num m = (if m < num then array_grow num (if m \<noteq> 0 then m * 2 mod 2 ^ 32 else 4)
                       else Some m)"
  by (rule array_grow.simps)

lemma array_grow_done: "num \<le> m \<Longrightarrow> array_grow num m = Some m"
  by (simp add: array_grow_step)

text \<open>Below \<open>2 ^ 29\<close> the doubling ends, without a wrap-around, at a capacity below \<open>2 ^ 30\<close>.\<close>

lemma array_grow_total:
  assumes "num \<le> 2 ^ 29" and "0 < m" and "m < 2 ^ 30"
  shows "\<exists>m'. array_grow num m = Some m' \<and> num \<le> m' \<and> m \<le> m' \<and> m' < 2 ^ 30"
  using assms
proof (induction "num - m" arbitrary: m rule: less_induct)
  case less
  show ?case
  proof (cases "m < num")
    case True
    have small: "m * 2 mod 2 ^ 32 = m * 2" using True less.prems by simp
    have "num - m * 2 < num - m" using True less.prems(2) by linarith
    moreover have "0 < m * 2" "m * 2 < 2 ^ 30" using True less.prems by simp_all
    ultimately obtain m' where "array_grow num (m * 2) = Some m'" "num \<le> m'" "m * 2 \<le> m'" "m' < 2 ^ 30"
      using less.hyps [of "m * 2"] less.prems(1) by blast
    then show ?thesis
      using True less.prems(2) small by (simp add: array_grow_step [of num m])
  next
    case False
    then show ?thesis using less.prems by (simp add: array_grow_done)
  qed
qed

lemma array_grow_from:
  assumes "num \<le> 2 ^ 29" and "m < num"
  shows "\<exists>m'. array_grow num m = Some m' \<and> num \<le> m' \<and> m \<le> m' \<and> m' < 2 ^ 30"
proof (cases "m = 0")
  case True
  from assms array_grow_total [of num 4] obtain m' where
    "array_grow num 4 = Some m'" "num \<le> m'" "m' < 2 ^ 30"
    by auto
  with True assms(2) show ?thesis by (simp add: array_grow_step [of num 0])
next
  case False
  with assms show ?thesis by (intro array_grow_total) simp_all
qed

lemma array_preallocate_cases:
  assumes ok: "array_ok a" and km: "kmalloc_cells kmalloc" and num: "num \<le> 2 ^ 29"
  shows "array_preallocate kmalloc a num = Done (ENOMEM, a) \<or>
    (\<exists>a'. array_preallocate kmalloc a num = Done (EOK, a') \<and> array_ok a' \<and> num \<le> arr_max a'
        \<and> arr_num a' = arr_num a \<and> array_list a' = array_list a)"
proof (cases "arr_max a < num")
  case False
  then show ?thesis using ok by (simp add: array_preallocate_def)
next
  case True
  obtain m where m: "array_grow num (arr_max a) = Some m" "num \<le> m" "arr_max a \<le> m" "m < 2 ^ 30"
    using array_grow_from [OF num True] by blast
  show ?thesis
  proof (cases "kmalloc (m * 4)")
    case None
    then show ?thesis using True m by (simp add: array_preallocate_def)
  next
    case (Some blk)
    then have len: "length blk = m" using km by (auto simp: kmalloc_cells_def)
    have fits: "arr_num a \<le> arr_max a" "arr_max a \<le> m" using ok m(3) by (simp_all add: array_ok_def)
    show ?thesis
      using True m Some len ok fits
      by (auto simp: array_preallocate_def array_ok_def array_list_def)
  qed
qed

lemma array_setsize_cases:
  assumes "array_ok a" and "kmalloc_cells kmalloc" and "num \<le> 2 ^ 29"
  shows "array_setsize kmalloc a num = Done (ENOMEM, a) \<or>
    (\<exists>a'. array_setsize kmalloc a num = Done (EOK, a') \<and> array_ok a' \<and> array_num a' = num
        \<and> take (min num (array_num a)) (array_list a') = take num (array_list a))"
  using array_preallocate_cases [OF assms]
proof (elim disjE exE conjE)
  assume "array_preallocate kmalloc a num = Done (ENOMEM, a)"
  then show ?thesis by (simp add: array_setsize_def)
next
  fix a'
  assume a': "array_preallocate kmalloc a num = Done (EOK, a')" "array_ok a'" "num \<le> arr_max a'"
    "arr_num a' = arr_num a" "array_list a' = array_list a"
  then have "array_setsize kmalloc a num = Done (EOK, a'\<lparr>arr_num := num\<rparr>)"
    by (simp add: array_setsize_def)
  moreover have "array_ok (a'\<lparr>arr_num := num\<rparr>)" using a' by (simp add: array_ok_def)
  moreover have "take (min num (array_num a)) (array_list (a'\<lparr>arr_num := num\<rparr>)) = take num (array_list a)"
    unfolding a'(5) [symmetric] using a'(4)
    by (simp add: array_list_def array_num_def min.commute)
  ultimately show ?thesis by (auto simp: array_num_def)
qed

text \<open>Adding appends one element or fails with \<open>ENOMEM\<close> and changes nothing.\<close>

lemma array_add_cases:
  assumes ok: "array_ok a" and km: "kmalloc_cells kmalloc" and num: "array_num a < 2 ^ 29"
  shows "array_add kmalloc a x = Done (ENOMEM, array_num a, a) \<or>
    (\<exists>a'. array_add kmalloc a x = Done (EOK, array_num a, a') \<and> array_ok a'
        \<and> array_list a' = array_list a @ [x])"
proof -
  have n: "arr_num a < 2 ^ 29" and idx: "(arr_num a + 1) mod 2 ^ 32 = arr_num a + 1"
    using num by (simp_all add: array_num_def)
  have "arr_num a + 1 \<le> 2 ^ 29" using n by simp
  from array_preallocate_cases [OF ok km this] show ?thesis
  proof (elim disjE exE conjE)
    assume "array_preallocate kmalloc a (arr_num a + 1) = Done (ENOMEM, a)"
    then show ?thesis using idx by (simp add: array_add_def array_setsize_def array_num_def)
  next
    fix a'
    assume a': "array_preallocate kmalloc a (arr_num a + 1) = Done (EOK, a')" "array_ok a'"
      "arr_num a + 1 \<le> arr_max a'" "arr_num a' = arr_num a" "array_list a' = array_list a"
    then have len: "arr_num a < length (arr_v a')" by (simp add: array_ok_def)
    define r where "r = a'\<lparr>arr_num := arr_num a + 1, arr_v := (arr_v a')[arr_num a := x]\<rparr>"
    have "array_add kmalloc a x = Done (EOK, array_num a, r)"
      using a' len idx by (simp add: array_add_def array_setsize_def array_num_def r_def Let_def)
    moreover have "array_ok r" using a' by (simp add: array_ok_def r_def)
    moreover have "array_list r = array_list a @ [x]"
      using a'(4,5) len by (simp add: r_def array_list_def take_list_update_snoc)
    ultimately show ?thesis by blast
  qed
qed

text \<open>Removing closes the gap.\<close>

lemma array_remove_list:
  assumes ok: "array_ok a" and i: "i < array_num a"
  shows "\<exists>a'. array_remove a i = Done a' \<and> array_ok a'
    \<and> array_list a' = take i (array_list a) @ drop (Suc i) (array_list a)"
proof -
  define k where "k = arr_num a - (i + 1)"
  define r where "r = a\<lparr>arr_v := take i (arr_v a) @ take k (drop (i + 1) (arr_v a)) @ drop (i + k) (arr_v a),
                        arr_num := arr_num a - 1\<rparr>"
  have i': "i < arr_num a" and len: "length (arr_v a) = arr_max a" "arr_num a \<le> arr_max a"
    using ok i by (simp_all add: array_ok_def array_num_def)
  have "array_remove a i = Done r"
    using i' len by (simp add: array_remove_def r_def k_def Let_def)
  moreover have "array_ok r" using ok i' len by (simp add: array_ok_def r_def k_def)
  moreover have "array_list r = take i (array_list a) @ drop (Suc i) (array_list a)"
    using i' len by (simp add: array_list_def r_def k_def drop_take)
  ultimately show ?thesis by blast
qed

lemma array_remove_out: "array_num a \<le> i \<Longrightarrow> array_remove a i = Panic"
  by (auto simp: array_remove_def array_num_def kassert_def)

section \<open>Properties\<close>

text \<open>
  \<open>array_add\<close> on a well-formed array below \<open>2 ^ 29\<close> entries always returns. Either it fails with
  \<open>ENOMEM\<close> and the array is unchanged, or the new entry is the last one, \<open>array_get\<close> finds it at the
  index handed back, and \<open>array_remove\<close> of that index gives back the entries from before.
\<close>

theorem array_add_remove_roundtrip:
  assumes "array_ok a" and "kmalloc_cells kmalloc" and "array_num a < 2 ^ 29"
  shows "\<exists>e a'. array_add kmalloc a x = Done (e, array_num a, a') \<and> array_ok a' \<and>
    (e = ENOMEM \<and> a' = a \<or>
     e = EOK \<and> array_list a' = array_list a @ [x] \<and> array_get a' (array_num a) = Done x \<and>
     (\<exists>a''. array_remove a' (array_num a) = Done a'' \<and> array_ok a'' \<and> array_list a'' = array_list a))"
  using array_add_cases [OF assms, of x]
proof (elim disjE exE conjE)
  fix a' assume a': "array_add kmalloc a x = Done (EOK, array_num a, a')" "array_ok a'"
    "array_list a' = array_list a @ [x]"
  have n: "array_num a' = Suc (array_num a)"
    using length_array_list [OF a'(2)] length_array_list [OF assms(1)] a'(3) by simp
  have "array_get a' (array_num a) = Done x"
    using array_get_list [OF a'(2)] n a'(3) length_array_list [OF assms(1)] by (simp add: nth_append)
  moreover have "\<exists>a''. array_remove a' (array_num a) = Done a'' \<and> array_ok a'' \<and> array_list a'' = array_list a"
    using array_remove_list [OF a'(2), of "array_num a"] n a'(3) length_array_list [OF assms(1)] by simp
  ultimately show ?thesis using a' by blast
qed (use assms(1) in blast)

theorem array_add_remove_roundtrip_witness:
  "\<exists>e a'. array_add (\<lambda>n. Some (replicate (n div 4) 0)) array_init (7 :: nat) = Done (e, 0, a') \<and>
    array_list a' = [7]"
proof -
  have "kmalloc_cells (\<lambda>n. Some (replicate (n div 4) (0 :: nat)))" by (simp add: kmalloc_cells_def)
  from array_add_remove_roundtrip [OF array_ok_init this, of 7] show ?thesis
    by (simp add: array_add_def array_setsize_def array_preallocate_def array_num_def array_init_def
        array_list_def array_grow.simps)
qed

end
