(* ===== verification/Kern_Bitmap.thy ===== *)
theory Kern_Bitmap
  imports Kern_Prelude
begin

unbundle bit_operations_syntax

text \<open>
  Fixed-size bit arrays, \<^verbatim>\<open>kern/lib/bitmap.c\<close>: the free-block map of the file system. The
  bits live in a vector of bytes (\<open>WORD_TYPE\<close>, 8 bits). The two calls of \<open>kmalloc\<close> in
  \<open>bitmap_create\<close> are arguments that say whether they succeed.
\<close>

record bitmap =
  nbits :: nat
  bm_v :: "u8 list"

definition BITS_PER_WORD :: nat where
  "BITS_PER_WORD = 8"

definition WORD_ALLBITS :: u8 where
  "WORD_ALLBITS = 0xff"

text \<open>\<open>DIVROUNDUP (nbits, BITS_PER_WORD)\<close> on \<open>unsigned\<close>.\<close>

definition bitmap_words :: "nat \<Rightarrow> nat" where
  "bitmap_words n = (n + BITS_PER_WORD - 1) mod 2 ^ 32 div BITS_PER_WORD"

text \<open>\<open>((WORD_TYPE) 1) << offset\<close>\<close>

definition bit_mask :: "nat \<Rightarrow> u8" where
  "bit_mask offset = push_bit offset 1"

text \<open>The loop that marks the bits past the end as in use.\<close>

function mark_leftover :: "nat \<Rightarrow> u8 \<Rightarrow> u8" where
  "mark_leftover j w =
     (if j < BITS_PER_WORD then mark_leftover (Suc j) (w OR bit_mask j) else w)"
  by pat_completeness auto
termination
  by (relation "measure (\<lambda>(j, w). BITS_PER_WORD - j)") auto

declare mark_leftover.simps [simp del]

definition bitmap_create :: "bool \<Rightarrow> bool \<Rightarrow> nat \<Rightarrow> bitmap option outcome" where
  "bitmap_create got_b got_v n =
     (let words = bitmap_words n in
      if \<not> got_b then Done None
      else if \<not> got_v then Done None
      else let v = replicate words 0 in
        if n div BITS_PER_WORD < words then
          let ix = words - 1; overbits = n - ix * BITS_PER_WORD in
          kassert (n div BITS_PER_WORD = words - 1) (
          kassert (0 < overbits \<and> overbits < BITS_PER_WORD) (
            bnd (arr_get v ix) (\<lambda>w.
              Done (Some \<lparr>nbits = n, bm_v = v[ix := mark_leftover overbits w]\<rparr>))))
        else Done (Some \<lparr>nbits = n, bm_v = v\<rparr>))"

definition bitmap_getdata :: "bitmap \<Rightarrow> u8 list" where
  "bitmap_getdata b = bm_v b"

text \<open>The inner loop of \<open>bitmap_alloc\<close>: the first clear bit of a byte.\<close>

function alloc_offset :: "u8 \<Rightarrow> nat \<Rightarrow> nat option" where
  "alloc_offset w offset =
     (if offset < BITS_PER_WORD
      then if w AND bit_mask offset = 0 then Some offset else alloc_offset w (Suc offset)
      else None)"
  by pat_completeness auto
termination
  by (relation "measure (\<lambda>(w, offset). BITS_PER_WORD - offset)") auto

declare alloc_offset.simps [simp del]

text \<open>The outer loop; the allocated index is handed back on success only.\<close>

function alloc_from :: "bitmap \<Rightarrow> nat \<Rightarrow> nat \<Rightarrow> (errno \<times> nat option \<times> bitmap) outcome" where
  "alloc_from b ix maxix =
     (if ix < maxix
      then bnd (arr_get (bm_v b) ix) (\<lambda>w.
        if w \<noteq> WORD_ALLBITS
        then (case alloc_offset w 0 of
                Some offset \<Rightarrow>
                  (let index = ix * BITS_PER_WORD + offset;
                       b' = b\<lparr>bm_v := (bm_v b)[ix := w OR bit_mask offset]\<rparr>
                   in kassert (index < nbits b) (Done (EOK, Some index, b')))
              | None \<Rightarrow> Panic)
        else alloc_from b (Suc ix) maxix)
      else Done (ENOSPC, None, b))"
  by pat_completeness auto
termination
  by (relation "measure (\<lambda>(b, ix, maxix). maxix - ix)") auto

declare alloc_from.simps [simp del]

definition bitmap_alloc :: "bitmap \<Rightarrow> (errno \<times> nat option \<times> bitmap) outcome" where
  "bitmap_alloc b = alloc_from b 0 (bitmap_words (nbits b))"

definition bitmap_translate :: "nat \<Rightarrow> nat \<times> u8" where
  "bitmap_translate bitno = (bitno div BITS_PER_WORD, bit_mask (bitno mod BITS_PER_WORD))"

definition bitmap_mark :: "bitmap \<Rightarrow> nat \<Rightarrow> bitmap outcome" where
  "bitmap_mark b index =
     kassert (index < nbits b) (
       let (ix, mask) = bitmap_translate index in
       bnd (arr_get (bm_v b) ix) (\<lambda>w.
         kassert (w AND mask = 0) (Done (b\<lparr>bm_v := (bm_v b)[ix := w OR mask]\<rparr>))))"

definition bitmap_unmark :: "bitmap \<Rightarrow> nat \<Rightarrow> bitmap outcome" where
  "bitmap_unmark b index =
     kassert (index < nbits b) (
       let (ix, mask) = bitmap_translate index in
       bnd (arr_get (bm_v b) ix) (\<lambda>w.
         kassert (w AND mask \<noteq> 0) (Done (b\<lparr>bm_v := (bm_v b)[ix := w AND NOT mask]\<rparr>))))"

definition bitmap_isset :: "bitmap \<Rightarrow> nat \<Rightarrow> u8 outcome" where
  "bitmap_isset b index =
     (let (ix, mask) = bitmap_translate index in
      bnd (arr_get (bm_v b) ix) (\<lambda>w. Done (w AND mask)))"

section \<open>Bytes\<close>

lemma BITS_8 [simp]: "BITS_PER_WORD = 8"
  by (simp add: BITS_PER_WORD_def)

lemma bit_mask_bit: "k < 8 \<Longrightarrow> bit (bit_mask k) j \<longleftrightarrow> j = k"
  by (auto simp: bit_mask_def push_bit_of_1 bit_exp_iff)

lemma and_mask_zero: "k < 8 \<Longrightarrow> w AND bit_mask k = 0 \<longleftrightarrow> \<not> bit w k" for w :: u8
  by (simp add: bit_mask_def push_bit_of_1 and_exp_eq_0_iff_not_bit)

lemma bit_set: "k < 8 \<Longrightarrow> bit (w OR bit_mask k) j \<longleftrightarrow> bit w j \<or> j = k" for w :: u8
  by (auto simp: bit_or_iff bit_mask_bit)

lemma allbits_bit: "bit WORD_ALLBITS j \<longleftrightarrow> j < 8"
proof -
  have *: "WORD_ALLBITS = - 1" by (simp add: WORD_ALLBITS_def)
  show ?thesis unfolding * by (simp add: bit_minus_1_iff possible_bit_word)
qed

lemma bit_u8_less: "bit w j \<Longrightarrow> j < 8" for w :: u8
  using bit_imp_le_length [of w j] by simp

lemma bit_clear: "k < 8 \<Longrightarrow> bit (w AND NOT (bit_mask k)) j \<longleftrightarrow> bit w j \<and> j \<noteq> k" for w :: u8
  by (auto simp: bit_and_iff bit_not_iff bit_mask_bit possible_bit_word dest: bit_u8_less)

lemma not_allbits: "w \<noteq> WORD_ALLBITS \<longleftrightarrow> (\<exists>j < 8. \<not> bit w j)" for w :: u8
proof -
  have "w = WORD_ALLBITS \<longleftrightarrow> (\<forall>j < 8. bit w j)"
    by (auto simp: allbits_bit intro!: bit_word_eqI)
  then show ?thesis by auto
qed

lemma mark_leftover_bit:
  "bit (mark_leftover j w) k \<longleftrightarrow> bit w k \<or> (j \<le> k \<and> k < 8)"
proof (induction j w rule: mark_leftover.induct)
  case (1 j w)
  show ?case
  proof (cases "j < 8")
    case True
    then show ?thesis
      using 1 by (subst mark_leftover.simps) (auto simp: bit_set)
  next
    case False
    then show ?thesis by (subst mark_leftover.simps) auto
  qed
qed

lemma alloc_offset_Some:
  assumes "k \<le> 8"
  shows "alloc_offset w k = Some j \<longleftrightarrow> k \<le> j \<and> j < 8 \<and> \<not> bit w j \<and> (\<forall>i. k \<le> i \<and> i < j \<longrightarrow> bit w i)"
    (is "_ \<longleftrightarrow> ?first k")
  using assms
proof (induction w k rule: alloc_offset.induct)
  case (1 w k)
  consider "k = 8" | "k < 8" "bit w k" | "k < 8" "\<not> bit w k" using 1 by linarith
  then show ?case
  proof cases
    case 1
    then show ?thesis by (subst alloc_offset.simps) simp
  next
    case 2
    then have "alloc_offset w k = alloc_offset w (Suc k)"
      by (subst alloc_offset.simps) (simp add: and_mask_zero)
    moreover have "(\<forall>i. k \<le> i \<and> i < j \<longrightarrow> bit w i) \<longleftrightarrow> (\<forall>i. Suc k \<le> i \<and> i < j \<longrightarrow> bit w i)"
      using 2 by (metis Suc_leI Suc_leD le_neq_implies_less)
    moreover have "k \<le> j \<and> \<not> bit w j \<longleftrightarrow> Suc k \<le> j \<and> \<not> bit w j"
      using 2 by (metis Suc_leI Suc_leD le_neq_implies_less)
    ultimately show ?thesis using 1 2 by (simp add: and_mask_zero) blast
  next
    case 3
    then have "alloc_offset w k = Some k"
      by (subst alloc_offset.simps) (simp add: and_mask_zero)
    moreover have "j = k" if "k \<le> j" "\<forall>i. k \<le> i \<and> i < j \<longrightarrow> bit w i"
      using that 3 by (metis le_neq_implies_less order_refl)
    ultimately show ?thesis using 3 by auto
  qed
qed

lemma alloc_offset_total:
  assumes "w \<noteq> WORD_ALLBITS"
  shows "\<exists>j. alloc_offset w 0 = Some j \<and> j < 8 \<and> \<not> bit w j \<and> (\<forall>i < j. bit w i)"
proof -
  from assms have "\<exists>k. k < 8 \<and> \<not> bit w k" by (simp add: not_allbits)
  then obtain k where k: "k < 8" "\<not> bit w k" "\<forall>i < k. \<not> (i < 8 \<and> \<not> bit w i)"
    by (subst (asm) exists_least_iff) blast
  then have "\<forall>i < k. bit w i" by (meson order.strict_trans)
  with k show ?thesis by (intro exI [of _ k]) (simp add: alloc_offset_Some)
qed

section \<open>Invariant and abstraction\<close>

text \<open>Whether bit number \<open>i\<close> is set.\<close>

definition bm_bit :: "bitmap \<Rightarrow> nat \<Rightarrow> bool" where
  "bm_bit b i \<longleftrightarrow> bit (bm_v b ! (i div 8)) (i mod 8)"

text \<open>
  The vector has one byte for every 8 bits, rounded up, and the bits past the end are in use,
  so that they are never handed out.
\<close>

definition bitmap_ok :: "bitmap \<Rightarrow> bool" where
  "bitmap_ok b \<longleftrightarrow> nbits b + 7 < 2 ^ 32 \<and> length (bm_v b) = (nbits b + 7) div 8
     \<and> (\<forall>i. nbits b \<le> i \<and> i < 8 * length (bm_v b) \<longrightarrow> bm_bit b i)"

lemma bitmap_words_eq: "n + 7 < 2 ^ 32 \<Longrightarrow> bitmap_words n = (n + 7) div 8"
  by (simp add: bitmap_words_def)

lemma bitmap_ok_index: "bitmap_ok b \<Longrightarrow> i < nbits b \<Longrightarrow> i div 8 < length (bm_v b)"
  by (simp add: bitmap_ok_def)

lemma bm_bit_set:
  assumes "k < 8 * length v"
  shows "bm_bit (b\<lparr>bm_v := v[k div 8 := v ! (k div 8) OR bit_mask (k mod 8)]\<rparr>) i
    \<longleftrightarrow> bm_bit (b\<lparr>bm_v := v\<rparr>) i \<or> i = k"
proof (cases "i div 8 = k div 8")
  case True
  have "i = k \<longleftrightarrow> i mod 8 = k mod 8" using True div_mult_mod_eq [of i 8] div_mult_mod_eq [of k 8] by auto
  moreover have "k div 8 < length v" using assms by linarith
  ultimately show ?thesis using True by (auto simp: bm_bit_def bit_set)
next
  case False
  then show ?thesis by (auto simp: bm_bit_def)
qed

lemma bm_bit_clear:
  assumes "k < 8 * length v"
  shows "bm_bit (b\<lparr>bm_v := v[k div 8 := v ! (k div 8) AND NOT (bit_mask (k mod 8))]\<rparr>) i
    \<longleftrightarrow> bm_bit (b\<lparr>bm_v := v\<rparr>) i \<and> i \<noteq> k"
proof (cases "i div 8 = k div 8")
  case True
  have "i = k \<longleftrightarrow> i mod 8 = k mod 8" using True div_mult_mod_eq [of i 8] div_mult_mod_eq [of k 8] by auto
  moreover have "k div 8 < length v" using assms by linarith
  ultimately show ?thesis using True by (auto simp: bm_bit_def bit_clear)
next
  case False
  then show ?thesis by (auto simp: bm_bit_def)
qed

lemma bm_bit_upd_nbits [simp]: "bm_bit (b\<lparr>nbits := n\<rparr>) i = bm_bit b i"
  by (simp add: bm_bit_def)

lemma bitmap_self_upd [simp]: "b\<lparr>bm_v := bm_v b\<rparr> = b"
  by simp

section \<open>Operations\<close>

text \<open>Creation: the map is well formed and every bit below \<open>n\<close> is clear.\<close>

lemma bitmap_create_ok:
  assumes n: "n + 7 < 2 ^ 32"
  shows "\<exists>b. bitmap_create True True n = Done (Some b) \<and> bitmap_ok b \<and> nbits b = n
    \<and> (\<forall>i < n. \<not> bm_bit b i)"
proof (cases "n mod 8 = 0")
  case True
  then obtain q where q: "n = 8 * q" by auto
  then have w: "bitmap_words n = q" using n by (simp add: bitmap_words_eq)
  define b where "b = \<lparr>nbits = n, bm_v = replicate q (0 :: u8)\<rparr>"
  have "n div 8 = q" by (simp add: q)
  have "bitmap_create True True n = Done (Some b)"
    using \<open>n div 8 = q\<close> by (simp add: bitmap_create_def w b_def Let_def)
  moreover have "bitmap_ok b" using n by (auto simp: bitmap_ok_def b_def q)
  moreover have "\<not> bm_bit b i" if "i < n" for i
    using div_less_blocks [of i 8 q] that by (simp add: bm_bit_def b_def q)
  ultimately show ?thesis by (intro exI [of _ b]) (simp add: b_def)
next
  case False
  define ix where "ix = n div 8"
  define over where "over = n mod 8"
  have nsplit: "n = 8 * ix + over" and over: "0 < over" "over < 8"
    using False by (simp_all add: ix_def over_def)
  then have w: "bitmap_words n = Suc ix" using n by (simp add: bitmap_words_eq)
  have nd: "n div 8 = ix" "n - ix * 8 = over" "ix * 8 < n" "n - ix * 8 < 8" using nsplit over by simp_all
  define b where "b = \<lparr>nbits = n, bm_v = (replicate (Suc ix) 0)[ix := mark_leftover over 0]\<rparr>"
  have "bitmap_create True True n = Done (Some b)"
    using over nd by (simp add: bitmap_create_def w b_def Let_def del: replicate.simps)
  moreover have bits: "bm_bit b i \<longleftrightarrow> n \<le> i" if i: "i < 8 * Suc ix" for i
  proof -
    have v: "bm_v b ! m = (if m = ix then mark_leftover over 0 else 0)" if "m < Suc ix" for m
      using that by (simp add: b_def nth_list_update del: replicate.simps)
    have "i div 8 < Suc ix" using i by (rule div_less_blocks)
    moreover have "n \<le> i \<longleftrightarrow> i div 8 = ix \<and> over \<le> i mod 8"
    proof (cases "i div 8 = ix")
      case True
      then have "i = 8 * ix + i mod 8" by auto
      with True nsplit show ?thesis by linarith
    next
      case False
      then have "i < 8 * ix" using \<open>i div 8 < Suc ix\<close> by linarith
      with False nsplit show ?thesis by simp
    qed
    ultimately show ?thesis by (simp add: bm_bit_def v mark_leftover_bit)
  qed
  moreover have "length (bm_v b) = Suc ix" by (simp add: b_def del: replicate.simps)
  moreover have "(n + 7) div 8 = Suc ix" using nsplit over by simp
  moreover have "n < 8 * Suc ix" using nsplit over by simp
  ultimately show ?thesis using n by (auto simp: bitmap_ok_def b_def)
qed

lemma bitmap_create_nomem:
  "bitmap_create False got n = Done None" "bitmap_create True False n = Done None"
  by (simp_all add: bitmap_create_def)

text \<open>Reading a bit.\<close>

lemma bitmap_isset_iff:
  assumes "bitmap_ok b" and "i < nbits b"
  shows "\<exists>w. bitmap_isset b i = Done w \<and> (w \<noteq> 0 \<longleftrightarrow> bm_bit b i)"
  using bitmap_ok_index [OF assms]
  by (simp add: bitmap_isset_def bitmap_translate_def bm_bit_def and_mask_zero)

text \<open>The well-formedness of a map whose bits below \<open>nbits\<close> changed.\<close>

lemma bitmap_ok_upd:
  assumes "bitmap_ok b" and "length v = length (bm_v b)"
    and "\<And>i. nbits b \<le> i \<Longrightarrow> i < 8 * length v \<Longrightarrow> bm_bit (b\<lparr>bm_v := v\<rparr>) i = bm_bit b i"
  shows "bitmap_ok (b\<lparr>bm_v := v\<rparr>)"
  using assms by (simp add: bitmap_ok_def)

lemma bitmap_mark_spec:
  assumes ok: "bitmap_ok b" and i: "i < nbits b"
  shows "if bm_bit b i then bitmap_mark b i = Panic
    else \<exists>b'. bitmap_mark b i = Done b' \<and> bitmap_ok b' \<and> nbits b' = nbits b
           \<and> (\<forall>j. bm_bit b' j \<longleftrightarrow> bm_bit b j \<or> j = i)"
proof -
  have ix: "i div 8 < length (bm_v b)" by (rule bitmap_ok_index [OF ok i])
  then have lt: "i < 8 * length (bm_v b)" by linarith
  let ?v = "(bm_v b)[i div 8 := bm_v b ! (i div 8) OR bit_mask (i mod 8)]"
  have run: "bitmap_mark b i = (if bm_bit b i then Panic else Done (b\<lparr>bm_v := ?v\<rparr>))"
    using i ix by (simp add: bitmap_mark_def bitmap_translate_def bm_bit_def and_mask_zero kassert_def)
  have bits: "bm_bit (b\<lparr>bm_v := ?v\<rparr>) j \<longleftrightarrow> bm_bit b j \<or> j = i" for j
    using bm_bit_set [OF lt, of b j] by simp
  have "bitmap_ok (b\<lparr>bm_v := ?v\<rparr>)"
    using ok i by (intro bitmap_ok_upd) (simp_all add: bits)
  with run bits show ?thesis by auto
qed

lemma bitmap_unmark_spec:
  assumes ok: "bitmap_ok b" and i: "i < nbits b"
  shows "if bm_bit b i
    then \<exists>b'. bitmap_unmark b i = Done b' \<and> bitmap_ok b' \<and> nbits b' = nbits b
           \<and> (\<forall>j. bm_bit b' j \<longleftrightarrow> bm_bit b j \<and> j \<noteq> i)
    else bitmap_unmark b i = Panic"
proof -
  have ix: "i div 8 < length (bm_v b)" by (rule bitmap_ok_index [OF ok i])
  then have lt: "i < 8 * length (bm_v b)" by linarith
  let ?v = "(bm_v b)[i div 8 := bm_v b ! (i div 8) AND NOT (bit_mask (i mod 8))]"
  have run: "bitmap_unmark b i = (if bm_bit b i then Done (b\<lparr>bm_v := ?v\<rparr>) else Panic)"
    using i ix by (simp add: bitmap_unmark_def bitmap_translate_def bm_bit_def and_mask_zero kassert_def)
  have bits: "bm_bit (b\<lparr>bm_v := ?v\<rparr>) j \<longleftrightarrow> bm_bit b j \<and> j \<noteq> i" for j
    using bm_bit_clear [OF lt, of b j] by simp
  have "bitmap_ok (b\<lparr>bm_v := ?v\<rparr>)"
    using ok i by (intro bitmap_ok_upd) (auto simp: bits)
  with run bits show ?thesis by auto
qed

lemma bitmap_mark_out: "nbits b \<le> i \<Longrightarrow> bitmap_mark b i = Panic"
  by (simp add: bitmap_mark_def kassert_def)

lemma bitmap_unmark_out: "nbits b \<le> i \<Longrightarrow> bitmap_unmark b i = Panic"
  by (simp add: bitmap_unmark_def kassert_def)

text \<open>Allocation: the first clear bit, or \<open>ENOSPC\<close> when there is none.\<close>

lemma alloc_from_spec:
  assumes ok: "bitmap_ok b" and "ix \<le> length (bm_v b)" and "\<forall>i < 8 * ix. bm_bit b i"
  shows "(\<forall>i < nbits b. bm_bit b i) \<and> alloc_from b ix (length (bm_v b)) = Done (ENOSPC, None, b)
    \<or> (\<exists>k < nbits b. \<not> bm_bit b k \<and> (\<forall>i < k. bm_bit b i)
        \<and> alloc_from b ix (length (bm_v b))
            = Done (EOK, Some k, b\<lparr>bm_v := (bm_v b)[k div 8 := bm_v b ! (k div 8) OR bit_mask (k mod 8)]\<rparr>))"
  using assms(2,3)
proof (induction "length (bm_v b) - ix" arbitrary: ix)
  case 0
  then have "ix = length (bm_v b)" by simp
  moreover have "nbits b \<le> 8 * length (bm_v b)" using ok by (simp add: bitmap_ok_def)
  ultimately show ?case using 0 by (simp add: alloc_from.simps)
next
  case (Suc d)
  then have ix: "ix < length (bm_v b)" by simp
  let ?w = "bm_v b ! ix"
  show ?case
  proof (cases "?w = WORD_ALLBITS")
    case True
    have "bm_bit b i" if "i < 8 * Suc ix" for i
    proof (cases "i < 8 * ix")
      case False
      then have "i div 8 = ix" using that by (intro div_mod_block) simp_all
      with True show ?thesis by (simp add: bm_bit_def allbits_bit)
    qed (use Suc.prems in simp)
    moreover have "d = length (bm_v b) - Suc ix" using Suc.hyps(2) by simp
    moreover have "alloc_from b ix (length (bm_v b)) = alloc_from b (Suc ix) (length (bm_v b))"
      using ix True by (subst alloc_from.simps) simp
    ultimately show ?thesis using Suc.hyps(1) [of "Suc ix"] ix by simp
  next
    case False
    then obtain j where j: "alloc_offset ?w 0 = Some j" "j < 8" "\<not> bit ?w j" "\<forall>i < j. bit ?w i"
      using alloc_offset_total by blast
    define k where "k = 8 * ix + j"
    have kix: "k div 8 = ix" "k mod 8 = j" "k < 8 * length (bm_v b)" using j(2) ix by (simp_all add: k_def)
    have free: "\<not> bm_bit b k" using j(3) kix by (simp add: bm_bit_def)
    have below: "bm_bit b i" if "i < k" for i
    proof (cases "i < 8 * ix")
      case False
      then have "i div 8 = ix" "i mod 8 = i - 8 * ix"
        using that j(2) by (auto simp: k_def intro!: div_mod_block)
      moreover from this have "i mod 8 < j" using that False by (simp add: k_def)
      ultimately show ?thesis using j(4) by (simp add: bm_bit_def)
    qed (use Suc.prems in simp)
    have "k < nbits b" using ok free kix(3) by (auto simp: bitmap_ok_def not_less [symmetric])
    moreover have "ix * 8 + j = k" by (simp add: k_def)
    ultimately show ?thesis
      using False j(1) ix free below kix(1,2)
      by (intro disjI2 exI [of _ k]) (subst alloc_from.simps, simp)
  qed
qed

lemma bitmap_alloc_spec:
  assumes ok: "bitmap_ok b"
  shows "if \<forall>i < nbits b. bm_bit b i then bitmap_alloc b = Done (ENOSPC, None, b)
    else \<exists>k b'. bitmap_alloc b = Done (EOK, Some k, b') \<and> bitmap_ok b' \<and> nbits b' = nbits b
           \<and> k < nbits b \<and> \<not> bm_bit b k \<and> (\<forall>i < k. bm_bit b i)
           \<and> (\<forall>j. bm_bit b' j \<longleftrightarrow> bm_bit b j \<or> j = k)"
proof -
  have words: "bitmap_words (nbits b) = length (bm_v b)"
    using ok by (simp add: bitmap_ok_def bitmap_words_eq)
  have "(\<forall>i < nbits b. bm_bit b i) \<and> bitmap_alloc b = Done (ENOSPC, None, b)
    \<or> (\<exists>k < nbits b. \<not> bm_bit b k \<and> (\<forall>i < k. bm_bit b i) \<and> bitmap_alloc b
         = Done (EOK, Some k, b\<lparr>bm_v := (bm_v b)[k div 8 := bm_v b ! (k div 8) OR bit_mask (k mod 8)]\<rparr>))"
    using alloc_from_spec [OF ok, of 0] by (simp add: bitmap_alloc_def words)
  then show ?thesis
  proof (elim disjE exE conjE)
    fix k assume k: "k < nbits b" "\<not> bm_bit b k" "\<forall>i < k. bm_bit b i"
      and run: "bitmap_alloc b
         = Done (EOK, Some k, b\<lparr>bm_v := (bm_v b)[k div 8 := bm_v b ! (k div 8) OR bit_mask (k mod 8)]\<rparr>)"
    have lt: "k < 8 * length (bm_v b)" using bitmap_ok_index [OF ok k(1)] by linarith
    have "bitmap_ok (b\<lparr>bm_v := (bm_v b)[k div 8 := bm_v b ! (k div 8) OR bit_mask (k mod 8)]\<rparr>)"
      using ok k(1) bm_bit_set [OF lt, of b] by (intro bitmap_ok_upd) auto
    with k run bm_bit_set [OF lt, of b] show ?thesis by auto
  qed simp
qed

section \<open>The contract of an allocation map\<close>

text \<open>
  What a client of a bitmap relies on (the free map of SFS): numbers below \<open>size\<close> are free or in use,
  an allocation takes a free one, and a release gives it back.
\<close>

locale number_pool =
  fixes ok :: "'s \<Rightarrow> bool"
    and size :: "'s \<Rightarrow> nat"
    and used :: "'s \<Rightarrow> nat \<Rightarrow> bool"
    and alloc :: "'s \<Rightarrow> (errno \<times> nat option \<times> 's) outcome"
    and release :: "'s \<Rightarrow> nat \<Rightarrow> 's outcome"
  assumes alloc_full: "ok s \<Longrightarrow> (\<And>i. i < size s \<Longrightarrow> used s i) \<Longrightarrow> alloc s = Done (ENOSPC, None, s)"
    and alloc_free: "ok s \<Longrightarrow> i < size s \<Longrightarrow> \<not> used s i \<Longrightarrow>
      \<exists>k s'. alloc s = Done (EOK, Some k, s') \<and> ok s' \<and> size s' = size s \<and> k < size s
        \<and> \<not> used s k \<and> (\<forall>j. used s' j \<longleftrightarrow> used s j \<or> j = k)"
    and release_used: "ok s \<Longrightarrow> i < size s \<Longrightarrow> used s i \<Longrightarrow>
      \<exists>s'. release s i = Done s' \<and> ok s' \<and> size s' = size s \<and> (\<forall>j. used s' j \<longleftrightarrow> used s j \<and> j \<noteq> i)"
    and release_free: "ok s \<Longrightarrow> i < size s \<Longrightarrow> \<not> used s i \<Longrightarrow> release s i = Panic"
begin

lemma alloc_cases:
  assumes "ok s"
  shows "(\<forall>i < size s. used s i) \<and> alloc s = Done (ENOSPC, None, s) \<or>
    (\<exists>k s'. alloc s = Done (EOK, Some k, s') \<and> ok s' \<and> size s' = size s \<and> k < size s
        \<and> \<not> used s k \<and> (\<forall>j. used s' j \<longleftrightarrow> used s j \<or> j = k))"
proof (cases "\<forall>i < size s. used s i")
  case True
  then show ?thesis using alloc_full [OF assms] by blast
next
  case False
  then show ?thesis using alloc_free [OF assms] by blast
qed

text \<open>Giving back what was just allocated restores the set of numbers in use.\<close>

lemma alloc_release:
  assumes "ok s" and "alloc s = Done (EOK, Some k, s')"
  shows "\<exists>s''. release s' k = Done s'' \<and> ok s'' \<and> size s'' = size s \<and> (\<forall>j. used s'' j \<longleftrightarrow> used s j)"
  using alloc_cases [OF assms(1)]
proof (elim disjE exE conjE)
  fix k2 s2 assume *: "alloc s = Done (EOK, Some k2, s2)" "ok s2" "size s2 = size s" "k2 < size s"
    "\<not> used s k2" "\<forall>j. used s2 j \<longleftrightarrow> used s j \<or> j = k2"
  then have [simp]: "k2 = k" "s2 = s'" using assms(2) by simp_all
  have "k < size s'" "used s' k" using * by simp_all
  from release_used [OF _ this] * show ?thesis by auto
qed (use assms(2) in simp)

text \<open>Two allocations never hand out the same number.\<close>

lemma alloc_twice:
  assumes "ok s" and "alloc s = Done (EOK, Some k, s')" and "alloc s' = Done (EOK, Some k2, s2)"
  shows "k \<noteq> k2"
proof -
  have "ok s'" "used s' k" using alloc_cases [OF assms(1)] assms(2) by auto
  then show ?thesis using alloc_cases [of s'] assms(3) by auto
qed

text \<open>The number of free numbers goes down by one.\<close>

lemma alloc_count:
  assumes "ok s" and "alloc s = Done (EOK, Some k, s')"
  shows "card {i. i < size s' \<and> \<not> used s' i} = card {i. i < size s \<and> \<not> used s i} - 1"
proof -
  have "{i. i < size s' \<and> \<not> used s' i} = {i. i < size s \<and> \<not> used s i} - {k}"
    and "k \<in> {i. i < size s \<and> \<not> used s i}"
    using alloc_cases [OF assms(1)] assms(2) by auto
  then show ?thesis by simp
qed

end

interpretation bmp: number_pool bitmap_ok nbits bm_bit bitmap_alloc bitmap_unmark
proof unfold_locales
  fix b :: bitmap and i
  show "bitmap_alloc b = Done (ENOSPC, None, b)" if "bitmap_ok b" "\<And>i. i < nbits b \<Longrightarrow> bm_bit b i"
    using bitmap_alloc_spec [OF that(1)] that(2) by simp
  show "\<exists>k b'. bitmap_alloc b = Done (EOK, Some k, b') \<and> bitmap_ok b' \<and> nbits b' = nbits b \<and> k < nbits b
      \<and> \<not> bm_bit b k \<and> (\<forall>j. bm_bit b' j \<longleftrightarrow> bm_bit b j \<or> j = k)"
    if "bitmap_ok b" "i < nbits b" "\<not> bm_bit b i"
    using bitmap_alloc_spec [OF that(1)] that(2,3) by (auto split: if_splits)
  show "\<exists>b'. bitmap_unmark b i = Done b' \<and> bitmap_ok b' \<and> nbits b' = nbits b
      \<and> (\<forall>j. bm_bit b' j \<longleftrightarrow> bm_bit b j \<and> j \<noteq> i)"
    if "bitmap_ok b" "i < nbits b" "bm_bit b i"
    using bitmap_unmark_spec [OF that(1,2)] that(3) by simp
  show "bitmap_unmark b i = Panic" if "bitmap_ok b" "i < nbits b" "\<not> bm_bit b i"
    using bitmap_unmark_spec [OF that(1,2)] that(3) by simp
qed

section \<open>Properties\<close>

text \<open>
  C25: \<open>bitmap_alloc\<close> on a well-formed bitmap returns \<open>ENOSPC\<close> and changes nothing exactly when every bit
  is set; otherwise it succeeds with the lowest clear bit, which is the only bit that changes, and
  the bitmap stays well formed. No assertion of the code fails.
\<close>

theorem bitmap_alloc_lowest:
  assumes "bitmap_ok b"
  shows "if \<forall>i < nbits b. bm_bit b i then bitmap_alloc b = Done (ENOSPC, None, b)
    else \<exists>k b'. bitmap_alloc b = Done (EOK, Some k, b') \<and> bitmap_ok b' \<and> nbits b' = nbits b
           \<and> k < nbits b \<and> \<not> bm_bit b k \<and> (\<forall>i < k. bm_bit b i)
           \<and> (\<forall>j. bm_bit b' j \<longleftrightarrow> bm_bit b j \<or> j = k)"
  by (rule bitmap_alloc_spec [OF assms])

theorem bitmap_alloc_lowest_witness:
  "\<exists>k b'. bitmap_alloc \<lparr>nbits = 8, bm_v = [1]\<rparr> = Done (EOK, Some k, b') \<and> k < 8"
proof -
  have "bitmap_ok \<lparr>nbits = 8, bm_v = [1]\<rparr>" by (auto simp: bitmap_ok_def)
  moreover have "\<not> bm_bit \<lparr>nbits = 8, bm_v = [1]\<rparr> 1" by (simp add: bm_bit_def bit_1_iff)
  ultimately show ?thesis using bitmap_alloc_lowest [of "\<lparr>nbits = 8, bm_v = [1]\<rparr>"]
    by (auto split: if_splits)
qed

text \<open>
  A bit that \<open>bitmap_alloc\<close> handed out can be given back: \<open>bitmap_unmark\<close> then succeeds and leaves
  the same bits in use as before the allocation.
\<close>

theorem bitmap_alloc_unmark:
  assumes "bitmap_ok b" and "bitmap_alloc b = Done (EOK, Some k, b')"
  shows "\<exists>b''. bitmap_unmark b' k = Done b'' \<and> bitmap_ok b'' \<and> nbits b'' = nbits b
    \<and> (\<forall>j. bm_bit b'' j \<longleftrightarrow> bm_bit b j)"
  by (rule bmp.alloc_release [OF assms])

theorem bitmap_alloc_unmark_witness:
  "\<exists>k b' b''. bitmap_alloc \<lparr>nbits = 8, bm_v = [1]\<rparr> = Done (EOK, Some k, b') \<and> bitmap_unmark b' k = Done b''
    \<and> nbits b'' = 8"
proof -
  have ok: "bitmap_ok \<lparr>nbits = 8, bm_v = [1]\<rparr>" by (auto simp: bitmap_ok_def)
  have "\<not> bm_bit \<lparr>nbits = 8, bm_v = [1]\<rparr> 1" by (simp add: bm_bit_def bit_1_iff)
  then obtain k b' where "bitmap_alloc \<lparr>nbits = 8, bm_v = [1]\<rparr> = Done (EOK, Some k, b')"
    using bmp.alloc_free [OF ok, of 1] by auto
  then show ?thesis using bitmap_alloc_unmark [OF ok] by fastforce
qed

text \<open>
  \<open>bitmap_create\<close> gives a well-formed bitmap of the asked size with every bit clear; the bits that
  pad the last byte are set, so that they are never handed out.
\<close>

theorem bitmap_create_clear:
  assumes "n + 7 < 2 ^ 32"
  shows "\<exists>b. bitmap_create True True n = Done (Some b) \<and> bitmap_ok b \<and> nbits b = n \<and> (\<forall>i < n. \<not> bm_bit b i)"
  by (rule bitmap_create_ok [OF assms])

theorem bitmap_create_clear_witness:
  "\<exists>b. bitmap_create True True 13 = Done (Some b) \<and> bitmap_ok b \<and> \<not> bm_bit b 12"
  using bitmap_create_clear [of 13] by force

end
