(* ===== verification/Kern_Threadlist.thy ===== *)
theory Kern_Threadlist
  imports Kern_Prelude
begin

text \<open>
  Lists of threads: \<^verbatim>\<open>kern/thread/threadlist.c\<close>. A list is doubly linked, with a bookend node
  at each end that is never removed; the node of a thread is part of the thread.

  The nodes live in one store, since a thread can move from any list to any other: a node
  pointer is the head or the tail bookend of a list (lists are numbered) or the \<open>t_listnode\<close> of
  a thread. Every operation is the sequence of pointer assignments of the code, and a read
  through a null pointer is \<open>Fault\<close>. The \<open>DEBUGASSERT\<close> checks are compiled out in this tree
  (\<^verbatim>\<open>kern/include/lib.h\<close>) and so are not part of the model.

  The lemmas show that the operations implement the sequence operations their names promise
  (\<open>tl_repr\<close> relates the store to a sequence of threads) and leave all other lists alone.
\<close>

type_synonym tid = nat
type_synonym listid = nat

datatype nodeptr = Head listid | Tail listid | TNode tid

record tlnode =
  tln_prev :: "nodeptr option"
  tln_next :: "nodeptr option"
  tln_self :: "tid option"

record tlstore =
  tl_node :: "nodeptr \<Rightarrow> tlnode"
  tl_count :: "listid \<Rightarrow> u32"

definition set_next :: "nodeptr \<Rightarrow> nodeptr option \<Rightarrow> tlstore \<Rightarrow> tlstore" where
  "set_next p x s = s\<lparr>tl_node := (tl_node s)(p := (tl_node s p)\<lparr>tln_next := x\<rparr>)\<rparr>"

definition set_prev :: "nodeptr \<Rightarrow> nodeptr option \<Rightarrow> tlstore \<Rightarrow> tlstore" where
  "set_prev p x s = s\<lparr>tl_node := (tl_node s)(p := (tl_node s p)\<lparr>tln_prev := x\<rparr>)\<rparr>"

definition set_self :: "nodeptr \<Rightarrow> tid option \<Rightarrow> tlstore \<Rightarrow> tlstore" where
  "set_self p x s = s\<lparr>tl_node := (tl_node s)(p := (tl_node s p)\<lparr>tln_self := x\<rparr>)\<rparr>"

definition set_count :: "listid \<Rightarrow> u32 \<Rightarrow> tlstore \<Rightarrow> tlstore" where
  "set_count l n s = s\<lparr>tl_count := (tl_count s)(l := n)\<rparr>"

section \<open>The code\<close>

definition threadlistnode_init :: "nodeptr \<Rightarrow> tid option \<Rightarrow> tlstore \<Rightarrow> tlstore outcome" where
  "threadlistnode_init tln t s =
     kassert (t \<noteq> None) (Done (set_self tln t (set_prev tln None (set_next tln None s))))"

definition threadlistnode_cleanup :: "nodeptr \<Rightarrow> tlstore \<Rightarrow> unit outcome" where
  "threadlistnode_cleanup tln s =
     kassert (tln_next (tl_node s tln) = None) (
     kassert (tln_prev (tl_node s tln) = None) (
     kassert (tln_self (tl_node s tln) \<noteq> None) (Done ())))"

definition threadlist_init :: "listid \<Rightarrow> tlstore \<Rightarrow> tlstore" where
  "threadlist_init l s =
     set_count l 0 (
     set_self (Tail l) None (
     set_self (Head l) None (
     set_prev (Tail l) (Some (Head l)) (
     set_next (Tail l) None (
     set_prev (Head l) None (
     set_next (Head l) (Some (Tail l)) s))))))"

definition threadlist_isempty :: "listid \<Rightarrow> tlstore \<Rightarrow> bool" where
  "threadlist_isempty l s \<longleftrightarrow> tl_count s l = 0"

definition threadlist_cleanup :: "listid \<Rightarrow> tlstore \<Rightarrow> unit outcome" where
  "threadlist_cleanup l s =
     kassert (threadlist_isempty l s) (kassert (tl_count s l = 0) (Done ()))"

definition threadlist_insertafternode :: "nodeptr \<Rightarrow> tid \<Rightarrow> tlstore \<Rightarrow> tlstore outcome" where
  "threadlist_insertafternode onlist t s =
     (let addee = TNode t;
          s = set_prev addee (Some onlist) s;
          s = set_next addee (tln_next (tl_node s onlist)) s
      in bnd (deref (tln_prev (tl_node s addee))) (\<lambda>p.
         let s = set_next p (Some addee) s
         in bnd (deref (tln_next (tl_node s addee))) (\<lambda>n.
            Done (set_prev n (Some addee) s))))"

definition threadlist_insertbeforenode :: "tid \<Rightarrow> nodeptr \<Rightarrow> tlstore \<Rightarrow> tlstore outcome" where
  "threadlist_insertbeforenode t onlist s =
     (let addee = TNode t;
          s = set_prev addee (tln_prev (tl_node s onlist)) s;
          s = set_next addee (Some onlist) s
      in bnd (deref (tln_prev (tl_node s addee))) (\<lambda>p.
         let s = set_next p (Some addee) s
         in bnd (deref (tln_next (tl_node s addee))) (\<lambda>n.
            Done (set_prev n (Some addee) s))))"

definition threadlist_removenode :: "nodeptr \<Rightarrow> tlstore \<Rightarrow> tlstore outcome" where
  "threadlist_removenode tln s =
     bnd (deref (tln_prev (tl_node s tln))) (\<lambda>p.
     let s = set_next p (tln_next (tl_node s tln)) s
     in bnd (deref (tln_next (tl_node s tln))) (\<lambda>n.
        let s = set_prev n (tln_prev (tl_node s tln)) s
        in Done (set_next tln None (set_prev tln None s))))"

definition threadlist_addhead :: "listid \<Rightarrow> tid \<Rightarrow> tlstore \<Rightarrow> tlstore outcome" where
  "threadlist_addhead l t s =
     bnd (threadlist_insertafternode (Head l) t s) (\<lambda>s.
       Done (set_count l (tl_count s l + 1) s))"

definition threadlist_addtail :: "listid \<Rightarrow> tid \<Rightarrow> tlstore \<Rightarrow> tlstore outcome" where
  "threadlist_addtail l t s =
     bnd (threadlist_insertbeforenode t (Tail l) s) (\<lambda>s.
       Done (set_count l (tl_count s l + 1) s))"

definition threadlist_remhead :: "listid \<Rightarrow> tlstore \<Rightarrow> (tid option \<times> tlstore) outcome" where
  "threadlist_remhead l s =
     bnd (deref (tln_next (tl_node s (Head l)))) (\<lambda>tln.
       if tln_next (tl_node s tln) = None then Done (None, s)
       else bnd (threadlist_removenode tln s) (\<lambda>s.
         let s = set_count l (tl_count s l - 1) s
         in Done (tln_self (tl_node s tln), s)))"

definition threadlist_remtail :: "listid \<Rightarrow> tlstore \<Rightarrow> (tid option \<times> tlstore) outcome" where
  "threadlist_remtail l s =
     bnd (deref (tln_prev (tl_node s (Tail l)))) (\<lambda>tln.
       if tln_prev (tl_node s tln) = None then Done (None, s)
       else bnd (threadlist_removenode tln s) (\<lambda>s.
         let s = set_count l (tl_count s l - 1) s
         in Done (tln_self (tl_node s tln), s)))"

definition threadlist_insertafter :: "listid \<Rightarrow> tid \<Rightarrow> tid \<Rightarrow> tlstore \<Rightarrow> tlstore outcome" where
  "threadlist_insertafter l onlist addee s =
     bnd (threadlist_insertafternode (TNode onlist) addee s) (\<lambda>s.
       Done (set_count l (tl_count s l + 1) s))"

definition threadlist_insertbefore :: "listid \<Rightarrow> tid \<Rightarrow> tid \<Rightarrow> tlstore \<Rightarrow> tlstore outcome" where
  "threadlist_insertbefore l addee onlist s =
     bnd (threadlist_insertbeforenode addee (TNode onlist) s) (\<lambda>s.
       Done (set_count l (tl_count s l + 1) s))"

definition threadlist_remove :: "listid \<Rightarrow> tid \<Rightarrow> tlstore \<Rightarrow> tlstore outcome" where
  "threadlist_remove l t s =
     bnd (threadlist_removenode (TNode t) s) (\<lambda>s.
       Done (set_count l (tl_count s l - 1) s))"

section \<open>What a list holds\<close>

text \<open>Neighbouring nodes point at each other.\<close>

fun linked :: "(nodeptr \<Rightarrow> tlnode) \<Rightarrow> nodeptr list \<Rightarrow> bool" where
  "linked h (a # b # ns) \<longleftrightarrow>
     tln_next (h a) = Some b \<and> tln_prev (h b) = Some a \<and> linked h (b # ns)"
| "linked h ns \<longleftrightarrow> True"

definition tl_nodes :: "listid \<Rightarrow> tid list \<Rightarrow> nodeptr list" where
  "tl_nodes l ts = Head l # map TNode ts @ [Tail l]"

text \<open>List \<open>l\<close> of the store holds exactly the threads \<open>ts\<close>, in that order.\<close>

definition tl_repr :: "tlstore \<Rightarrow> listid \<Rightarrow> tid list \<Rightarrow> bool" where
  "tl_repr s l ts \<longleftrightarrow>
     linked (tl_node s) (tl_nodes l ts) \<and> distinct ts \<and>
     tln_prev (tl_node s (Head l)) = None \<and> tln_next (tl_node s (Tail l)) = None \<and>
     (\<forall>t \<in> set ts. tln_self (tl_node s (TNode t)) = Some t) \<and>
     unat (tl_count s l) = length ts"

text \<open>A thread that is on no list.\<close>

definition tl_detached :: "tlstore \<Rightarrow> tid \<Rightarrow> bool" where
  "tl_detached s t \<longleftrightarrow> tl_node s (TNode t) = \<lparr>tln_prev = None, tln_next = None, tln_self = Some t\<rparr>"

lemma linked_append:
  "linked h (xs @ a # ys) \<longleftrightarrow> linked h (xs @ [a]) \<and> linked h (a # ys)"
proof (induction xs)
  case (Cons x xs)
  then show ?case by (cases xs) simp_all
qed simp

lemma linked_cong:
  assumes "\<And>x. x \<in> set (butlast ns) \<Longrightarrow> tln_next (h' x) = tln_next (h x)"
    and "\<And>x. x \<in> set (tl ns) \<Longrightarrow> tln_prev (h' x) = tln_prev (h x)"
  shows "linked h' ns = linked h ns"
  using assms by (induction h ns rule: linked.induct) auto

lemma in_set_tlD: "x \<in> set (tl ns) \<Longrightarrow> x \<in> set ns"
  by (cases ns) simp_all

text \<open>Pointers that are changed elsewhere leave a segment linked.\<close>

lemma linked_segment:
  assumes "linked h ns" and "a \<notin> set (butlast ns)" and "b \<notin> set (tl ns)" and "c \<notin> set ns"
    and "\<And>x. x \<noteq> a \<Longrightarrow> x \<noteq> c \<Longrightarrow> tln_next (h' x) = tln_next (h x)"
    and "\<And>x. x \<noteq> b \<Longrightarrow> x \<noteq> c \<Longrightarrow> tln_prev (h' x) = tln_prev (h x)"
  shows "linked h' ns"
proof -
  have "linked h' ns = linked h ns"
    using assms(2-4) by (intro linked_cong assms(5,6)) (auto dest: in_set_tlD in_set_butlastD)
  with assms(1) show ?thesis by simp
qed

lemma linked_insert:
  assumes "linked h (xs @ a # b # ys)" and "distinct (xs @ a # b # ys)" and "c \<notin> set (xs @ a # b # ys)"
    and "tln_next (h' a) = Some c" "tln_prev (h' c) = Some a"
    and "tln_next (h' c) = Some b" "tln_prev (h' b) = Some c"
    and "\<And>x. x \<noteq> a \<Longrightarrow> x \<noteq> c \<Longrightarrow> tln_next (h' x) = tln_next (h x)"
    and "\<And>x. x \<noteq> b \<Longrightarrow> x \<noteq> c \<Longrightarrow> tln_prev (h' x) = tln_prev (h x)"
  shows "linked h' (xs @ a # c # b # ys)"
proof -
  have "linked h (xs @ [a])" and "linked h (b # ys)"
    using assms(1) linked_append [of h xs a "b # ys"] by simp_all
  then have "linked h' (xs @ [a])" and "linked h' (b # ys)"
    using assms(2,3)
    by (auto elim!: linked_segment [where a = a and b = b and c = c] dest: in_set_tlD in_set_butlastD
        simp: assms(8,9))
  then show ?thesis
    using assms(4-7) linked_append [of h' xs a "c # b # ys"] by simp
qed

lemma linked_remove:
  assumes "linked h (xs @ a # c # b # ys)" and "distinct (xs @ a # c # b # ys)"
    and "tln_next (h' a) = Some b" "tln_prev (h' b) = Some a"
    and "\<And>x. x \<noteq> a \<Longrightarrow> x \<noteq> c \<Longrightarrow> tln_next (h' x) = tln_next (h x)"
    and "\<And>x. x \<noteq> b \<Longrightarrow> x \<noteq> c \<Longrightarrow> tln_prev (h' x) = tln_prev (h x)"
  shows "linked h' (xs @ a # b # ys)"
proof -
  have "linked h (xs @ [a])" and "linked h (b # ys)"
    using assms(1) linked_append [of h xs a "c # b # ys"] by simp_all
  then have "linked h' (xs @ [a])" and "linked h' (b # ys)"
    using assms(2)
    by (auto elim!: linked_segment [where a = a and b = b and c = c] dest: in_set_tlD in_set_butlastD
        simp: assms(5,6))
  then show ?thesis
    using assms(3,4) linked_append [of h' xs a "b # ys"] by simp
qed

text \<open>The nodes next to the position between \<open>us\<close> and \<open>vs\<close>.\<close>

definition node_before :: "listid \<Rightarrow> tid list \<Rightarrow> nodeptr" where
  "node_before l us = (if us = [] then Head l else TNode (last us))"

definition node_after :: "listid \<Rightarrow> tid list \<Rightarrow> nodeptr" where
  "node_after l vs = (if vs = [] then Tail l else TNode (hd vs))"

lemma tl_nodes_split:
  obtains xs ys where "tl_nodes l (us @ vs) = xs @ node_before l us # node_after l vs # ys"
    and "\<And>t. tl_nodes l (us @ t # vs) = xs @ node_before l us # TNode t # node_after l vs # ys"
proof
  let ?xs = "butlast (Head l # map TNode us)" and ?ys = "tl (map TNode vs @ [Tail l])"
  have b: "?xs @ [node_before l us] = Head l # map TNode us"
    by (cases us rule: rev_cases) (simp_all add: node_before_def butlast_append)
  have a: "node_after l vs # ?ys = map TNode vs @ [Tail l]"
    by (cases vs) (simp_all add: node_after_def)
  show "tl_nodes l (us @ vs) = ?xs @ node_before l us # node_after l vs # ?ys"
    unfolding tl_nodes_def a using b by simp
  show "tl_nodes l (us @ t # vs) = ?xs @ node_before l us # TNode t # node_after l vs # ?ys" for t
    unfolding tl_nodes_def a using b by simp
qed

lemma distinct_tl_nodes: "distinct (tl_nodes l ts) \<longleftrightarrow> distinct ts"
  by (auto simp: tl_nodes_def distinct_map inj_on_def)

lemma set_tl_nodes: "set (tl_nodes l ts) = {Head l, Tail l} \<union> TNode ` set ts"
  by (auto simp: tl_nodes_def)

lemmas node_upd_defs = set_next_def set_prev_def set_self_def set_count_def

text \<open>A list whose nodes and counter are left alone holds what it held.\<close>

lemma tl_repr_frame:
  assumes "tl_repr s l ts" and "\<And>p. p \<in> set (tl_nodes l ts) \<Longrightarrow> tl_node s' p = tl_node s p"
    and "tl_count s' l = tl_count s l"
  shows "tl_repr s' l ts"
proof -
  have "linked (tl_node s') (tl_nodes l ts) = linked (tl_node s) (tl_nodes l ts)"
    by (rule linked_cong) (use assms(2) in \<open>auto simp: tl_nodes_def dest: in_set_butlastD\<close>)
  then show ?thesis
    using assms by (simp add: tl_repr_def set_tl_nodes)
qed

section \<open>Insertion and removal\<close>

text \<open>The store after \<open>c\<close> was linked in between \<open>a\<close> and \<open>b\<close>, and after it was taken out.\<close>

definition tl_inserted :: "nodeptr \<Rightarrow> nodeptr \<Rightarrow> nodeptr \<Rightarrow> tlstore \<Rightarrow> tlstore \<Rightarrow> bool" where
  "tl_inserted a c b s s' \<longleftrightarrow> tl_count s' = tl_count s \<and>
     (\<forall>p. tl_node s' p = \<lparr>
        tln_prev = (if p = b then Some c else if p = c then Some a else tln_prev (tl_node s p)),
        tln_next = (if p = a then Some c else if p = c then Some b else tln_next (tl_node s p)),
        tln_self = tln_self (tl_node s p)\<rparr>)"

definition tl_removed :: "nodeptr \<Rightarrow> nodeptr \<Rightarrow> nodeptr \<Rightarrow> tlstore \<Rightarrow> tlstore \<Rightarrow> bool" where
  "tl_removed a c b s s' \<longleftrightarrow> tl_count s' = tl_count s \<and>
     (\<forall>p. tl_node s' p = \<lparr>
        tln_prev = (if p = b then Some a else if p = c then None else tln_prev (tl_node s p)),
        tln_next = (if p = a then Some b else if p = c then None else tln_next (tl_node s p)),
        tln_self = tln_self (tl_node s p)\<rparr>)"

lemma insertafternode_inserts:
  assumes "tln_next (tl_node s a) = Some b" and "a \<noteq> b" "a \<noteq> TNode t" "b \<noteq> TNode t"
  shows "\<exists>s'. threadlist_insertafternode a t s = Done s' \<and> tl_inserted a (TNode t) b s s'"
  using assms by (simp add: threadlist_insertafternode_def node_upd_defs tl_inserted_def Let_def)

lemma insertbeforenode_inserts:
  assumes "tln_prev (tl_node s b) = Some a" and "a \<noteq> b" "a \<noteq> TNode t" "b \<noteq> TNode t"
  shows "\<exists>s'. threadlist_insertbeforenode t b s = Done s' \<and> tl_inserted a (TNode t) b s s'"
  using assms by (simp add: threadlist_insertbeforenode_def node_upd_defs tl_inserted_def Let_def)

lemma removenode_removes:
  assumes "tln_prev (tl_node s c) = Some a" and "tln_next (tl_node s c) = Some b"
    and "a \<noteq> b" "a \<noteq> c" "b \<noteq> c"
  shows "\<exists>s'. threadlist_removenode c s = Done s' \<and> tl_removed a c b s s'"
  using assms by (simp add: threadlist_removenode_def node_upd_defs tl_removed_def Let_def)

lemma tl_repr_neighbours:
  assumes "tl_repr s l (us @ vs)"
  shows "tln_next (tl_node s (node_before l us)) = Some (node_after l vs)"
    and "tln_prev (tl_node s (node_after l vs)) = Some (node_before l us)"
    and "node_before l us \<noteq> node_after l vs"
proof -
  obtain xs ys where *: "tl_nodes l (us @ vs) = xs @ node_before l us # node_after l vs # ys"
    by (rule tl_nodes_split [of l us vs]) blast
  have "linked (tl_node s) (xs @ node_before l us # node_after l vs # ys)"
    using assms by (simp only: tl_repr_def * [symmetric])
  then have "linked (tl_node s) (node_before l us # node_after l vs # ys)"
    using linked_append [of "tl_node s" xs "node_before l us"] by blast
  then show "tln_next (tl_node s (node_before l us)) = Some (node_after l vs)"
    and "tln_prev (tl_node s (node_after l vs)) = Some (node_before l us)"
    by simp_all
  have "distinct (xs @ node_before l us # node_after l vs # ys)"
    using assms by (simp only: tl_repr_def * [symmetric] distinct_tl_nodes)
  then show "node_before l us \<noteq> node_after l vs" by simp
qed

lemma unat_suc: "unat n = k \<Longrightarrow> Suc k < 2 ^ 32 \<Longrightarrow> unat (n + 1) = Suc k" for n :: u32
  by (simp add: unat_word_ariths)

lemma unat_pred: "unat n = Suc k \<Longrightarrow> unat (n - 1) = k" for n :: u32
  by (subst unat_minus_one) auto

text \<open>
  Linking a thread in, or taking one out, changes the sequence the list holds accordingly.
  The counter of the list is adjusted by the caller.
\<close>

lemma tl_repr_inserted:
  assumes r: "tl_repr s l (us @ vs)" and t: "t \<notin> set us \<union> set vs"
    and self: "tln_self (tl_node s (TNode t)) = Some t"
    and room: "Suc (length us + length vs) < 2 ^ 32"
    and ins: "tl_inserted (node_before l us) (TNode t) (node_after l vs) s s'"
  shows "tl_repr (set_count l (tl_count s' l + 1) s') l (us @ t # vs)"
proof -
  let ?a = "node_before l us" and ?b = "node_after l vs"
  obtain xs ys where sp: "tl_nodes l (us @ vs) = xs @ ?a # ?b # ys"
      "tl_nodes l (us @ t # vs) = xs @ ?a # TNode t # ?b # ys"
    by (rule tl_nodes_split [of l us vs]) blast
  have "linked (tl_node s) (xs @ ?a # ?b # ys)" "distinct (xs @ ?a # ?b # ys)"
    using r by (simp_all only: tl_repr_def flip: sp(1)) (simp add: distinct_tl_nodes)
  moreover have "TNode t \<notin> set (xs @ ?a # ?b # ys)"
    using t by (auto simp: set_tl_nodes simp flip: sp(1))
  ultimately have "linked (tl_node s') (tl_nodes l (us @ t # vs))"
    unfolding sp(2) using ins
    by (rule_tac linked_insert [where h = "tl_node s"]) (simp_all add: tl_inserted_def)
  moreover have "unat (tl_count s' l + 1) = Suc (length us + length vs)"
    using r ins room by (intro unat_suc) (simp_all add: tl_repr_def tl_inserted_def)
  ultimately show ?thesis
    using r t self ins by (auto simp: tl_repr_def tl_inserted_def set_count_def node_before_def node_after_def)
qed

lemma tl_repr_removed:
  assumes r: "tl_repr s l (us @ t # vs)"
    and rem: "tl_removed (node_before l us) (TNode t) (node_after l vs) s s'"
  shows "tl_repr (set_count l (tl_count s' l - 1) s') l (us @ vs)"
    and "tl_detached (set_count l (tl_count s' l - 1) s') t"
proof -
  let ?a = "node_before l us" and ?b = "node_after l vs"
  obtain xs ys where sp: "tl_nodes l (us @ vs) = xs @ ?a # ?b # ys"
      "tl_nodes l (us @ t # vs) = xs @ ?a # TNode t # ?b # ys"
    by (rule tl_nodes_split [of l us vs]) blast
  have 1: "linked (tl_node s) (xs @ ?a # TNode t # ?b # ys)" and 2: "distinct (xs @ ?a # TNode t # ?b # ys)"
    using r by (simp_all only: tl_repr_def flip: sp(2)) (simp add: distinct_tl_nodes)
  then have "linked (tl_node s') (tl_nodes l (us @ vs))"
    unfolding sp(1) using rem
    by (rule_tac linked_remove [where h = "tl_node s" and c = "TNode t"]) (simp_all add: tl_removed_def)
  moreover have "unat (tl_count s' l - 1) = length us + length vs"
    using r rem by (intro unat_pred) (simp add: tl_repr_def tl_removed_def)
  ultimately show "tl_repr (set_count l (tl_count s' l - 1) s') l (us @ vs)"
    using r rem by (auto simp: tl_repr_def tl_removed_def set_count_def node_before_def node_after_def)
  show "tl_detached (set_count l (tl_count s' l - 1) s') t"
    using r rem 2 by (auto simp: tl_repr_def tl_detached_def tl_removed_def set_count_def)
qed

section \<open>All lists of the kernel\<close>

text \<open>
  The lists \<open>L\<close> hold the sequences \<open>q\<close>, no thread is on two lists, and the threads \<open>D\<close> are on none.
\<close>

definition tl_abs :: "tlstore \<Rightarrow> listid set \<Rightarrow> (listid \<Rightarrow> tid list) \<Rightarrow> tid set \<Rightarrow> bool" where
  "tl_abs s L q D \<longleftrightarrow>
     (\<forall>l \<in> L. tl_repr s l (q l)) \<and>
     (\<forall>l \<in> L. \<forall>l' \<in> L. l \<noteq> l' \<longrightarrow> set (q l) \<inter> set (q l') = {}) \<and>
     (\<forall>t \<in> D. tl_detached s t \<and> (\<forall>l \<in> L. t \<notin> set (q l)))"

lemma tl_absD:
  assumes "tl_abs s L q D"
  shows "l \<in> L \<Longrightarrow> tl_repr s l (q l)"
    and "l \<in> L \<Longrightarrow> l' \<in> L \<Longrightarrow> l \<noteq> l' \<Longrightarrow> t \<in> set (q l) \<Longrightarrow> t \<notin> set (q l')"
    and "t \<in> D \<Longrightarrow> tl_detached s t"
    and "t \<in> D \<Longrightarrow> l \<in> L \<Longrightarrow> t \<notin> set (q l)"
  using assms unfolding tl_abs_def by blast+

lemma tl_repr_distinct: "tl_repr s l ts \<Longrightarrow> distinct ts"
  by (simp add: tl_repr_def)

lemma tl_repr_isempty: "tl_repr s l ts \<Longrightarrow> threadlist_isempty l s \<longleftrightarrow> ts = []"
  by (simp add: tl_repr_def threadlist_isempty_def flip: unat_eq_zero length_0_conv)

lemma node_before_in: "node_before l us \<in> set (tl_nodes l (us @ vs))"
  by (simp add: node_before_def set_tl_nodes)

lemma node_after_in: "node_after l vs \<in> set (tl_nodes l (us @ vs))"
  by (simp add: node_after_def set_tl_nodes)

lemma tl_nodes_disjoint:
  "l \<noteq> l' \<Longrightarrow> set ts \<inter> set ts' = {} \<Longrightarrow> set (tl_nodes l ts) \<inter> set (tl_nodes l' ts') = {}"
  by (auto simp: set_tl_nodes)

text \<open>
  A step on list \<open>l\<close> that changes only the neighbours of a position of \<open>l\<close> and the node of one thread
  \<open>t\<close> leaves every other list and every other detached thread alone.
\<close>

lemma tl_abs_step:
  assumes abs: "tl_abs s L q D" and l: "l \<in> L" and ql: "set (us @ vs) \<subseteq> set (q l)"
    and t: "\<And>l'. l' \<in> L \<Longrightarrow> l' \<noteq> l \<Longrightarrow> t \<notin> set (q l')"
    and same: "\<And>p. p \<noteq> node_before l us \<Longrightarrow> p \<noteq> TNode t \<Longrightarrow> p \<noteq> node_after l vs \<Longrightarrow> tl_node s' p = tl_node s p"
    and cnt: "\<And>l'. l' \<noteq> l \<Longrightarrow> tl_count s' l' = tl_count s l'"
    and new: "tl_repr s' l ts" "set ts \<subseteq> insert t (set (q l))"
    and D': "\<And>x. x \<in> D' \<Longrightarrow> x \<notin> set ts" "\<And>x. x \<in> D' \<Longrightarrow> x \<noteq> t \<Longrightarrow> x \<in> D" "t \<in> D' \<Longrightarrow> tl_detached s' t"
  shows "tl_abs s' L (q(l := ts)) D'"
proof -
  have other: "tl_repr s' l' (q l')" if l': "l' \<in> L" "l' \<noteq> l" for l'
  proof (rule tl_repr_frame [OF tl_absD(1) [OF abs l'(1)]])
    fix p assume p: "p \<in> set (tl_nodes l' (q l'))"
    have "p \<notin> set (tl_nodes l (us @ vs))"
      using tl_nodes_disjoint [OF l'(2)] tl_absD(2) [OF abs l' (1) l l'(2)] ql p by blast
    moreover have "p \<noteq> TNode t" using t [OF l'] p by (auto simp: set_tl_nodes)
    ultimately show "tl_node s' p = tl_node s p"
      using node_before_in [of l us vs] node_after_in [of l vs us] by (intro same) auto
  qed (use cnt l' in simp)
  have det: "tl_detached s' x" if x: "x \<in> D'" for x
  proof (cases "x = t")
    case False
    then have "x \<in> D" using D'(2) x by blast
    then have "x \<notin> set (us @ vs)" using tl_absD(4) [OF abs _ l] ql by blast
    then have "TNode x \<notin> set (tl_nodes l (us @ vs))" by (auto simp: set_tl_nodes)
    then have "tl_node s' (TNode x) = tl_node s (TNode x)"
      using False node_before_in [of l us vs] node_after_in [of l vs us] by (intro same) auto
    then show ?thesis using tl_absD(3) [OF abs \<open>x \<in> D\<close>] by (simp add: tl_detached_def)
  qed (use D'(3) x in blast)
  have "set ts \<inter> set (q l') = {}" if "l' \<in> L" "l' \<noteq> l" for l'
    using tl_absD(2) [OF abs l that(1)] that t [OF that] new(2) by blast
  then have disj: "set ((q(l := ts)) l1) \<inter> set ((q(l := ts)) l2) = {}" if "l1 \<in> L" "l2 \<in> L" "l1 \<noteq> l2" for l1 l2
    using tl_absD(2) [OF abs that(1,2,3)] that by (cases "l1 = l"; cases "l2 = l") (simp_all, blast+)
  have free: "x \<notin> set ((q(l := ts)) l1)" if "x \<in> D'" "l1 \<in> L" for x l1
    using D'(1,2) [OF that(1)] tl_absD(4) [OF abs _ that(2)] t [OF that(2)] by (cases "l1 = l") auto
  show ?thesis
    unfolding tl_abs_def using other new(1) disj free det by (metis fun_upd_apply)
qed

lemma tl_abs_inserted:
  assumes abs: "tl_abs s L q D" and l: "l \<in> L" and ql: "q l = us @ vs" and t: "t \<in> D"
    and room: "Suc (length (q l)) < 2 ^ 32"
    and ins: "tl_inserted (node_before l us) (TNode t) (node_after l vs) s s'"
  shows "tl_abs (set_count l (tl_count s' l + 1) s') L (q(l := us @ t # vs)) (D - {t})"
proof (rule tl_abs_step [OF abs l, where us = us and vs = vs and t = t])
  have r: "tl_repr s l (us @ vs)" using tl_absD(1) [OF abs l] ql by simp
  have "tln_self (tl_node s (TNode t)) = Some t"
    using tl_absD(3) [OF abs t] by (simp add: tl_detached_def)
  moreover have "t \<notin> set us \<union> set vs" using tl_absD(4) [OF abs t l] ql by simp
  ultimately show "tl_repr (set_count l (tl_count s' l + 1) s') l (us @ t # vs)"
    using room ql by (intro tl_repr_inserted [OF r _ _ _ ins]) simp_all
  show "x \<notin> set (us @ t # vs)" if "x \<in> D - {t}" for x
    using that tl_absD(4) [OF abs _ l, of x] ql by simp
qed (use ql tl_absD(4) [OF abs] l t ins in \<open>auto simp: tl_inserted_def set_count_def\<close>)

lemma tl_abs_removed:
  assumes abs: "tl_abs s L q D" and l: "l \<in> L" and ql: "q l = us @ t # vs"
    and rem: "tl_removed (node_before l us) (TNode t) (node_after l vs) s s'"
  shows "tl_abs (set_count l (tl_count s' l - 1) s') L (q(l := us @ vs)) (insert t D)"
proof (rule tl_abs_step [OF abs l, where us = us and vs = vs and t = t])
  have r: "tl_repr s l (us @ t # vs)" using tl_absD(1) [OF abs l] ql by simp
  show "tl_repr (set_count l (tl_count s' l - 1) s') l (us @ vs)"
    and "tl_detached (set_count l (tl_count s' l - 1) s') t"
    using tl_repr_removed [OF r rem] by simp_all
  show "x \<notin> set (us @ vs)" if "x \<in> insert t D" for x
    using that tl_repr_distinct [OF r] tl_absD(4) [OF abs _ l] ql by auto
qed (use ql l rem tl_absD(2) [OF abs l] in \<open>auto simp: tl_removed_def set_count_def\<close>)

text \<open>The operations.\<close>

lemma node_not_new:
  assumes "tl_abs s L q D" "l \<in> L" "t \<in> D"
  shows "q l = us @ vs \<Longrightarrow> node_before l us \<noteq> TNode t" "q l = us @ vs \<Longrightarrow> node_after l vs \<noteq> TNode t"
  using tl_absD(4) [OF assms(1,3,2)] by (auto simp: node_before_def node_after_def)

lemma insertafternode_abs:
  assumes abs: "tl_abs s L q D" and l: "l \<in> L" and t: "t \<in> D" and ql: "q l = us @ vs"
    and room: "Suc (length (q l)) < 2 ^ 32"
  shows "\<exists>s'. bnd (threadlist_insertafternode (node_before l us) t s)
                (\<lambda>s. Done (set_count l (tl_count s l + 1) s)) = Done s'
           \<and> tl_abs s' L (q(l := us @ t # vs)) (D - {t})"
proof -
  have r: "tl_repr s l (us @ vs)" using tl_absD(1) [OF abs l] ql by simp
  obtain s' where "threadlist_insertafternode (node_before l us) t s = Done s'"
      "tl_inserted (node_before l us) (TNode t) (node_after l vs) s s'"
    using insertafternode_inserts [OF tl_repr_neighbours(1,3) [OF r] node_not_new [OF abs l t ql]] by blast
  then show ?thesis using tl_abs_inserted [OF abs l ql t room] by simp
qed

lemma insertbeforenode_abs:
  assumes abs: "tl_abs s L q D" and l: "l \<in> L" and t: "t \<in> D" and ql: "q l = us @ vs"
    and room: "Suc (length (q l)) < 2 ^ 32"
  shows "\<exists>s'. bnd (threadlist_insertbeforenode t (node_after l vs) s)
                (\<lambda>s. Done (set_count l (tl_count s l + 1) s)) = Done s'
           \<and> tl_abs s' L (q(l := us @ t # vs)) (D - {t})"
proof -
  have r: "tl_repr s l (us @ vs)" using tl_absD(1) [OF abs l] ql by simp
  obtain s' where "threadlist_insertbeforenode t (node_after l vs) s = Done s'"
      "tl_inserted (node_before l us) (TNode t) (node_after l vs) s s'"
    using insertbeforenode_inserts [OF tl_repr_neighbours(2,3) [OF r] node_not_new [OF abs l t ql]] by blast
  then show ?thesis using tl_abs_inserted [OF abs l ql t room] by simp
qed

lemma removenode_abs:
  assumes abs: "tl_abs s L q D" and l: "l \<in> L" and ql: "q l = us @ t # vs"
  shows "\<exists>s'. threadlist_removenode (TNode t) s = Done s' \<and> tln_self (tl_node s' (TNode t)) = Some t
           \<and> tl_abs (set_count l (tl_count s' l - 1) s') L (q(l := us @ vs)) (insert t D)"
proof -
  let ?a = "node_before l us" and ?b = "node_after l vs"
  have r: "tl_repr s l (us @ t # vs)" using tl_absD(1) [OF abs l] ql by simp
  have "node_after l (t # vs) = TNode t" "node_before l (us @ [t]) = TNode t"
    by (simp_all add: node_after_def node_before_def)
  then have pn: "tln_prev (tl_node s (TNode t)) = Some ?a" "tln_next (tl_node s (TNode t)) = Some ?b"
    "?a \<noteq> TNode t" "?b \<noteq> TNode t"
    using tl_repr_neighbours [of s l us "t # vs"] tl_repr_neighbours [of s l "us @ [t]" vs] r by auto
  have "?a \<noteq> ?b"
    using tl_repr_distinct [OF r] by (cases us rule: rev_cases; cases vs) (auto simp: node_before_def node_after_def)
  then obtain s' where s': "threadlist_removenode (TNode t) s = Done s'" "tl_removed ?a (TNode t) ?b s s'"
    using removenode_removes [OF pn(1,2) _ pn(3,4)] by blast
  moreover have "tln_self (tl_node s' (TNode t)) = Some t"
    using s'(2) r by (simp add: tl_removed_def tl_repr_def)
  ultimately show ?thesis using tl_abs_removed [OF abs l ql s'(2)] by blast
qed

section \<open>The contract of the lists\<close>

text \<open>
  What the scheduler and the wait channels rely on: the lists are sequences, a thread that is added goes
  to the end (or the front), and the thread that is taken off was there.
\<close>

locale thread_lists =
  fixes abs :: "'s \<Rightarrow> listid set \<Rightarrow> (listid \<Rightarrow> tid list) \<Rightarrow> tid set \<Rightarrow> bool"
    and isempty :: "listid \<Rightarrow> 's \<Rightarrow> bool"
    and addhead addtail :: "listid \<Rightarrow> tid \<Rightarrow> 's \<Rightarrow> 's outcome"
    and remhead remtail :: "listid \<Rightarrow> 's \<Rightarrow> (tid option \<times> 's) outcome"
  assumes isempty_abs: "abs s L q D \<Longrightarrow> l \<in> L \<Longrightarrow> isempty l s \<longleftrightarrow> q l = []"
    and addhead_abs: "abs s L q D \<Longrightarrow> l \<in> L \<Longrightarrow> t \<in> D \<Longrightarrow> Suc (length (q l)) < 2 ^ 32 \<Longrightarrow>
      \<exists>s'. addhead l t s = Done s' \<and> abs s' L (q(l := t # q l)) (D - {t})"
    and addtail_abs: "abs s L q D \<Longrightarrow> l \<in> L \<Longrightarrow> t \<in> D \<Longrightarrow> Suc (length (q l)) < 2 ^ 32 \<Longrightarrow>
      \<exists>s'. addtail l t s = Done s' \<and> abs s' L (q(l := q l @ [t])) (D - {t})"
    and remhead_abs: "abs s L q D \<Longrightarrow> l \<in> L \<Longrightarrow>
      (case q l of [] \<Rightarrow> remhead l s = Done (None, s)
       | t # ts \<Rightarrow> \<exists>s'. remhead l s = Done (Some t, s') \<and> abs s' L (q(l := ts)) (insert t D))"
    and remtail_abs: "abs s L q D \<Longrightarrow> l \<in> L \<Longrightarrow>
      (if q l = [] then remtail l s = Done (None, s)
       else \<exists>s'. remtail l s = Done (Some (last (q l)), s')
              \<and> abs s' L (q(l := butlast (q l))) (insert (last (q l)) D))"
begin

text \<open>A queue that is filled at the end and drained at the front is first in, first out.\<close>

lemma fifo:
  assumes "abs s L q D" "l \<in> L" "t \<in> D" "q l = []" "u \<in> D" "t \<noteq> u"
  shows "\<exists>s1 s2 s3. addtail l t s = Done s1 \<and> addtail l u s1 = Done s2 \<and> remhead l s2 = Done (Some t, s3)
           \<and> abs s3 L (q(l := [u])) (D - {u})"
proof -
  obtain s1 where s1: "addtail l t s = Done s1" "abs s1 L (q(l := [t])) (D - {t})"
    using addtail_abs [OF assms(1-3)] assms(4) by auto
  obtain s2 where s2: "addtail l u s1 = Done s2" "abs s2 L (q(l := [t, u])) (D - {t} - {u})"
    using addtail_abs [OF s1(2) assms(2), of u] assms(5,6) by auto
  have "insert t (D - {t} - {u}) = D - {u}" using assms(3,6) by blast
  then show ?thesis using remhead_abs [OF s2(2) assms(2)] s1(1) s2(1) by auto
qed

end

lemma threadlist_addhead_abs:
  assumes "tl_abs s L q D" "l \<in> L" "t \<in> D" "Suc (length (q l)) < 2 ^ 32"
  shows "\<exists>s'. threadlist_addhead l t s = Done s' \<and> tl_abs s' L (q(l := t # q l)) (D - {t})"
  using insertafternode_abs [OF assms(1-3), of "[]" "q l"] assms(4)
  by (simp add: threadlist_addhead_def node_before_def)

lemma threadlist_addtail_abs:
  assumes "tl_abs s L q D" "l \<in> L" "t \<in> D" "Suc (length (q l)) < 2 ^ 32"
  shows "\<exists>s'. threadlist_addtail l t s = Done s' \<and> tl_abs s' L (q(l := q l @ [t])) (D - {t})"
  using insertbeforenode_abs [OF assms(1-3), of "q l" "[]"] assms(4)
  by (simp add: threadlist_addtail_def node_after_def)

lemma threadlist_insertafter_abs:
  assumes "tl_abs s L q D" "l \<in> L" "t \<in> D" "q l = us @ x # vs" "Suc (length (q l)) < 2 ^ 32"
  shows "\<exists>s'. threadlist_insertafter l x t s = Done s' \<and> tl_abs s' L (q(l := us @ x # t # vs)) (D - {t})"
  using insertafternode_abs [OF assms(1-3), of "us @ [x]" vs] assms(4,5)
  by (simp add: threadlist_insertafter_def node_before_def)

lemma threadlist_insertbefore_abs:
  assumes "tl_abs s L q D" "l \<in> L" "t \<in> D" "q l = us @ x # vs" "Suc (length (q l)) < 2 ^ 32"
  shows "\<exists>s'. threadlist_insertbefore l t x s = Done s' \<and> tl_abs s' L (q(l := us @ t # x # vs)) (D - {t})"
  using insertbeforenode_abs [OF assms(1-3), of us "x # vs"] assms(4,5)
  by (simp add: threadlist_insertbefore_def node_after_def)

lemma threadlist_remove_abs:
  assumes "tl_abs s L q D" "l \<in> L" "q l = us @ t # vs"
  shows "\<exists>s'. threadlist_remove l t s = Done s' \<and> tl_abs s' L (q(l := us @ vs)) (insert t D)"
  using removenode_abs [OF assms] by (auto simp: threadlist_remove_def)

lemma threadlist_remhead_abs:
  assumes abs: "tl_abs s L q D" and l: "l \<in> L"
  shows "case q l of [] \<Rightarrow> threadlist_remhead l s = Done (None, s)
    | t # ts \<Rightarrow> \<exists>s'. threadlist_remhead l s = Done (Some t, s') \<and> tl_abs s' L (q(l := ts)) (insert t D)"
proof (cases "q l")
  case Nil
  then show ?thesis
    using tl_absD(1) [OF abs l] by (simp add: tl_repr_def threadlist_remhead_def tl_nodes_def)
next
  case (Cons t ts)
  have r: "tl_repr s l (t # ts)" using tl_absD(1) [OF abs l] Cons by simp
  then have "tln_next (tl_node s (Head l)) = Some (TNode t)" "tln_next (tl_node s (TNode t)) \<noteq> None"
    using tl_repr_neighbours(1) [of s l "[t]" ts] by (simp_all add: tl_repr_def tl_nodes_def node_before_def)
  then show ?thesis
    using removenode_abs [OF abs l, of "[]" t ts] Cons
    by (auto simp: threadlist_remhead_def Let_def set_count_def)
qed

lemma threadlist_remtail_abs:
  assumes abs: "tl_abs s L q D" and l: "l \<in> L"
  shows "if q l = [] then threadlist_remtail l s = Done (None, s)
    else \<exists>s'. threadlist_remtail l s = Done (Some (last (q l)), s')
           \<and> tl_abs s' L (q(l := butlast (q l))) (insert (last (q l)) D)"
proof (cases "q l" rule: rev_cases)
  case Nil
  then show ?thesis
    using tl_absD(1) [OF abs l] by (simp add: tl_repr_def threadlist_remtail_def tl_nodes_def)
next
  case (snoc ts t)
  have r: "tl_repr s l (ts @ [t])" using tl_absD(1) [OF abs l] snoc by simp
  have "tln_prev (tl_node s (Tail l)) = Some (TNode t)" "tln_prev (tl_node s (TNode t)) \<noteq> None"
    using tl_repr_neighbours(2) [of s l "ts @ [t]" "[]"] tl_repr_neighbours(2) [of s l ts "[t]"] r
    by (simp_all add: node_before_def node_after_def)
  then show ?thesis
    using removenode_abs [OF abs l, of ts t "[]"] snoc
    by (auto simp: threadlist_remtail_def Let_def set_count_def)
qed

interpretation tls: thread_lists tl_abs threadlist_isempty threadlist_addhead threadlist_addtail
  threadlist_remhead threadlist_remtail
  by unfold_locales
    (simp_all add: tl_repr_isempty [OF tl_absD(1)] threadlist_addhead_abs threadlist_addtail_abs
      threadlist_remhead_abs threadlist_remtail_abs)

text \<open>New lists and new threads.\<close>

lemma threadlist_init_abs:
  assumes abs: "tl_abs s L q D" and l: "l \<notin> L"
  shows "tl_abs (threadlist_init l s) (insert l L) (q(l := [])) D"
proof -
  have same: "tl_node (threadlist_init l s) p = tl_node s p" if "p \<noteq> Head l" "p \<noteq> Tail l" for p
    using that by (simp add: threadlist_init_def node_upd_defs)
  have cnt: "tl_count (threadlist_init l s) l' = tl_count s l'" if "l' \<noteq> l" for l'
    using that by (simp add: threadlist_init_def node_upd_defs)
  have "tl_repr (threadlist_init l s) l []"
    by (simp add: tl_repr_def tl_nodes_def threadlist_init_def node_upd_defs)
  moreover have "tl_repr (threadlist_init l s) l' (q l')" if "l' \<in> L" for l'
    using that l by (intro tl_repr_frame [OF tl_absD(1) [OF abs that]] same cnt) (auto simp: set_tl_nodes)
  ultimately have "\<forall>l' \<in> insert l L. tl_repr (threadlist_init l s) l' ((q(l := [])) l')"
    using l by auto
  moreover have "\<forall>t \<in> D. tl_detached (threadlist_init l s) t"
    using tl_absD(3) [OF abs] by (simp add: tl_detached_def same)
  ultimately show ?thesis
    using abs l unfolding tl_abs_def by auto
qed

lemma threadlistnode_init_abs:
  assumes abs: "tl_abs s L q D" and t: "\<And>l. l \<in> L \<Longrightarrow> t \<notin> set (q l)"
  shows "\<exists>s'. threadlistnode_init (TNode t) (Some t) s = Done s' \<and> tl_abs s' L q (insert t D)"
proof -
  define s' where "s' = set_self (TNode t) (Some t) (set_prev (TNode t) None (set_next (TNode t) None s))"
  have same: "tl_node s' p = tl_node s p" if "p \<noteq> TNode t" for p
    using that by (simp add: s'_def node_upd_defs)
  have "tl_repr s' l (q l)" if "l \<in> L" for l
    using t [OF that] by (intro tl_repr_frame [OF tl_absD(1) [OF abs that]] same)
      (auto simp: set_tl_nodes s'_def node_upd_defs)
  moreover have "tl_detached s' u" if "u \<in> insert t D" for u
    using that tl_absD(3) [OF abs, of u] same [of "TNode u"]
    by (cases "u = t") (auto simp: tl_detached_def s'_def node_upd_defs)
  ultimately have "tl_abs s' L q (insert t D)"
    using abs t unfolding tl_abs_def by blast
  then show ?thesis by (simp add: threadlistnode_init_def s'_def)
qed

text \<open>A store with the empty list 0 and the threads 5 and 6 on no list.\<close>

definition tl_demo :: tlstore where
  "tl_demo = \<lparr>tl_node = (\<lambda>p. case p of
       Head _ \<Rightarrow> \<lparr>tln_prev = None, tln_next = Some (Tail 0), tln_self = None\<rparr>
     | Tail _ \<Rightarrow> \<lparr>tln_prev = Some (Head 0), tln_next = None, tln_self = None\<rparr>
     | TNode t \<Rightarrow> \<lparr>tln_prev = None, tln_next = None, tln_self = Some t\<rparr>),
     tl_count = \<lambda>_. 0\<rparr>"

lemma tl_demo_abs: "tl_abs tl_demo {0} (\<lambda>_. []) {5, 6}"
  by (simp add: tl_abs_def tl_repr_def tl_nodes_def tl_detached_def tl_demo_def)

section \<open>Properties\<close>

text \<open>
  C26: The linked lists implement sequences. When the lists \<open>L\<close> of the store hold the sequences \<open>q\<close> and
  thread \<open>t\<close> is on none of them, \<open>threadlist_addtail\<close> and \<open>threadlist_addhead\<close> succeed and make the list
  hold the sequence with \<open>t\<close> at the end, or at the front, all other lists holding what they held.
\<close>

theorem threadlist_add_refines:
  assumes "tl_abs s L q D" and "l \<in> L" and "t \<in> D" and "Suc (length (q l)) < 2 ^ 32"
  shows "(\<exists>s'. threadlist_addtail l t s = Done s' \<and> tl_abs s' L (q(l := q l @ [t])) (D - {t}))
    \<and> (\<exists>s'. threadlist_addhead l t s = Done s' \<and> tl_abs s' L (q(l := t # q l)) (D - {t}))"
  using tls.addtail_abs [OF assms] tls.addhead_abs [OF assms] by blast

theorem threadlist_add_refines_witness:
  "\<exists>s'. threadlist_addtail 0 5 tl_demo = Done s' \<and> tl_abs s' {0} ((\<lambda>_. [])(0 := [5])) {6}"
proof -
  have "{5, 6} - {5 :: nat} = {6}" by auto
  then show ?thesis
    using threadlist_add_refines [OF tl_demo_abs, of 0 5] by simp
qed

text \<open>
  C27: Taking threads off. \<open>threadlist_remhead\<close> hands back the first and \<open>threadlist_remtail\<close> the last
  thread of the sequence and removes it, or hands back null on an empty list and changes nothing;
  \<open>threadlist_remove\<close> takes out the given thread wherever it stands. The thread that was taken off
  is on no list afterwards.
\<close>

theorem threadlist_rem_refines:
  assumes "tl_abs s L q D" and "l \<in> L"
  shows "(case q l of [] \<Rightarrow> threadlist_remhead l s = Done (None, s)
     | t # ts \<Rightarrow> \<exists>s'. threadlist_remhead l s = Done (Some t, s') \<and> tl_abs s' L (q(l := ts)) (insert t D))
    \<and> (if q l = [] then threadlist_remtail l s = Done (None, s)
       else \<exists>s'. threadlist_remtail l s = Done (Some (last (q l)), s')
              \<and> tl_abs s' L (q(l := butlast (q l))) (insert (last (q l)) D))
    \<and> (\<forall>us t vs. q l = us @ t # vs \<longrightarrow>
         (\<exists>s'. threadlist_remove l t s = Done s' \<and> tl_abs s' L (q(l := us @ vs)) (insert t D)))"
  using tls.remhead_abs [OF assms] tls.remtail_abs [OF assms] threadlist_remove_abs [OF assms] by blast

theorem threadlist_rem_refines_witness:
  "threadlist_remhead 0 tl_demo = Done (None, tl_demo)"
  using threadlist_rem_refines [OF tl_demo_abs, of 0] by simp

text \<open>
  A list that is filled at the end and drained at the front is first in, first out: after
  \<open>threadlist_addtail\<close> of \<open>t\<close> and then of \<open>u\<close> to an empty list, \<open>threadlist_remhead\<close> hands back \<open>t\<close>.
\<close>

theorem threadlist_fifo:
  assumes "tl_abs s L q D" "l \<in> L" "t \<in> D" "q l = []" "u \<in> D" "t \<noteq> u"
  shows "\<exists>s1 s2 s3. threadlist_addtail l t s = Done s1 \<and> threadlist_addtail l u s1 = Done s2
    \<and> threadlist_remhead l s2 = Done (Some t, s3) \<and> tl_abs s3 L (q(l := [u])) (D - {u})"
  by (rule tls.fifo [OF assms])

theorem threadlist_fifo_witness:
  "\<exists>s1 s2 s3. threadlist_addtail 0 5 tl_demo = Done s1 \<and> threadlist_addtail 0 6 s1 = Done s2
    \<and> threadlist_remhead 0 s2 = Done (Some 5, s3)"
  using threadlist_fifo [OF tl_demo_abs, of 0 5 6] by auto

end
