(* ===== verification/Kern_Klib.thy ===== *)
theory Kern_Klib
  imports Kern_Prelude
begin

text \<open>
  Small helpers of the kernel library: byte order (\<^verbatim>\<open>kern/lib/bswap.c\<close>, on the big-endian MIPS) and
  times (\<^verbatim>\<open>kern/lib/time.c\<close>).
\<close>

unbundle bit_operations_syntax

section \<open>Byte order\<close>

definition bswap16 :: "u16 \<Rightarrow> u16" where
  "bswap16 val = push_bit 8 (val AND 0x00ff) OR drop_bit 8 (val AND 0xff00)"

definition bswap32 :: "u32 \<Rightarrow> u32" where
  "bswap32 val =
     push_bit 24 (val AND 0x000000ff) OR push_bit 8 (val AND 0x0000ff00) OR
     drop_bit 8 (val AND 0x00ff0000) OR drop_bit 24 (val AND 0xff000000)"

definition bswap64 :: "u64 \<Rightarrow> u64" where
  "bswap64 val =
     push_bit 56 (val AND 0x00000000000000ff) OR push_bit 40 (val AND 0x000000000000ff00) OR
     push_bit 24 (val AND 0x0000000000ff0000) OR push_bit 8 (val AND 0x00000000ff000000) OR
     push_bit 8 (val AND 0x000000ff00000000) OR push_bit 24 (val AND 0x0000ff0000000000) OR
     drop_bit 40 (val AND 0x00ff000000000000) OR drop_bit 56 (val AND 0xff00000000000000)"

definition ntohs :: "u16 \<Rightarrow> u16" where "ntohs val = val"
definition htons :: "u16 \<Rightarrow> u16" where "htons val = val"
definition ntohl :: "u32 \<Rightarrow> u32" where "ntohl val = val"
definition htonl :: "u32 \<Rightarrow> u32" where "htonl val = val"
definition ntohll :: "u64 \<Rightarrow> u64" where "ntohll val = val"
definition htonll :: "u64 \<Rightarrow> u64" where "htonll val = val"

definition join32to64 :: "u32 \<Rightarrow> u32 \<Rightarrow> u64" where
  "join32to64 x1 x2 = push_bit 32 (ucast x1) OR ucast x2"

definition split64to32 :: "u64 \<Rightarrow> u32 \<times> u32" where
  "split64to32 x = (ucast (drop_bit 32 x), ucast (x AND 0xffffffff))"

section \<open>Times\<close>

text \<open>\<open>tv_sec\<close> is 64 bits wide and is taken as an integer; \<open>tv_nsec\<close> is a signed 32-bit number.\<close>

record timespec =
  tv_sec :: int
  tv_nsec :: int

definition timespec_add :: "timespec \<Rightarrow> timespec \<Rightarrow> timespec" where
  "timespec_add ts1 ts2 =
     (let ret = \<lparr>tv_sec = tv_sec ts1 + tv_sec ts2, tv_nsec = tv_nsec ts1 + tv_nsec ts2\<rparr>
      in if tv_nsec ret \<ge> 1000000000
         then \<lparr>tv_sec = tv_sec ret + 1, tv_nsec = tv_nsec ret - 1000000000\<rparr> else ret)"

definition timespec_sub :: "timespec \<Rightarrow> timespec \<Rightarrow> timespec" where
  "timespec_sub ts1 ts2 =
     (let r = (if tv_nsec ts1 < tv_nsec ts2
               then ts1\<lparr>tv_nsec := tv_nsec ts1 + 1000000000, tv_sec := tv_sec ts1 - 1\<rparr> else ts1)
      in r\<lparr>tv_nsec := tv_nsec r - tv_nsec ts2, tv_sec := tv_sec r - tv_sec ts2\<rparr>)"

definition timespec_ok :: "timespec \<Rightarrow> bool" where
  "timespec_ok ts \<longleftrightarrow> 0 \<le> tv_nsec ts \<and> tv_nsec ts < 1000000000"

definition timespec_ns :: "timespec \<Rightarrow> int" where
  "timespec_ns ts = tv_sec ts * 1000000000 + tv_nsec ts"

lemma timespec_add_ok:
  assumes "timespec_ok a" "timespec_ok b"
  shows "timespec_ok (timespec_add a b)" "timespec_ns (timespec_add a b) = timespec_ns a + timespec_ns b"
  using assms by (auto simp: timespec_ok_def timespec_ns_def timespec_add_def Let_def)

lemma timespec_sub_ok:
  assumes "timespec_ok a" "timespec_ok b"
  shows "timespec_ok (timespec_sub a b)" "timespec_ns (timespec_sub a b) = timespec_ns a - timespec_ns b"
  using assms by (auto simp: timespec_ok_def timespec_ns_def timespec_sub_def Let_def)

section \<open>Bytes of a word\<close>

definition byte_at :: "nat \<Rightarrow> 'a :: len word" where
  "byte_at k = push_bit (8 * k) (mask 8)"

lemma byte_at_bit: "bit (byte_at k :: 'a :: len word) n \<longleftrightarrow> 8 * k \<le> n \<and> n < 8 * k + 8 \<and> n < LENGTH('a)"
  by (auto simp: byte_at_def bit_push_bit_iff bit_mask_iff possible_bit_word)

lemma byte_masks16: "(0x00ff :: u16) = byte_at 0" "(0xff00 :: u16) = byte_at 1"
  by (simp_all add: byte_at_def mask_eq_exp_minus_1)

lemma byte_masks32:
  "(0xff :: u32) = byte_at 0" "(0xff00 :: u32) = byte_at 1" "(0xff0000 :: u32) = byte_at 2"
  "(0xff000000 :: u32) = byte_at 3"
  by (simp_all add: byte_at_def mask_eq_exp_minus_1)

lemmas byte_bits = bit_or_iff bit_and_iff bit_push_bit_iff bit_drop_bit_eq byte_at_bit possible_bit_word

lemma bswap16_bit: "bit (bswap16 x) n \<longleftrightarrow> (if n < 8 then bit x (8 + n) else n < 16 \<and> bit x (n - 8))"
  unfolding bswap16_def byte_masks16
  by (auto simp: byte_bits dest: bit_imp_le_length)

lemma bswap32_bit:
  "bit (bswap32 x) n \<longleftrightarrow>
     (if n < 8 then bit x (24 + n) else if n < 16 then bit x (8 + n)
      else if n < 24 then bit x (n - 8) else n < 32 \<and> bit x (n - 24))"
  unfolding bswap32_def byte_masks32
  by (auto simp: byte_bits dest: bit_imp_le_length)

lemma bswap16_twice: "bswap16 (bswap16 x) = x"
  by (rule bit_word_eqI) (auto simp: bswap16_bit)

lemma bswap32_twice: "bswap32 (bswap32 x) = x"
  by (rule bit_word_eqI) (auto simp: bswap32_bit)

lemma join_split: "split64to32 (join32to64 a b) = (a, b)"
proof -
  have m: "(0xffffffff :: u64) = mask 32" by (simp add: mask_eq_exp_minus_1)
  have "ucast (drop_bit 32 (join32to64 a b)) = a"
    by (rule bit_word_eqI) (auto simp: join32to64_def bit_simps dest: bit_imp_le_length)
  moreover have "ucast (join32to64 a b AND mask 32) = b"
    by (rule bit_word_eqI) (auto simp: join32to64_def bit_simps dest: bit_imp_le_length)
  ultimately show ?thesis unfolding split64to32_def m by simp
qed

lemma split_join: "(case split64to32 x of (a, b) \<Rightarrow> join32to64 a b) = x"
proof -
  have m: "(0xffffffff :: u64) = mask 32" by (simp add: mask_eq_exp_minus_1)
  show ?thesis
    unfolding split64to32_def m join32to64_def
    by (rule bit_word_eqI) (auto simp: bit_simps)
qed

text \<open>Byte by byte.\<close>

lemma bswap16_byte:
  assumes "i < 16"
  shows "bit (bswap16 x) i = bit x (8 * (1 - i div 8) + i mod 8)"
proof -
  consider "i < 8" | "8 \<le> i" "i < 16" using assms by linarith
  then show ?thesis
  proof cases
    case 2
    then show ?thesis using div_mod_block [of 8 1 i] by (simp add: bswap16_bit)
  qed (simp add: bswap16_bit)
qed

lemma bswap32_byte:
  assumes "i < 32"
  shows "bit (bswap32 x) i = bit x (8 * (3 - i div 8) + i mod 8)"
proof -
  consider "i < 8" | "8 \<le> i" "i < 16" | "16 \<le> i" "i < 24" | "24 \<le> i" "i < 32" using assms by linarith
  then show ?thesis
  proof cases
    case 2
    then have "16 + (i - 8) = 8 + i" by simp
    then show ?thesis using 2 div_mod_block [of 8 1 i] by (simp add: bswap32_bit)
  next
    case 3
    then have "8 + (i - 16) = i - 8" by simp
    then show ?thesis using 3 div_mod_block [of 8 2 i] by (simp add: bswap32_bit)
  next
    case 4
    then show ?thesis using div_mod_block [of 8 3 i] by (simp add: bswap32_bit)
  qed (simp add: bswap32_bit)
qed

section \<open>Properties\<close>

text \<open>
  C40: \<open>bswap16\<close> and \<open>bswap32\<close> reverse the bytes of a word: byte \<open>i\<close> of the result is byte \<open>n - 1 - i\<close> of
  the argument, and swapping twice gives back the argument.
\<close>

theorem bswap_reverses:
  "(\<forall>i < 16. bit (bswap16 x) i = bit x (8 * (1 - i div 8) + i mod 8)) \<and> bswap16 (bswap16 x) = x
   \<and> (\<forall>i < 32. bit (bswap32 y) i = bit y (8 * (3 - i div 8) + i mod 8)) \<and> bswap32 (bswap32 y) = y"
  by (simp add: bswap16_byte bswap32_byte bswap16_twice bswap32_twice)

theorem bswap_reverses_witness:
  "bit (bswap16 1) 8 = bit (1 :: u16) 0 \<and> bswap32 (bswap32 0x12345678) = 0x12345678"
  using spec [OF conjunct1 [OF bswap_reverses [of 1 "0x12345678"]], of 8] bswap_reverses [of 1 "0x12345678"]
  by simp

text \<open>
  \<open>bswap64\<close> does not swap: bytes 4 and 5 are shifted left where they must be shifted right, so the
  byte at position 4 lands on position 5 instead of position 3, and swapping twice does not give back
  the argument.
\<close>

theorem bswap64_wrong:
  "bswap64 0x0000000100000000 = 0x0000010000000000 \<and> bswap64 (bswap64 0x0000000100000000) \<noteq> 0x0000000100000000"
  by (simp add: bswap64_def)

text \<open>
  \<open>join32to64\<close> and \<open>split64to32\<close> are inverse to each other in both directions.
\<close>

theorem join_split_inverse:
  "split64to32 (join32to64 a b) = (a, b) \<and> (case split64to32 x of (a, b) \<Rightarrow> join32to64 a b) = x"
  by (simp only: join_split split_join simp_thms)

text \<open>
  \<open>timespec_add\<close> and \<open>timespec_sub\<close> on normalised times give normalised times whose value in
  nanoseconds is the sum and the difference.
\<close>

theorem timespec_arith:
  assumes "timespec_ok a" and "timespec_ok b"
  shows "timespec_ok (timespec_add a b) \<and> timespec_ns (timespec_add a b) = timespec_ns a + timespec_ns b
    \<and> timespec_ok (timespec_sub a b) \<and> timespec_ns (timespec_sub a b) = timespec_ns a - timespec_ns b"
  using timespec_add_ok [OF assms] timespec_sub_ok [OF assms] by blast

theorem timespec_arith_witness:
  "timespec_ns (timespec_add \<lparr>tv_sec = 1, tv_nsec = 999999999\<rparr> \<lparr>tv_sec = 2, tv_nsec = 3\<rparr>) = 4000000002"
  using timespec_arith [of "\<lparr>tv_sec = 1, tv_nsec = 999999999\<rparr>" "\<lparr>tv_sec = 2, tv_nsec = 3\<rparr>"]
  by (simp add: timespec_ok_def timespec_ns_def)

end
