(* ===== verification/Kern_Mem.thy ===== *)
theory Kern_Mem
  imports Kern_Prelude
begin

text \<open>
  Memory as the kernel sees it, and the functions that copy between kernel and user memory
  (\<^verbatim>\<open>kern/vm/copyinout.c\<close>).

  The memory of the machine is a byte for every 32-bit address. A user address can be readable or
  writable in the address space in context; touching one that is not is a fatal fault, which the trap
  code turns into a jump to \<open>copyfail\<close> when \<open>tm_badfaultfunc\<close> is set, and into a panic when it is not.
  A copy that faults has already copied the bytes before the fault. Kernel buffers are lists of bytes:
  the destination of \<open>copyin\<close> is given back as the bytes that were stored in it.
\<close>

unbundle bit_operations_syntax

record umem =
  um_byte :: "u32 \<Rightarrow> u8"
  um_rd :: "u32 \<Rightarrow> bool"
  um_wr :: "u32 \<Rightarrow> bool"
  um_as :: "nat option"
  tm_badfaultfunc :: bool

definition USERSPACETOP :: u32 where
  "USERSPACETOP = 0x80000000"

section \<open>Faulting copies\<close>

text \<open>
  \<open>memcpy\<close> from and to user memory, byte after byte: the flag says whether it ran to the end, the rest
  is what was copied. Without \<open>tm_badfaultfunc\<close> the fault is a kernel panic.
\<close>

primrec user_read :: "umem \<Rightarrow> u32 \<Rightarrow> nat \<Rightarrow> (bool \<times> u8 list) outcome" where
  "user_read m a 0 = Done (True, [])"
| "user_read m a (Suc n) =
     (if um_rd m a
      then bnd (user_read m (a + 1) n) (\<lambda>(ok, bs). Done (ok, um_byte m a # bs))
      else if tm_badfaultfunc m then Done (False, []) else Panic)"

primrec user_write :: "u8 list \<Rightarrow> u32 \<Rightarrow> umem \<Rightarrow> (bool \<times> umem) outcome" where
  "user_write [] a m = Done (True, m)"
| "user_write (b # bs) a m =
     (if um_wr m a then user_write bs (a + 1) (m\<lparr>um_byte := (um_byte m)(a := b)\<rparr>)
      else if tm_badfaultfunc m then Done (False, m) else Panic)"

section \<open>The code\<close>

definition copycheck :: "u32 \<Rightarrow> u32 \<Rightarrow> errno \<times> u32" where
  "copycheck userptr len =
     (let stoplen = len;
          bot = userptr;
          top = bot + len - 1
      in if top < bot then (EFAULT, stoplen)
         else if bot \<ge> USERSPACETOP then (EFAULT, stoplen)
         else if top \<ge> USERSPACETOP then (EOK, USERSPACETOP - bot)
         else (EOK, stoplen))"

definition copyin :: "umem \<Rightarrow> u32 \<Rightarrow> u32 \<Rightarrow> (errno \<times> u8 list \<times> umem) outcome" where
  "copyin m usersrc len =
     (let (result, stoplen) = copycheck usersrc len
      in if result \<noteq> EOK then Done (result, [], m)
         else if stoplen \<noteq> len then Done (EFAULT, [], m)
         else let m = m\<lparr>tm_badfaultfunc := True\<rparr>
              in bnd (user_read m usersrc (unat len)) (\<lambda>(ok, bs).
                 if ok then Done (EOK, bs, m\<lparr>tm_badfaultfunc := False\<rparr>)
                 else Done (EFAULT, bs, m\<lparr>tm_badfaultfunc := False\<rparr>)))"

text \<open>The source is a kernel buffer of at least \<open>len\<close> bytes.\<close>

definition copyout :: "u8 list \<Rightarrow> u32 \<Rightarrow> u32 \<Rightarrow> umem \<Rightarrow> (errno \<times> umem) outcome" where
  "copyout src userdest len m =
     (let (result, stoplen) = copycheck userdest len
      in if result \<noteq> EOK then Done (result, m)
         else if stoplen \<noteq> len then Done (EFAULT, m)
         else if length src < unat len then Fault
         else let m = m\<lparr>tm_badfaultfunc := True\<rparr>
              in bnd (user_write (take (unat len) src) userdest m) (\<lambda>(ok, m).
                 if ok then Done (EOK, m\<lparr>tm_badfaultfunc := False\<rparr>)
                 else Done (EFAULT, m\<lparr>tm_badfaultfunc := False\<rparr>)))"

text \<open>
  \<open>copystr\<close> reads \<open>src[i]\<close> through \<open>get\<close> and stores it through \<open>put\<close>; either may run into a bad user
  address (\<open>None\<close>), and then \<open>copyfail\<close> makes the caller return \<open>EFAULT\<close>. The result is the code, the
  length that was found, and the destination.
\<close>

function copystr_from ::
  "(nat \<Rightarrow> u8 option outcome) \<Rightarrow> (nat \<Rightarrow> u8 \<Rightarrow> 'd \<Rightarrow> 'd option outcome) \<Rightarrow> nat \<Rightarrow> nat \<Rightarrow> nat \<Rightarrow> 'd
     \<Rightarrow> (errno \<times> nat option \<times> 'd) outcome" where
  "copystr_from get put maxlen stoplen i dest =
     (if i < maxlen \<and> i < stoplen
      then bnd (get i) (\<lambda>c. case c of
             None \<Rightarrow> Done (EFAULT, None, dest)
           | Some c \<Rightarrow> bnd (put i c dest) (\<lambda>d. case d of
               None \<Rightarrow> Done (EFAULT, None, dest)
             | Some dest \<Rightarrow>
                 if c = 0 then Done (EOK, Some (i + 1), dest)
                 else copystr_from get put maxlen stoplen (Suc i) dest))
      else if stoplen < maxlen then Done (EFAULT, None, dest)
      else Done (ENAMETOOLONG, None, dest))"
  by pat_completeness auto
termination
  by (relation "measure (\<lambda>(get, put, maxlen, stoplen, i, dest). maxlen - i)") auto

declare copystr_from.simps [simp del]

definition user_get :: "umem \<Rightarrow> u32 \<Rightarrow> nat \<Rightarrow> u8 option outcome" where
  "user_get m a i =
     (let p = a + of_nat i in
      if um_rd m p then Done (Some (um_byte m p)) else if tm_badfaultfunc m then Done None else Panic)"

definition user_put :: "u32 \<Rightarrow> nat \<Rightarrow> u8 \<Rightarrow> umem \<Rightarrow> umem option outcome" where
  "user_put a i c m =
     (let p = a + of_nat i in
      if um_wr m p then Done (Some (m\<lparr>um_byte := (um_byte m)(p := c)\<rparr>))
      else if tm_badfaultfunc m then Done None else Panic)"

text \<open>The destination of \<open>copyinstr\<close> is a kernel buffer of at least \<open>len\<close> bytes: what was stored in it.\<close>

definition copyinstr :: "umem \<Rightarrow> u32 \<Rightarrow> u32 \<Rightarrow> (errno \<times> nat option \<times> u8 list \<times> umem) outcome" where
  "copyinstr m usersrc len =
     (let (result, stoplen) = copycheck usersrc len
      in if result \<noteq> EOK then Done (result, None, [], m)
         else let m = m\<lparr>tm_badfaultfunc := True\<rparr>
              in bnd (copystr_from (user_get m usersrc) (\<lambda>i c dest. Done (Some (dest @ [c])))
                        (unat len) (unat stoplen) 0 [])
                   (\<lambda>(result, actual, dest). Done (result, actual, dest, m\<lparr>tm_badfaultfunc := False\<rparr>)))"

definition copyoutstr :: "u8 list \<Rightarrow> u32 \<Rightarrow> u32 \<Rightarrow> umem \<Rightarrow> (errno \<times> nat option \<times> umem) outcome" where
  "copyoutstr src userdest len m =
     (let (result, stoplen) = copycheck userdest len
      in if result \<noteq> EOK then Done (result, None, m)
         else let m = m\<lparr>tm_badfaultfunc := True\<rparr>
              in bnd (copystr_from (\<lambda>i. bnd (arr_get src i) (\<lambda>c. Done (Some c))) (user_put userdest)
                        (unat len) (unat stoplen) 0 m)
                   (\<lambda>(result, actual, m). Done (result, actual, m\<lparr>tm_badfaultfunc := False\<rparr>)))"

text \<open>32-bit words in memory: the machine is big-endian.\<close>

fun be_words :: "u8 list \<Rightarrow> u32 list" where
  "be_words (a # b # c # d # bs) =
     (push_bit 24 (ucast a) OR push_bit 16 (ucast b) OR push_bit 8 (ucast c) OR ucast d) # be_words bs"
| "be_words _ = []"

definition be_bytes :: "u32 list \<Rightarrow> u8 list" where
  "be_bytes ws = concat (map (\<lambda>w. [ucast (drop_bit 24 w), ucast (drop_bit 16 w), ucast (drop_bit 8 w), ucast w]) ws)"

text \<open>A memory that is all zero, with every address readable and writable.\<close>

definition flat_mem :: umem where
  "flat_mem = \<lparr>um_byte = \<lambda>_. 0, um_rd = \<lambda>_. True, um_wr = \<lambda>_. True, um_as = Some 1, tm_badfaultfunc = False\<rparr>"

section \<open>Words and bytes\<close>

lemma be_word_bytes:
  fixes w :: u32
  shows "push_bit 24 (ucast (ucast (drop_bit 24 w) :: u8)) OR push_bit 16 (ucast (ucast (drop_bit 16 w) :: u8))
   OR push_bit 8 (ucast (ucast (drop_bit 8 w) :: u8)) OR ucast (ucast w :: u8) = w" (is "?l = w")
proof (rule bit_word_eqI)
  fix i assume "i < LENGTH(32)"
  then have "i < 8 \<or> 8 \<le> i \<and> i < 16 \<or> 16 \<le> i \<and> i < 24 \<or> 24 \<le> i \<and> i < 32" by simp arith
  then consider "i < 8" | "8 \<le> i" "i < 16" | "16 \<le> i" "i < 24" | "24 \<le> i" "i < 32" by blast
  then show "bit ?l i = bit w i" by cases (auto simp: bit_simps)
qed

lemma be_words_bytes: "be_words (be_bytes ws) = ws"
  by (induction ws) (simp_all add: be_bytes_def be_word_bytes)

lemma length_be_bytes [simp]: "length (be_bytes ws) = 4 * length ws"
  by (induction ws) (simp_all add: be_bytes_def)

lemma length_be_words: "length (be_words bs) = length bs div 4"
  by (induction bs rule: be_words.induct) simp_all

lemma be_words_zero: "be_words (replicate (4 * k) 0) = replicate k 0"
proof (induction k)
  case (Suc k)
  have "4 * Suc k = Suc (Suc (Suc (Suc (4 * k))))" by simp
  then show ?case using Suc by (simp del: mult_Suc_right)
qed simp

section \<open>The user region\<close>

lemma unat_lt32: "unat (a :: u32) < 2 ^ 32"
proof -
  have "unsigned a < (2 ^ LENGTH(32) :: nat)" by (rule unsigned_less)
  then show ?thesis by simp
qed

lemma unat_plus_less:
  fixes a b :: u32
  shows "unat a + unat b < 2 ^ 32 \<Longrightarrow> unat (a + b) = unat a + unat b"
  by (simp add: unat_word_ariths)

lemma unat_plus_wrap:
  fixes a b :: u32
  assumes "2 ^ 32 \<le> unat a + unat b"
  shows "unat (a + b) = unat a + unat b - 2 ^ 32"
proof -
  have "unat a + unat b < 2 * 2 ^ 32" using unat_lt32 [of a] unat_lt32 [of b] by simp
  then have "(unat a + unat b) mod 2 ^ 32 = unat a + unat b - 2 ^ 32"
    using assms mod_if [of "unat a + unat b" "2 ^ 32"] by (simp add: le_mod_geq)
  then show ?thesis by (simp add: unat_word_ariths)
qed

lemma unat_top:
  fixes p len :: u32
  assumes "0 < len"
  shows "unat (p + len - 1) =
     (if unat p + unat len \<le> 2 ^ 32 then unat p + unat len - 1 else unat p + unat len - 1 - 2 ^ 32)"
proof -
  have pos: "0 < unat len" using assms by (simp add: word_less_nat_alt)
  consider "unat p + unat len < 2 ^ 32" | "unat p + unat len = 2 ^ 32" | "2 ^ 32 < unat p + unat len"
    by linarith
  then show ?thesis
  proof cases
    case 1
    then have "p + len \<noteq> 0" using pos unat_plus_less [of p len] by (metis add_gr_0 less_irrefl unat_0)
    then show ?thesis using 1 unat_plus_less [of p len] by (simp add: unat_minus_one)
  next
    case 2
    then have "p + len = 0" using unat_plus_wrap [of p len] by (simp add: unat_eq_zero)
    moreover have "unat (- 1 :: u32) = 2 ^ 32 - 1"
      by (simp add: unsigned_minus_1_eq_mask mask_eq_exp_minus_1)
    ultimately show ?thesis using 2 by simp
  next
    case 3
    then have "unat (p + len) = unat p + unat len - 2 ^ 32" by (intro unat_plus_wrap) simp
    moreover from this have "p + len \<noteq> 0" using 3 by (metis unat_0 zero_less_diff less_irrefl)
    ultimately show ?thesis using 3 by (simp add: unat_minus_one)
  qed
qed

text \<open>
  \<open>copycheck\<close> accepts the blocks that start below \<open>USERSPACETOP\<close> and do not wrap around; the length it
  hands back never leaves the user region. A block of length 0 is refused or, at address 0, taken
  for one that runs to the top of memory.
\<close>

lemma USERSPACETOP_nat: "unat USERSPACETOP = 2 ^ 31"
  by (simp add: USERSPACETOP_def)

lemma copycheck_spec:
  assumes "0 < len"
  shows "copycheck p len =
     (if unat p < 2 ^ 31 \<and> unat p + unat len \<le> 2 ^ 32
      then (EOK, if unat p + unat len \<le> 2 ^ 31 then len else USERSPACETOP - p)
      else (EFAULT, len))"
proof -
  have pos: "0 < unat len" using assms by (simp add: word_less_nat_alt)
  have lt: "p + len - 1 < p \<longleftrightarrow> \<not> unat p + unat len \<le> 2 ^ 32"
    using pos unat_lt32 [of len] by (auto simp: word_less_nat_alt unat_top [OF assms])
  have ge: "USERSPACETOP \<le> q \<longleftrightarrow> 2 ^ 31 \<le> unat q" for q
    by (simp only: word_le_nat_alt USERSPACETOP_nat)
  show ?thesis
  proof (cases "unat p < 2 ^ 31 \<and> unat p + unat len \<le> 2 ^ 32")
    case True
    then have "USERSPACETOP \<le> p + len - 1 \<longleftrightarrow> \<not> unat p + unat len \<le> 2 ^ 31"
      using pos by (auto simp: ge unat_top [OF assms])
    then show ?thesis using True by (simp add: copycheck_def Let_def lt ge)
  qed (auto simp: copycheck_def Let_def lt ge)
qed

lemma copycheck_empty:
  "copycheck p 0 = (if p = 0 then (EOK, USERSPACETOP) else (EFAULT, 0))"
proof (cases "p = 0")
  case True
  then show ?thesis by (simp add: copycheck_def USERSPACETOP_def)
next
  case False
  then have "p - 1 < p" by (simp add: word_less_nat_alt unat_minus_one unat_gt_0)
  then show ?thesis using False by (simp add: copycheck_def)
qed

section \<open>Copying blocks\<close>

text \<open>The bytes of a block of memory.\<close>

definition mem_block :: "umem \<Rightarrow> u32 \<Rightarrow> nat \<Rightarrow> u8 list" where
  "mem_block m a n = map (\<lambda>i. um_byte m (a + of_nat i)) [0..<n]"

lemma length_mem_block [simp]: "length (mem_block m a n) = n"
  by (simp add: mem_block_def)

lemma mem_block_Suc: "mem_block m a (Suc n) = um_byte m a # mem_block m (a + 1) n"
  by (simp add: mem_block_def upt_0_Suc comp_def add_ac del: upt_Suc)

lemma user_read_ok:
  "(\<And>i. i < n \<Longrightarrow> um_rd m (a + of_nat i)) \<Longrightarrow> user_read m a n = Done (True, mem_block m a n)"
proof (induction n arbitrary: a)
  case 0
  then show ?case by (simp add: mem_block_def)
next
  case (Suc n)
  have "um_rd m a" using Suc.prems [of 0] by simp
  moreover have "um_rd m (a + 1 + of_nat i)" if "i < n" for i
    using Suc.prems [of "Suc i"] that by (simp add: add_ac)
  ultimately show ?case using Suc.IH [of "a + 1"] by (simp add: mem_block_Suc)
qed

lemma user_read_total:
  "tm_badfaultfunc m \<Longrightarrow> \<exists>ok bs. user_read m a n = Done (ok, bs) \<and> (ok \<longrightarrow> bs = mem_block m a n)"
proof (induction n arbitrary: a)
  case (Suc n)
  from Suc.IH [OF Suc.prems, of "a + 1"] show ?case
    using Suc.prems by (auto simp: mem_block_Suc)
qed (auto simp: mem_block_def intro: exI [of _ True])

text \<open>
  The memory after the bytes \<open>bs\<close> were stored from address \<open>a\<close> on.
\<close>

definition mem_store :: "u8 list \<Rightarrow> u32 \<Rightarrow> umem \<Rightarrow> umem" where
  "mem_store bs a m = m\<lparr>um_byte := \<lambda>p. if unat a \<le> unat p \<and> unat p < unat a + length bs
                                       then bs ! (unat p - unat a) else um_byte m p\<rparr>"

lemma unat_Suc_addr: "Suc (unat a) < 2 ^ 32 \<Longrightarrow> unat (a + 1) = Suc (unat a)" for a :: u32
  by (simp add: unat_word_ariths)

lemma mem_store_Nil [simp]: "mem_store [] a m = m"
  by (rule umem.equality) (auto simp: mem_store_def fun_eq_iff)

lemma mem_store_Cons:
  assumes "unat a + length (b # bs) \<le> 2 ^ 31"
  shows "mem_store (b # bs) a m = mem_store bs (a + 1) (m\<lparr>um_byte := (um_byte m)(a := b)\<rparr>)"
proof -
  have a1: "unat (a + 1) = Suc (unat a)" using assms by (intro unat_Suc_addr) simp
  have "(if unat a \<le> unat p \<and> unat p < unat a + length (b # bs) then (b # bs) ! (unat p - unat a) else um_byte m p)
    = (if unat (a + 1) \<le> unat p \<and> unat p < unat (a + 1) + length bs then bs ! (unat p - unat (a + 1))
       else ((um_byte m)(a := b)) p)" for p
  proof (cases "p = a")
    case False
    then have "unat p \<noteq> unat a" using unsigned_word_eqI by blast
    then show ?thesis using False unfolding a1 by (auto simp: nth_Cons' Suc_le_eq)
  qed (simp add: a1)
  then show ?thesis by (simp add: mem_store_def fun_eq_iff)
qed

lemma mem_store_fields [simp]:
  "um_rd (mem_store bs a m) = um_rd m" "um_wr (mem_store bs a m) = um_wr m"
  "um_as (mem_store bs a m) = um_as m" "tm_badfaultfunc (mem_store bs a m) = tm_badfaultfunc m"
  by (simp_all add: mem_store_def)

lemma user_write_ok:
  assumes "unat a + length bs \<le> 2 ^ 31" and "\<And>i. i < length bs \<Longrightarrow> um_wr m (a + of_nat i)"
  shows "user_write bs a m = Done (True, mem_store bs a m)"
  using assms
proof (induction bs arbitrary: a m)
  case (Cons b bs)
  have "um_wr m a" using Cons.prems(2) [of 0] by simp
  moreover have "um_wr m (a + 1 + of_nat i)" if "i < length bs" for i
    using Cons.prems(2) [of "Suc i"] that by (simp add: add_ac)
  moreover have "unat (a + 1) + length bs \<le> 2 ^ 31"
    using Cons.prems(1) unat_Suc_addr [of a] by simp
  ultimately show ?case
    using Cons.IH [of "a + 1" "m\<lparr>um_byte := (um_byte m)(a := b)\<rparr>"] mem_store_Cons [OF Cons.prems(1)] by simp
qed simp

text \<open>However a copy ends, it stored a part of the bytes, from the start, and nothing else.\<close>

lemma user_write_prefix:
  assumes "unat a + length bs \<le> 2 ^ 31" and "tm_badfaultfunc m"
  shows "\<exists>k ok. k \<le> length bs \<and> (ok \<longrightarrow> k = length bs) \<and> user_write bs a m = Done (ok, mem_store (take k bs) a m)"
  using assms
proof (induction bs arbitrary: a m)
  case (Cons b bs)
  show ?case
  proof (cases "um_wr m a")
    case True
    have "unat (a + 1) + length bs \<le> 2 ^ 31"
      using Cons.prems(1) unat_Suc_addr [of a] by simp
    from Cons.IH [OF this, of "m\<lparr>um_byte := (um_byte m)(a := b)\<rparr>"] Cons.prems(2) obtain k ok where
      k: "k \<le> length bs" "ok \<longrightarrow> k = length bs"
        "user_write bs (a + 1) (m\<lparr>um_byte := (um_byte m)(a := b)\<rparr>)
           = Done (ok, mem_store (take k bs) (a + 1) (m\<lparr>um_byte := (um_byte m)(a := b)\<rparr>))"
      by auto
    have "unat a + length (b # take k bs) \<le> 2 ^ 31" using Cons.prems(1) by simp
    with k True show ?thesis
      by (intro exI [of _ "Suc k"] exI [of _ ok]) (simp add: mem_store_Cons)
  next
    case False
    then show ?thesis using Cons.prems(2) by (intro exI [of _ 0] exI [of _ False]) simp
  qed
qed (auto intro: exI [of _ True])

text \<open>Blocks of user memory: not empty, and below \<open>USERSPACETOP\<close> to their end.\<close>

definition user_block :: "u32 \<Rightarrow> u32 \<Rightarrow> bool" where
  "user_block p len \<longleftrightarrow> 0 < len \<and> unat p + unat len \<le> 2 ^ 31"

lemma user_top_minus: "unat p < 2 ^ 31 \<Longrightarrow> unat (USERSPACETOP - p) = 2 ^ 31 - unat p"
proof -
  assume "unat p < 2 ^ 31"
  then have "p \<le> USERSPACETOP" by (simp only: word_le_nat_alt USERSPACETOP_nat less_imp_le)
  then show ?thesis by (simp only: unat_sub USERSPACETOP_nat)
qed

text \<open>\<open>copyin\<close> and \<open>copyout\<close> go ahead exactly on such blocks.\<close>

lemma copycheck_accepts:
  "copycheck p len = (EOK, len) \<longleftrightarrow> user_block p len"
proof (cases "0 < len")
  case True
  have "USERSPACETOP - p \<noteq> len" if "unat p < 2 ^ 31" "\<not> unat p + unat len \<le> 2 ^ 31"
  proof
    assume "USERSPACETOP - p = len"
    then have "unat len = 2 ^ 31 - unat p" using user_top_minus [OF that(1)] by simp
    with that show False by simp
  qed
  moreover have "0 < unat len" using True by (simp add: word_less_nat_alt)
  ultimately show ?thesis using True by (auto simp: copycheck_spec user_block_def)
next
  case False
  then have "len = 0" by (simp add: word_gt_0)
  then show ?thesis by (simp add: copycheck_empty user_block_def USERSPACETOP_def)
qed

lemma copyin_user_block:
  "copyin m p len =
     (if user_block p len
      then bnd (user_read (m\<lparr>tm_badfaultfunc := True\<rparr>) p (unat len)) (\<lambda>(ok, bs).
             Done (if ok then EOK else EFAULT, bs, m\<lparr>tm_badfaultfunc := False\<rparr>))
      else Done (EFAULT, [], m))"
proof (cases "user_block p len")
  case True
  then have "copycheck p len = (EOK, len)" by (simp add: copycheck_accepts)
  then show ?thesis using True by (simp add: copyin_def Let_def if_distrib [of Done] cong: if_cong) (auto intro!: bnd_cong)
next
  case False
  then have "copycheck p len \<noteq> (EOK, len)" by (simp add: copycheck_accepts)
  moreover have "fst (copycheck p len) = EOK \<or> fst (copycheck p len) = EFAULT"
    by (simp add: copycheck_def Let_def)
  ultimately show ?thesis using False by (auto simp: copyin_def Let_def split: prod.splits)
qed

lemma copyout_user_block:
  assumes "unat len \<le> length src"
  shows "copyout src p len m =
     (if user_block p len
      then bnd (user_write (take (unat len) src) p (m\<lparr>tm_badfaultfunc := True\<rparr>)) (\<lambda>(ok, m).
             Done (if ok then EOK else EFAULT, m\<lparr>tm_badfaultfunc := False\<rparr>))
      else Done (EFAULT, m))"
proof (cases "user_block p len")
  case True
  then have "copycheck p len = (EOK, len)" by (simp add: copycheck_accepts)
  then show ?thesis
    using True assms by (simp add: copyout_def Let_def if_distrib [of Done] cong: if_cong) (auto intro!: bnd_cong)
next
  case False
  then have "copycheck p len \<noteq> (EOK, len)" by (simp add: copycheck_accepts)
  moreover have "fst (copycheck p len) = EOK \<or> fst (copycheck p len) = EFAULT"
    by (simp add: copycheck_def Let_def)
  ultimately show ?thesis using False by (auto simp: copyout_def Let_def split: prod.splits)
qed

lemma copyin_reads:
  assumes "user_block p len" and "\<And>i. i < unat len \<Longrightarrow> um_rd m (p + of_nat i)"
  shows "copyin m p len = Done (EOK, mem_block m p (unat len), m\<lparr>tm_badfaultfunc := False\<rparr>)"
proof -
  have "user_read (m\<lparr>tm_badfaultfunc := True\<rparr>) p (unat len) = Done (True, mem_block m p (unat len))"
    using user_read_ok [of "unat len" "m\<lparr>tm_badfaultfunc := True\<rparr>" p] assms(2) by (simp add: mem_block_def)
  then show ?thesis using assms(1) by (simp add: copyin_user_block)
qed

text \<open>Whatever the arguments, \<open>copyin\<close> returns, and on success with the bytes of the block.\<close>

lemma copyin_total:
  "\<exists>e bs m'. copyin m p len = Done (e, bs, m') \<and> (e = EOK \<or> e = EFAULT) \<and> um_byte m' = um_byte m
     \<and> (e = EOK \<longrightarrow> user_block p len \<and> bs = mem_block m p (unat len))"
proof (cases "user_block p len")
  case True
  obtain ok bs where "user_read (m\<lparr>tm_badfaultfunc := True\<rparr>) p (unat len) = Done (ok, bs)"
      "ok \<longrightarrow> bs = mem_block (m\<lparr>tm_badfaultfunc := True\<rparr>) p (unat len)"
    using user_read_total [of "m\<lparr>tm_badfaultfunc := True\<rparr>" p "unat len"] by auto
  then show ?thesis using True by (simp add: copyin_user_block mem_block_def)
qed (simp add: copyin_user_block)

lemma mem_store_guard [simp]:
  "(mem_store bs a (m\<lparr>tm_badfaultfunc := x\<rparr>))\<lparr>tm_badfaultfunc := y\<rparr> = (mem_store bs a m)\<lparr>tm_badfaultfunc := y\<rparr>"
  by (rule umem.equality) (auto simp: mem_store_def fun_eq_iff)

lemma copyout_writes:
  assumes "user_block p len" and "unat len \<le> length src" and "\<And>i. i < unat len \<Longrightarrow> um_wr m (p + of_nat i)"
  shows "copyout src p len m = Done (EOK, (mem_store (take (unat len) src) p m)\<lparr>tm_badfaultfunc := False\<rparr>)"
proof -
  have "user_write (take (unat len) src) p (m\<lparr>tm_badfaultfunc := True\<rparr>)
      = Done (True, mem_store (take (unat len) src) p (m\<lparr>tm_badfaultfunc := True\<rparr>))"
    using assms by (intro user_write_ok) (simp_all add: user_block_def min_absorb2)
  then show ?thesis using assms(1,2) by (simp add: copyout_user_block)
qed

lemma copyout_prefix:
  assumes "unat len \<le> length src"
  shows "copyout src p len m = Done (EFAULT, m) \<or>
    (\<exists>k e. k \<le> unat len \<and> (e = EOK \<and> k = unat len \<or> e = EFAULT) \<and> user_block p len \<and>
       copyout src p len m = Done (e, (mem_store (take k src) p m)\<lparr>tm_badfaultfunc := False\<rparr>))"
proof (cases "user_block p len")
  case True
  then have len: "length (take (unat len) src) = unat len" "unat p + unat len \<le> 2 ^ 31"
    using assms by (simp_all add: user_block_def)
  have "unat p + length (take (unat len) src) \<le> 2 ^ 31" "tm_badfaultfunc (m\<lparr>tm_badfaultfunc := True\<rparr>)"
    using len by simp_all
  from user_write_prefix [OF this] obtain k ok where
    k: "k \<le> length (take (unat len) src)" "ok \<longrightarrow> k = length (take (unat len) src)"
    and w: "user_write (take (unat len) src) p (m\<lparr>tm_badfaultfunc := True\<rparr>)
       = Done (ok, mem_store (take k (take (unat len) src)) p (m\<lparr>tm_badfaultfunc := True\<rparr>))"
    by (elim exE conjE) (rule that)
  have k': "k \<le> unat len" "ok \<longrightarrow> k = unat len" using k unfolding len(1) by simp_all
  then have "take k (take (unat len) src) = take k src" using k'(1) by (simp add: min_absorb1)
  then have "copyout src p len m = Done (if ok then EOK else EFAULT, (mem_store (take k src) p m)\<lparr>tm_badfaultfunc := False\<rparr>)"
    using True assms w by (simp add: copyout_user_block)
  then show ?thesis using k' True by (intro disjI2 exI [of _ k] exI [of _ "if ok then EOK else EFAULT"]) simp
qed (simp add: copyout_user_block assms)

lemma mem_store_above:
  assumes "unat p + length bs \<le> 2 ^ 31" and "USERSPACETOP \<le> a"
  shows "um_byte (mem_store bs p m) a = um_byte m a"
proof -
  have "2 ^ 31 \<le> unat a" using assms(2) by (simp only: word_le_nat_alt USERSPACETOP_nat)
  then show ?thesis using assms(1) by (simp add: mem_store_def)
qed

lemma copyout_above:
  assumes "copyout src p len m = Done (e, m')" and "USERSPACETOP \<le> a"
  shows "um_byte m' a = um_byte m a"
proof (cases "unat len \<le> length src")
  case True
  have "m' = m \<or> (\<exists>k. k \<le> unat len \<and> user_block p len
      \<and> m' = (mem_store (take k src) p m)\<lparr>tm_badfaultfunc := False\<rparr>)"
    using copyout_prefix [OF True, of p m] assms(1) by auto
  then show ?thesis
  proof (elim disjE exE conjE)
    fix k assume k: "k \<le> unat len" "user_block p len" "m' = (mem_store (take k src) p m)\<lparr>tm_badfaultfunc := False\<rparr>"
    then have "unat p + length (take k src) \<le> 2 ^ 31" by (simp add: user_block_def min_def)
    then show ?thesis using k(3) assms(2) mem_store_above [of p "take k src" a m] by simp
  qed simp
next
  case False
  then show ?thesis using assms(1) by (auto simp: copyout_def Let_def split: prod.splits if_splits)
qed

lemma nat_addr:
  fixes p :: u32
  assumes "unat p + i < 2 ^ 32"
  shows "unat (p + of_nat i) = unat p + i"
proof -
  have "i < 2 ^ 32" using assms by simp
  then have "unat (of_nat i :: u32) = i" by (simp add: unat_of_nat)
  then show ?thesis using assms by (simp add: unat_word_ariths)
qed

lemma mem_block_store:
  assumes "unat p + length bs \<le> 2 ^ 31"
  shows "mem_block (mem_store bs p m) p (length bs) = bs"
proof (rule nth_equalityI)
  fix i assume "i < length (mem_block (mem_store bs p m) p (length bs))"
  then have i: "i < length bs" by simp
  then have "unat (p + of_nat i) = unat p + i" using assms by (intro nat_addr) simp
  then show "mem_block (mem_store bs p m) p (length bs) ! i = bs ! i"
    using i by (simp add: mem_block_def mem_store_def)
qed simp

section \<open>Copying strings\<close>

lemma copystr_invariant:
  assumes "copystr_from get put maxlen stoplen i dest = Done (e, n, dest')" and "R dest"
    and "\<And>i c d d'. i < maxlen \<Longrightarrow> i < stoplen \<Longrightarrow> R d \<Longrightarrow> put i c d = Done (Some d') \<Longrightarrow> R d'"
  shows "R dest'"
  using assms
proof (induction get put maxlen stoplen i dest rule: copystr_from.induct)
  case (1 get put maxlen stoplen i dest)
  show ?case
  proof (cases "i < maxlen \<and> i < stoplen")
    case True
    from 1(2) True obtain c where c: "get i = Done c" by (auto simp: copystr_from.simps outcome_iffs)
    show ?thesis
    proof (cases "\<exists>x d. c = Some x \<and> put i x dest = Done (Some d)")
      case True
      then obtain x d where x: "c = Some x" "put i x dest = Done (Some d)" by blast
      have "R d" using 1(4) [of i dest x d] \<open>i < maxlen \<and> i < stoplen\<close> 1(3) x by blast
      show ?thesis
      proof (cases "x = 0")
        case True
        then show ?thesis using 1(2) x c \<open>i < maxlen \<and> i < stoplen\<close> \<open>R d\<close> by (simp add: copystr_from.simps)
      next
        case False
        then have "copystr_from get put maxlen stoplen (Suc i) d = Done (e, n, dest')"
          using 1(2) x c \<open>i < maxlen \<and> i < stoplen\<close> by (simp add: copystr_from.simps [of get put maxlen stoplen i])
        then show ?thesis
          using 1(1) [OF \<open>i < maxlen \<and> i < stoplen\<close> c x(1) x(2) refl False _ \<open>R d\<close> 1(4)] by simp
      qed
    next
      case False
      then show ?thesis
        using 1(2,3) c True by (auto simp: copystr_from.simps outcome_iffs split: option.splits if_splits)
    qed
  qed (use 1(2,3) in \<open>auto simp: copystr_from.simps split: if_splits\<close>)
qed

lemma copystr_found:
  assumes "\<And>j. j \<le> k \<Longrightarrow> get j = Done (Some (f j))" and "f k = 0" and "\<And>j. j < k \<Longrightarrow> f j \<noteq> 0"
    and "k < maxlen" and "k < stoplen" and "i \<le> k"
  shows "copystr_from get (\<lambda>i c dest. Done (Some (dest @ [c]))) maxlen stoplen i dest
    = Done (EOK, Some (k + 1), dest @ map f [i..<Suc k])"
  using assms(6)
proof (induction "k - i" arbitrary: i dest)
  case 0
  then show ?case using assms by (simp add: copystr_from.simps)
next
  case (Suc n)
  then have ik: "i < k" by simp
  have "[i..<Suc k] = i # [Suc i..<Suc k]" using ik by (intro upt_conv_Cons) simp
  then show ?case
    using Suc.hyps(1) [of "Suc i" "dest @ [f i]"] Suc.hyps(2) ik assms
    by (simp add: copystr_from.simps [of _ _ maxlen stoplen i])
qed

lemma copystr_toolong:
  assumes "\<And>j. j < maxlen \<Longrightarrow> get j = Done (Some (f j)) \<and> f j \<noteq> 0"
    and "maxlen \<le> stoplen" and "i \<le> maxlen"
  shows "copystr_from get (\<lambda>i c dest. Done (Some (dest @ [c]))) maxlen stoplen i dest
    = Done (ENAMETOOLONG, None, dest @ map f [i..<maxlen])"
  using assms(3)
proof (induction "maxlen - i" arbitrary: i dest)
  case 0
  then show ?case using assms by (simp add: copystr_from.simps)
next
  case (Suc n)
  then have ik: "i < maxlen" by simp
  have "[i..<maxlen] = i # [Suc i..<maxlen]" using ik by (rule upt_conv_Cons)
  then show ?case
    using Suc.hyps(1) [of "Suc i" "dest @ [f i]"] Suc.hyps(2) ik assms
    by (simp add: copystr_from.simps [of _ _ maxlen stoplen i])
qed

text \<open>A string that ends inside the block is copied up to and with its terminator.\<close>

lemma copyinstr_found:
  assumes "unat p + k < 2 ^ 31" and "k < unat len" and "unat p + unat len \<le> 2 ^ 32"
    and "\<And>j. j \<le> k \<Longrightarrow> um_rd m (p + of_nat j)"
    and "um_byte m (p + of_nat k) = 0" and "\<And>j. j < k \<Longrightarrow> um_byte m (p + of_nat j) \<noteq> 0"
  shows "copyinstr m p len = Done (EOK, Some (k + 1), mem_block m p (Suc k), m\<lparr>tm_badfaultfunc := False\<rparr>)"
proof -
  have p: "unat p < 2 ^ 31" using assms(1) by simp
  define stop where "stop = (if unat p + unat len \<le> 2 ^ 31 then len else USERSPACETOP - p)"
  have "0 < len" using assms(2) by (auto simp: word_less_nat_alt)
  then have c: "copycheck p len = (EOK, stop)"
    using p assms(3) by (simp add: copycheck_spec stop_def)
  have "k < unat stop" using assms(1,2) user_top_minus [OF p] by (auto simp: stop_def)
  then have "copystr_from (user_get (m\<lparr>tm_badfaultfunc := True\<rparr>) p) (\<lambda>i c dest. Done (Some (dest @ [c])))
      (unat len) (unat stop) 0 [] = Done (EOK, Some (k + 1), [] @ map (\<lambda>j. um_byte m (p + of_nat j)) [0..<Suc k])"
    using assms by (intro copystr_found) (simp_all add: user_get_def)
  then show ?thesis by (simp add: copyinstr_def c mem_block_def)
qed

lemma copyoutstr_above:
  assumes "copyoutstr src p len m = Done (e, n, m')" and a: "USERSPACETOP \<le> a"
  shows "um_byte m' a = um_byte m a"
proof (cases "fst (copycheck p len) = EOK")
  case True
  then obtain stop where c: "copycheck p len = (EOK, stop)" by (cases "copycheck p len") simp
  have stop: "unat p + i < 2 ^ 31" if "i < unat len" "i < unat stop" for i
  proof -
    have "0 < len" using that(1) by (auto simp: word_less_nat_alt)
    with c have "unat p < 2 ^ 31" "stop = (if unat p + unat len \<le> 2 ^ 31 then len else USERSPACETOP - p)"
      by (auto simp: copycheck_spec split: if_splits)
    then show ?thesis using that user_top_minus [of p] by (auto split: if_splits)
  qed
  from assms(1) c obtain m2 where
    run: "copystr_from (\<lambda>i. bnd (arr_get src i) (\<lambda>c. Done (Some c))) (user_put p) (unat len) (unat stop) 0
       (m\<lparr>tm_badfaultfunc := True\<rparr>) = Done (e, n, m2)" and m': "m' = m2\<lparr>tm_badfaultfunc := False\<rparr>"
    by (auto simp: copyoutstr_def Let_def outcome_iffs)
  have "um_byte m2 a = um_byte m a"
  proof (rule copystr_invariant [where R = "\<lambda>d. um_byte d a = um_byte m a", OF run])
    fix i c d d' assume i: "i < unat len" "i < unat stop" and d: "um_byte d a = um_byte m a"
      "user_put p i c d = Done (Some d')"
    have "unat (p + of_nat i) < 2 ^ 31" using stop [OF i] nat_addr [of p i] by simp
    then have "p + of_nat i < USERSPACETOP" by (simp only: word_less_nat_alt USERSPACETOP_nat)
    then have "p + of_nat i \<noteq> a" using a by auto
    then show "um_byte d' a = um_byte m a" using d by (auto simp: user_put_def Let_def split: if_splits)
  qed simp
  then show ?thesis using m' by simp
next
  case False
  then show ?thesis using assms(1) by (auto simp: copyoutstr_def Let_def split: prod.splits)
qed

section \<open>Properties\<close>

text \<open>
  C6: Neither \<open>copyout\<close> nor \<open>copyoutstr\<close> ever changes a byte at or above \<open>USERSPACETOP\<close>, for any
  pointer and any length a user program passes, wrap-around included, and whether the call
  succeeds or fails half-way.
\<close>

theorem copyout_kernel_safe:
  assumes "copyout src p len m = Done (e, m') \<or> copyoutstr src p len m = Done (e, n, m')"
    and "USERSPACETOP \<le> a"
  shows "um_byte m' a = um_byte m a"
  using assms copyout_above [of src p len m e m' a] copyoutstr_above [of src p len m e n m' a] by blast

theorem copyout_kernel_safe_witness:
  "(\<exists>m'. copyout [7] 16 1 flat_mem = Done (EOK, m') \<and> um_byte m' 16 = 7
     \<and> um_byte m' 0x80000000 = um_byte flat_mem 0x80000000)"
proof -
  define m' where "m' = flat_mem\<lparr>um_byte := (\<lambda>_. 0)(16 := 7)\<rparr>"
  have "copyout [7] 16 1 flat_mem = Done (EOK, m')"
    by (simp add: copyout_def copycheck_def USERSPACETOP_def flat_mem_def m'_def)
  then show ?thesis
    using copyout_kernel_safe [where src = "[7]" and p = 16 and len = 1 and m = flat_mem and e = EOK and m' = m'
      and a = "0x80000000"]
    by (simp add: USERSPACETOP_def) (simp add: m'_def)
qed

text \<open>
  C38: A block that is copied out to writable user memory and copied in again comes back unchanged:
  \<open>copyout\<close> and \<open>copyin\<close> both succeed and the bytes read are the bytes written.
\<close>

theorem copyout_copyin:
  assumes "user_block p len" and "length bs = unat len"
    and "\<forall>i < unat len. um_wr m (p + of_nat i) \<and> um_rd m (p + of_nat i)"
  shows "\<exists>m'. copyout bs p len m = Done (EOK, m')
    \<and> copyin m' p len = Done (EOK, bs, m')"
proof -
  define m' where "m' = (mem_store bs p m)\<lparr>tm_badfaultfunc := False\<rparr>"
  have "copyout bs p len m = Done (EOK, m')"
    using copyout_writes [OF assms(1), of bs m] assms(2,3) by (simp add: m'_def)
  moreover have "mem_block m' p (unat len) = bs"
    using assms(1,2) mem_block_store [of p bs m] by (simp add: m'_def user_block_def mem_block_def)
  moreover have "copyin m' p len = Done (EOK, mem_block m' p (unat len), m'\<lparr>tm_badfaultfunc := False\<rparr>)"
    using assms(1,3) by (intro copyin_reads) (simp_all add: m'_def)
  ultimately show ?thesis by (intro exI [of _ m']) (simp add: m'_def)
qed

theorem copyout_copyin_witness:
  "\<exists>m'. copyout [1, 2, 3] 4096 3 flat_mem = Done (EOK, m') \<and> copyin m' 4096 3 = Done (EOK, [1, 2, 3], m')"
  by (rule copyout_copyin) (simp_all add: user_block_def flat_mem_def)

text \<open>
  \<open>copyinstr\<close> on a string that ends before the end of the block and before the end of user space,
  all of it readable: the call succeeds, and gives the bytes of the string with the terminator and
  the length that counts the terminator.
\<close>

theorem copyinstr_string:
  assumes "unat p + k < 2 ^ 31" and "k < unat len" and "unat p + unat len \<le> 2 ^ 32"
    and "\<forall>j \<le> k. um_rd m (p + of_nat j)"
    and "um_byte m (p + of_nat k) = 0" and "\<forall>j < k. um_byte m (p + of_nat j) \<noteq> 0"
  shows "copyinstr m p len = Done (EOK, Some (k + 1), mem_block m p (Suc k), m\<lparr>tm_badfaultfunc := False\<rparr>)"
  using assms by (intro copyinstr_found) simp_all

theorem copyinstr_string_witness:
  "copyinstr flat_mem 32 10 = Done (EOK, Some 1, [0], flat_mem)"
  using copyinstr_string [of 32 0 10 flat_mem] by (simp add: mem_block_def flat_mem_def)

end
