(* ===== verification/Kern_Uio.thy ===== *)
theory Kern_Uio
  imports Kern_Mem
begin

text \<open>
  Transfers described by a \<open>uio\<close>: \<^verbatim>\<open>kern/lib/uio.c\<close>. The data blocks (\<open>iovec\<close>) are address ranges of
  the memory of \<open>Kern_Mem\<close>, of the kernel or of the user; the kernel buffer at \<open>ptr\<close> is a list of bytes
  that no block overlaps, and is handed back with what the transfer stored in it. \<open>uio_iov\<close> is the list
  of the blocks from the pointer \<open>uio_iov\<close> on. \<open>uio_resid\<close> is a \<open>size_t\<close>, so its subtraction wraps.
\<close>

datatype uio_rw = UIO_READ | UIO_WRITE

datatype uio_seg = UIO_USERISPACE | UIO_USERSPACE | UIO_SYSSPACE

record iovec =
  iov_base :: u32
  iov_len :: nat

record uio =
  uio_iov :: "iovec list"
  uio_iovcnt :: nat
  uio_offset :: int
  uio_resid :: nat
  uio_segflg :: uio_seg
  uio_dir :: uio_rw
  uio_space :: "nat option"

definition sub32 :: "nat \<Rightarrow> nat \<Rightarrow> nat" where
  "sub32 a b = (a + (2 ^ 32 - b mod 2 ^ 32)) mod 2 ^ 32"

text \<open>\<open>memmove\<close> to and from kernel memory, where every address can be used.\<close>

primrec kmem_write :: "u8 list \<Rightarrow> u32 \<Rightarrow> umem \<Rightarrow> umem" where
  "kmem_write [] a m = m"
| "kmem_write (b # bs) a m = kmem_write bs (a + 1) (m\<lparr>um_byte := (um_byte m)(a := b)\<rparr>)"

definition iov_advance :: "nat \<Rightarrow> uio \<Rightarrow> uio" where
  "iov_advance sz u =
     (case uio_iov u of
        [] \<Rightarrow> u
      | iov # rest \<Rightarrow> u\<lparr>uio_iov := iov\<lparr>iov_base := iov_base iov + of_nat sz, iov_len := iov_len iov - sz\<rparr> # rest,
                        uio_resid := sub32 (uio_resid u) sz,
                        uio_offset := uio_offset u + int sz\<rparr>)"

text \<open>
  The loop of \<open>uiomove\<close>: \<open>pos\<close> is how far \<open>ptr\<close> has advanced in the buffer \<open>buf\<close>, \<open>n\<close> how much is left.
  A buffer that is too short for what is moved is an access outside it.
\<close>

function uiomove_loop ::
  "nat \<Rightarrow> nat \<Rightarrow> u8 list \<Rightarrow> uio \<Rightarrow> umem \<Rightarrow> (errno \<times> u8 list \<times> uio \<times> umem) outcome" where
  "uiomove_loop pos n buf u m =
     (if 0 < n \<and> 0 < uio_resid u
      then (case uio_iov u of
              [] \<Rightarrow> Fault
            | iov # rest \<Rightarrow>
                (let sz = (if iov_len iov > n then n else iov_len iov) in
                 if sz = 0
                 then (let u' = u\<lparr>uio_iov := rest, uio_iovcnt := sub32 (uio_iovcnt u) 1\<rparr>
                       in if uio_iovcnt u' = 0 then Panic else uiomove_loop pos n buf u' m)
                 else if length buf < pos + sz then Fault
                 else (case uio_segflg u of
                         UIO_SYSSPACE \<Rightarrow>
                           (case uio_dir u of
                              UIO_READ \<Rightarrow>
                                uiomove_loop (pos + sz) (n - sz) buf (iov_advance sz u)
                                  (kmem_write (take sz (drop pos buf)) (iov_base iov) m)
                            | UIO_WRITE \<Rightarrow>
                                uiomove_loop (pos + sz) (n - sz)
                                  (take pos buf @ mem_block m (iov_base iov) sz @ drop (pos + sz) buf)
                                  (iov_advance sz u) m)
                       | _ \<Rightarrow>
                           (case uio_dir u of
                              UIO_READ \<Rightarrow>
                                bnd (copyout (drop pos buf) (iov_base iov) (of_nat sz) m) (\<lambda>(result, m).
                                  if result \<noteq> EOK then Done (result, buf, u, m)
                                  else uiomove_loop (pos + sz) (n - sz) buf (iov_advance sz u) m)
                            | UIO_WRITE \<Rightarrow>
                                bnd (copyin m (iov_base iov) (of_nat sz)) (\<lambda>(result, bs, m).
                                  let buf = take pos buf @ bs @ drop (pos + length bs) buf in
                                  if result \<noteq> EOK then Done (result, buf, u, m)
                                  else uiomove_loop (pos + sz) (n - sz) buf (iov_advance sz u) m)))))
      else Done (EOK, buf, u, m))"
  by pat_completeness auto
termination
  by (relation "measure (\<lambda>(pos, n, buf, u, m). n + length (uio_iov u))")
    (auto simp: iov_advance_def split: if_splits)

declare uiomove_loop.simps [simp del]

definition uiomove :: "u8 list \<Rightarrow> nat \<Rightarrow> uio \<Rightarrow> umem \<Rightarrow> (errno \<times> u8 list \<times> uio \<times> umem) outcome" where
  "uiomove buf n u m =
     kassert (if uio_segflg u = UIO_SYSSPACE then uio_space u = None else uio_space u = um_as m)
       (uiomove_loop 0 n buf u m)"

text \<open>The chunks of \<open>zeros\<close>, 16 bytes each.\<close>

function uiomovezeros_loop :: "nat \<Rightarrow> uio \<Rightarrow> umem \<Rightarrow> (errno \<times> uio \<times> umem) outcome" where
  "uiomovezeros_loop n u m =
     (if 0 < n
      then (let amt = (if 16 > n then n else 16) in
            bnd (uiomove (replicate 16 0) amt u m) (\<lambda>(result, _, u, m).
              if result \<noteq> EOK then Done (result, u, m)
              else uiomovezeros_loop (n - amt) u m))
      else Done (EOK, u, m))"
  by pat_completeness auto
termination
  by (relation "measure (\<lambda>(n, u, m). n)") (auto split: if_splits)

declare uiomovezeros_loop.simps [simp del]

definition uiomovezeros :: "nat \<Rightarrow> uio \<Rightarrow> umem \<Rightarrow> (errno \<times> uio \<times> umem) outcome" where
  "uiomovezeros n u m = kassert (uio_dir u = UIO_READ) (uiomovezeros_loop n u m)"

definition uio_kinit :: "u32 \<Rightarrow> nat \<Rightarrow> int \<Rightarrow> uio_rw \<Rightarrow> uio" where
  "uio_kinit kbuf len pos rw =
     \<lparr>uio_iov = [\<lparr>iov_base = kbuf, iov_len = len\<rparr>], uio_iovcnt = 1, uio_offset = pos, uio_resid = len,
      uio_segflg = UIO_SYSSPACE, uio_dir = rw, uio_space = None\<rparr>"

section \<open>What a transfer does\<close>

text \<open>The addresses the blocks still cover, in order.\<close>

definition uio_addrs :: "uio \<Rightarrow> u32 list" where
  "uio_addrs u = concat (map (\<lambda>iov. map (\<lambda>i. iov_base iov + of_nat i) [0..<iov_len iov]) (uio_iov u))"

text \<open>
  A transfer that was set up as the comments of \<^verbatim>\<open>uio.h\<close> ask: \<open>uio_resid\<close> is the total length of the
  blocks.
\<close>

definition uio_ok :: "uio \<Rightarrow> bool" where
  "uio_ok u \<longleftrightarrow> uio_resid u = sum_list (map iov_len (uio_iov u)) \<and> uio_resid u < 2 ^ 32 \<and>
     uio_iovcnt u = length (uio_iov u) \<and> uio_iovcnt u < 2 ^ 32"

text \<open>Storing the bytes \<open>bs\<close> at the addresses \<open>as\<close>, in order.\<close>

definition mem_scatter :: "u32 list \<Rightarrow> u8 list \<Rightarrow> umem \<Rightarrow> umem" where
  "mem_scatter as bs m = fold (\<lambda>(a, b) m. m\<lparr>um_byte := (um_byte m)(a := b)\<rparr>) (zip as bs) m"

lemma sub32_le: "b \<le> a \<Longrightarrow> a < 2 ^ 32 \<Longrightarrow> sub32 a b = a - b"
proof -
  assume "b \<le> a" "a < 2 ^ 32"
  then have "a + (2 ^ 32 - b mod 2 ^ 32) = (a - b) + 2 ^ 32" by simp
  then show ?thesis using \<open>a < 2 ^ 32\<close> by (simp add: sub32_def)
qed

lemma uio_addrs_Cons:
  "uio_iov u = iov # rest \<Longrightarrow> uio_addrs u = map (\<lambda>i. iov_base iov + of_nat i) [0..<iov_len iov] @ uio_addrs (u\<lparr>uio_iov := rest\<rparr>)"
  by (simp add: uio_addrs_def)

lemma length_uio_addrs: "length (uio_addrs u) = sum_list (map iov_len (uio_iov u))"
  by (simp add: uio_addrs_def length_concat comp_def)

lemma uio_ok_addrs: "uio_ok u \<Longrightarrow> length (uio_addrs u) = uio_resid u"
  by (simp add: uio_ok_def length_uio_addrs)

text \<open>Dropping an empty block, and advancing in the first block.\<close>

lemma uio_ok_skip:
  assumes "uio_ok u" "uio_iov u = iov # rest" "iov_len iov = 0"
  shows "uio_ok (u\<lparr>uio_iov := rest, uio_iovcnt := c\<rparr>) \<longleftrightarrow> c = length rest"
    and "uio_addrs (u\<lparr>uio_iov := rest, uio_iovcnt := c\<rparr>) = uio_addrs u"
  using assms by (auto simp: uio_ok_def uio_addrs_def)

lemma uio_advance:
  assumes ok: "uio_ok u" and iov: "uio_iov u = iov # rest" and sz: "sz \<le> iov_len iov"
  shows "uio_ok (iov_advance sz u)" and "uio_addrs (iov_advance sz u) = drop sz (uio_addrs u)"
    and "uio_resid (iov_advance sz u) = uio_resid u - sz"
    and "uio_offset (iov_advance sz u) = uio_offset u + int sz"
    and "uio_segflg (iov_advance sz u) = uio_segflg u" and "uio_dir (iov_advance sz u) = uio_dir u"
    and "uio_space (iov_advance sz u) = uio_space u"
proof -
  have le: "sz \<le> uio_resid u" using ok iov sz by (simp add: uio_ok_def)
  then have sub: "sub32 (uio_resid u) sz = uio_resid u - sz" using ok by (simp add: uio_ok_def sub32_le)
  show "uio_resid (iov_advance sz u) = uio_resid u - sz" "uio_offset (iov_advance sz u) = uio_offset u + int sz"
    "uio_segflg (iov_advance sz u) = uio_segflg u" "uio_dir (iov_advance sz u) = uio_dir u"
    "uio_space (iov_advance sz u) = uio_space u"
    using iov sub by (simp_all add: iov_advance_def)
  show "uio_ok (iov_advance sz u)" using ok iov sub sz by (auto simp: iov_advance_def uio_ok_def)
  have "map (\<lambda>i. iov_base iov + of_nat sz + of_nat i) [0..<iov_len iov - sz]
      = drop sz (map (\<lambda>i. iov_base iov + of_nat i) [0..<iov_len iov])"
    using sz by (intro nth_equalityI) (simp_all add: add_ac less_diff_conv)
  then show "uio_addrs (iov_advance sz u) = drop sz (uio_addrs u)"
    using iov sz by (simp add: iov_advance_def uio_addrs_def)
qed

lemma take_uio_addrs:
  assumes "uio_iov u = iov # rest" and "sz \<le> iov_len iov"
  shows "take sz (uio_addrs u) = map (\<lambda>i. iov_base iov + of_nat i) [0..<sz]"
  using assms by (simp add: uio_addrs_def take_map)

lemma mem_scatter_append:
  "length as = length bs \<Longrightarrow> mem_scatter (as @ as') (bs @ bs') m = mem_scatter as' bs' (mem_scatter as bs m)"
  by (simp add: mem_scatter_def)

lemma kmem_write_scatter:
  "kmem_write bs a m = mem_scatter (map (\<lambda>i. a + of_nat i) [0..<length bs]) bs m"
proof (induction bs arbitrary: a m)
  case (Cons b bs)
  then show ?case by (simp add: mem_scatter_def upt_0_Suc comp_def add_ac del: upt_Suc)
qed (simp add: mem_scatter_def)

lemma mem_scatter_fields [simp]:
  "um_rd (mem_scatter as bs m) = um_rd m" "um_wr (mem_scatter as bs m) = um_wr m"
  "um_as (mem_scatter as bs m) = um_as m"
proof -
  have "um_rd (fold (\<lambda>(a, b) m. m\<lparr>um_byte := (um_byte m)(a := b)\<rparr>) ps m) = um_rd m
      \<and> um_wr (fold (\<lambda>(a, b) m. m\<lparr>um_byte := (um_byte m)(a := b)\<rparr>) ps m) = um_wr m
      \<and> um_as (fold (\<lambda>(a, b) m. m\<lparr>um_byte := (um_byte m)(a := b)\<rparr>) ps m) = um_as m" for ps
    by (induction ps arbitrary: m) auto
  then show "um_rd (mem_scatter as bs m) = um_rd m" "um_wr (mem_scatter as bs m) = um_wr m"
    "um_as (mem_scatter as bs m) = um_as m"
    by (simp_all add: mem_scatter_def)
qed

text \<open>The store that \<open>copyout\<close> makes of a block that was accepted is the same scatter.\<close>

lemma mem_store_scatter:
  assumes "unat a + length bs \<le> 2 ^ 31"
  shows "mem_store bs a m = mem_scatter (map (\<lambda>i. a + of_nat i) [0..<length bs]) bs m"
proof -
  have "mem_store bs a m = kmem_write bs a m"
    using assms
  proof (induction bs arbitrary: a m)
    case (Cons b bs)
    then have "unat (a + 1) + length bs \<le> 2 ^ 31" using unat_Suc_addr [of a] by simp
    with Cons show ?case by (simp add: mem_store_Cons)
  qed simp
  then show ?thesis by (simp add: kmem_write_scatter)
qed

lemma mem_scatter_cong: "um_byte m1 = um_byte m2 \<Longrightarrow> um_byte (mem_scatter as bs m1) = um_byte (mem_scatter as bs m2)"
proof -
  have "um_byte (fold (\<lambda>(a, b) m. m\<lparr>um_byte := (um_byte m)(a := b)\<rparr>) ps m1)
      = um_byte (fold (\<lambda>(a, b) m. m\<lparr>um_byte := (um_byte m)(a := b)\<rparr>) ps m2)"
    if "um_byte m1 = um_byte m2" for ps m1 m2
    using that by (induction ps arbitrary: m1 m2) auto
  then show "um_byte m1 = um_byte m2 \<Longrightarrow> ?thesis" by (simp add: mem_scatter_def)
qed

lemma mem_scatter_other: "a \<notin> set as \<Longrightarrow> um_byte (mem_scatter as bs m) a = um_byte m a"
proof -
  have "um_byte (fold (\<lambda>(a, b) m. m\<lparr>um_byte := (um_byte m)(a := b)\<rparr>) ps m) a = um_byte m a"
    if "a \<notin> fst ` set ps" for ps :: "(u32 \<times> u8) list" and m
    using that by (induction ps arbitrary: m) auto
  moreover have "fst ` set (zip as bs) \<subseteq> set as" by (auto dest: set_zip_leftD)
  ultimately show "a \<notin> set as \<Longrightarrow> ?thesis" unfolding mem_scatter_def by blast
qed

lemma mem_scatter_at:
  assumes "length as = length bs" and "distinct as" and "i < length as"
  shows "um_byte (mem_scatter as bs m) (as ! i) = bs ! i"
  using assms
proof (induction as bs arbitrary: i m rule: list_induct2)
  case (Cons a as b bs)
  have step: "mem_scatter (a # as) (b # bs) m = mem_scatter as bs (m\<lparr>um_byte := (um_byte m)(a := b)\<rparr>)"
    by (simp add: mem_scatter_def)
  show ?case
    using Cons mem_scatter_other [of a as bs] by (cases i) (simp_all add: step)
qed simp

text \<open>The transfer record after \<open>k\<close> bytes.\<close>

definition uio_moved :: "nat \<Rightarrow> uio \<Rightarrow> uio \<Rightarrow> bool" where
  "uio_moved k u u' \<longleftrightarrow> uio_ok u' \<and> uio_addrs u' = drop k (uio_addrs u) \<and>
     uio_resid u' = uio_resid u - k \<and> uio_offset u' = uio_offset u + int k \<and>
     uio_segflg u' = uio_segflg u \<and> uio_dir u' = uio_dir u \<and> uio_space u' = uio_space u"

lemma uio_moved_trans: "uio_moved j u u1 \<Longrightarrow> uio_moved k u1 u2 \<Longrightarrow> uio_moved (j + k) u u2"
  by (simp add: uio_moved_def add.commute)

text \<open>The blocks can be used: kernel memory always can, user memory when it is user memory and mapped.\<close>

definition uio_usable :: "umem \<Rightarrow> uio \<Rightarrow> bool" where
  "uio_usable m u \<longleftrightarrow> uio_segflg u = UIO_SYSSPACE \<or>
     (\<forall>iov \<in> set (uio_iov u). unat (iov_base iov) + iov_len iov \<le> 2 ^ 31 \<and>
        (\<forall>i < iov_len iov. um_rd m (iov_base iov + of_nat i) \<and> um_wr m (iov_base iov + of_nat i)))"

definition mem_env :: "umem \<Rightarrow> (u32 \<Rightarrow> bool) \<times> (u32 \<Rightarrow> bool) \<times> nat option" where
  "mem_env m = (um_rd m, um_wr m, um_as m)"

lemma uio_usable_advance:
  assumes "uio_usable m u" and "uio_iov u = iov # rest" and "sz \<le> iov_len iov" and "mem_env m' = mem_env m"
  shows "uio_usable m' (iov_advance sz u)"
proof (cases "uio_segflg u = UIO_SYSSPACE")
  case False
  then have b: "unat (iov_base iov) + iov_len iov \<le> 2 ^ 31"
    and rw: "\<And>i. i < iov_len iov \<Longrightarrow> um_rd m (iov_base iov + of_nat i) \<and> um_wr m (iov_base iov + of_nat i)"
    using assms(1,2) by (simp_all add: uio_usable_def)
  have "unat (iov_base iov + of_nat sz) = unat (iov_base iov) + sz"
    using b assms(3) by (intro nat_addr) simp
  moreover have "um_rd m (iov_base iov + of_nat sz + of_nat i) \<and> um_wr m (iov_base iov + of_nat sz + of_nat i)"
    if "i < iov_len iov - sz" for i
    using rw [of "sz + i"] that by (simp add: add_ac)
  ultimately show ?thesis
    using assms False b by (simp add: uio_usable_def iov_advance_def mem_env_def)
qed (use assms in \<open>simp add: uio_usable_def iov_advance_def\<close>)

lemma uio_usable_skip:
  "uio_usable m u \<Longrightarrow> uio_iov u = iov # rest \<Longrightarrow> uio_usable m (u\<lparr>uio_iov := rest, uio_iovcnt := c\<rparr>)"
  by (auto simp: uio_usable_def)

lemma of_nat_u32: "n < 2 ^ 32 \<Longrightarrow> unat (of_nat n :: u32) = n"
  by (simp add: unat_of_nat)

lemma usable_user_block:
  assumes "uio_usable m u" "uio_segflg u \<noteq> UIO_SYSSPACE" "uio_iov u = iov # rest" "0 < sz" "sz \<le> iov_len iov"
  shows "user_block (iov_base iov) (of_nat sz)" and "unat (of_nat sz :: u32) = sz"
proof -
  have "unat (iov_base iov) + iov_len iov \<le> 2 ^ 31" using assms(1-3) by (simp add: uio_usable_def)
  then have "sz < 2 ^ 32" and le: "unat (iov_base iov) + sz \<le> 2 ^ 31" using assms(5) by simp_all
  then show u: "unat (of_nat sz :: u32) = sz" by (intro of_nat_u32)
  then have "0 < (of_nat sz :: u32)" using assms(4) by (simp add: word_less_nat_alt)
  then show "user_block (iov_base iov) (of_nat sz)" using le u by (simp add: user_block_def)
qed

text \<open>One step of the loop in either direction.\<close>

lemma user_step_read:
  assumes "uio_usable m u" "uio_segflg u \<noteq> UIO_SYSSPACE" "uio_iov u = iov # rest" "0 < sz" "sz \<le> iov_len iov"
    and "sz \<le> length bs"
  shows "\<exists>m'. copyout bs (iov_base iov) (of_nat sz) m = Done (EOK, m') \<and> mem_env m' = mem_env m
    \<and> um_byte m' = um_byte (mem_scatter (take sz (uio_addrs u)) (take sz bs) m)"
proof -
  note blk = usable_user_block [OF assms(1-5)]
  have "um_wr m (iov_base iov + of_nat i)" if "i < sz" for i
    using assms(1-3,5) that by (simp add: uio_usable_def)
  then have "copyout bs (iov_base iov) (of_nat sz) m
      = Done (EOK, (mem_store (take sz bs) (iov_base iov) m)\<lparr>tm_badfaultfunc := False\<rparr>)"
    using copyout_writes [OF blk(1), of bs m] assms(6) blk(2) by simp
  moreover have "mem_store (take sz bs) (iov_base iov) m = mem_scatter (take sz (uio_addrs u)) (take sz bs) m"
    using blk assms(6) by (subst mem_store_scatter) (simp_all add: user_block_def take_uio_addrs [OF assms(3,5)] min_absorb2)
  ultimately show ?thesis by (simp add: mem_env_def)
qed

lemma user_step_write:
  assumes "uio_usable m u" "uio_segflg u \<noteq> UIO_SYSSPACE" "uio_iov u = iov # rest" "0 < sz" "sz \<le> iov_len iov"
  shows "\<exists>m'. copyin m (iov_base iov) (of_nat sz) = Done (EOK, map (um_byte m) (take sz (uio_addrs u)), m')
    \<and> mem_env m' = mem_env m \<and> um_byte m' = um_byte m"
proof -
  note blk = usable_user_block [OF assms(1-5)]
  have "um_rd m (iov_base iov + of_nat i)" if "i < sz" for i
    using assms(1-3,5) that by (simp add: uio_usable_def)
  then have "copyin m (iov_base iov) (of_nat sz)
      = Done (EOK, mem_block m (iov_base iov) sz, m\<lparr>tm_badfaultfunc := False\<rparr>)"
    using copyin_reads [OF blk(1), of m] blk(2) by simp
  moreover have "mem_block m (iov_base iov) sz = map (um_byte m) (take sz (uio_addrs u))"
    by (simp add: take_uio_addrs [OF assms(3,5)] mem_block_def)
  ultimately show ?thesis by (simp add: mem_env_def)
qed

lemma loop_step_read:
  assumes "uio_usable m u" "uio_dir u = UIO_READ" "uio_iov u = iov # rest" "0 < uio_resid u"
    and sz: "0 < sz" "sz = min n (iov_len iov)" and buf: "pos + n \<le> length buf"
  shows "\<exists>m1. uiomove_loop pos n buf u m = uiomove_loop (pos + sz) (n - sz) buf (iov_advance sz u) m1
    \<and> mem_env m1 = mem_env m \<and> um_byte m1 = um_byte (mem_scatter (take sz (uio_addrs u)) (take sz (drop pos buf)) m)"
proof -
  have le: "sz \<le> iov_len iov" "sz \<le> n" "sz \<le> length (drop pos buf)"
    and if_sz: "(if n < iov_len iov then n else iov_len iov) = sz" using sz(2) buf by auto
  show ?thesis
  proof (cases "uio_segflg u = UIO_SYSSPACE")
    case True
    have "kmem_write (take sz (drop pos buf)) (iov_base iov) m
        = mem_scatter (take sz (uio_addrs u)) (take sz (drop pos buf)) m"
      using le by (simp add: kmem_write_scatter take_uio_addrs [OF assms(3)] min_absorb2)
    moreover have "uiomove_loop pos n buf u m = uiomove_loop (pos + sz) (n - sz) buf (iov_advance sz u)
        (kmem_write (take sz (drop pos buf)) (iov_base iov) m)"
      using assms(2-4) sz(1) le if_sz buf True by (simp add: uiomove_loop.simps [of pos n] Let_def)
    ultimately show ?thesis
      by (intro exI [of _ "mem_scatter (take sz (uio_addrs u)) (take sz (drop pos buf)) m"]) (simp add: mem_env_def)
  next
    case False
    from user_step_read [OF assms(1) False assms(3) sz(1) le(1,3)] obtain m1 where
      m1: "copyout (drop pos buf) (iov_base iov) (of_nat sz) m = Done (EOK, m1)" "mem_env m1 = mem_env m"
        "um_byte m1 = um_byte (mem_scatter (take sz (uio_addrs u)) (take sz (drop pos buf)) m)" by blast
    have "uiomove_loop pos n buf u m = uiomove_loop (pos + sz) (n - sz) buf (iov_advance sz u) m1"
      using assms(2-4) sz(1) le if_sz buf False m1(1)
      by (cases "uio_segflg u") (simp_all add: uiomove_loop.simps [of pos n] Let_def)
    then show ?thesis using m1 by blast
  qed
qed

lemma loop_step_write:
  assumes "uio_usable m u" "uio_dir u = UIO_WRITE" "uio_iov u = iov # rest" "0 < uio_resid u"
    and sz: "0 < sz" "sz = min n (iov_len iov)" and buf: "pos + n \<le> length buf"
  shows "\<exists>m1. uiomove_loop pos n buf u m = uiomove_loop (pos + sz) (n - sz)
      (take pos buf @ map (um_byte m) (take sz (uio_addrs u)) @ drop (pos + sz) buf) (iov_advance sz u) m1
    \<and> mem_env m1 = mem_env m \<and> um_byte m1 = um_byte m"
proof -
  have le: "sz \<le> iov_len iov" "sz \<le> n"
    and if_sz: "(if n < iov_len iov then n else iov_len iov) = sz" using sz(2) by auto
  have blk: "mem_block m (iov_base iov) sz = map (um_byte m) (take sz (uio_addrs u))"
    by (simp add: take_uio_addrs [OF assms(3) le(1)] mem_block_def)
  then have len: "length (map (um_byte m) (take sz (uio_addrs u))) = sz" using length_mem_block [of m "iov_base iov" sz] by simp
  show ?thesis
  proof (cases "uio_segflg u = UIO_SYSSPACE")
    case True
    then show ?thesis
      using assms(2-4) sz(1) le if_sz buf blk by (simp add: uiomove_loop.simps [of pos n] Let_def) blast
  next
    case False
    from user_step_write [OF assms(1) False assms(3) sz(1) le(1)] obtain m1 where
      m1: "copyin m (iov_base iov) (of_nat sz) = Done (EOK, map (um_byte m) (take sz (uio_addrs u)), m1)"
        "mem_env m1 = mem_env m" "um_byte m1 = um_byte m" by blast
    have "uiomove_loop pos n buf u m = uiomove_loop (pos + sz) (n - sz)
        (take pos buf @ map (um_byte m) (take sz (uio_addrs u)) @ drop (pos + sz) buf) (iov_advance sz u) m1"
      using assms(2-4) sz(1) le if_sz buf False m1(1) len
      by (cases "uio_segflg u") (simp_all add: uiomove_loop.simps [of pos n] Let_def del: length_map)
    then show ?thesis using m1 by blast
  qed
qed

lemma loop_stop: "\<not> (0 < n \<and> 0 < uio_resid u) \<Longrightarrow> uiomove_loop pos n buf u m = Done (EOK, buf, u, m)"
  by (subst uiomove_loop.simps) (simp only: if_False)

text \<open>The loop passes over an empty block.\<close>

lemma loop_skip:
  assumes "uio_ok u" "uio_iov u = iov # rest" "iov_len iov = 0" "0 < n" "0 < uio_resid u"
  shows "uiomove_loop pos n buf u m = uiomove_loop pos n buf (u\<lparr>uio_iov := rest, uio_iovcnt := length rest\<rparr>) m"
proof -
  have "rest \<noteq> []" using assms(1,2,3,5) by (auto simp: uio_ok_def)
  moreover have "sub32 (uio_iovcnt u) 1 = length rest"
    using assms(1,2) sub32_le [of 1 "uio_iovcnt u"] by (simp add: uio_ok_def)
  ultimately show ?thesis using assms by (simp add: uiomove_loop.simps [of pos n] Let_def)
qed

lemma uio_moved_advance:
  assumes "uio_ok u" "uio_iov u = iov # rest" "sz \<le> iov_len iov"
  shows "uio_moved sz u (iov_advance sz u)"
  using uio_advance [OF assms] by (simp add: uio_moved_def)

lemma uio_moved_skip:
  assumes "uio_ok u" "uio_iov u = iov # rest" "iov_len iov = 0"
  shows "uio_moved 0 u (u\<lparr>uio_iov := rest, uio_iovcnt := length rest\<rparr>)"
  using uio_ok_skip [OF assms, of "length rest"] by (simp add: uio_moved_def)

lemma uio_moved_resid: "uio_ok u \<Longrightarrow> uio_resid u = 0 \<or> n = 0 \<Longrightarrow> uio_moved (min n (uio_resid u)) u u"
  by (auto simp: uio_moved_def)

lemma uio_resid_iov:
  assumes "uio_ok u" "0 < uio_resid u"
  obtains iov rest where "uio_iov u = iov # rest"
  using assms by (cases "uio_iov u") (auto simp: uio_ok_def)

lemma uio_ok_skip_rest:
  assumes "uio_ok u" "uio_iov u = iov # rest" "iov_len iov = 0"
  shows "uio_ok (u\<lparr>uio_iov := rest, uio_iovcnt := length rest\<rparr>)"
  using uio_ok_skip [OF assms] by simp

lemma min_add_diff: "s \<le> n \<Longrightarrow> s \<le> r \<Longrightarrow> s + min (n - s) (r - s) = min n r" for s n r :: nat
  by arith

lemma mem_scatter_take_add:
  assumes "i \<le> length as" "i \<le> length bs"
  shows "mem_scatter (take (i + k) as) (take (i + k) bs) m
    = mem_scatter (take k (drop i as)) (take k (drop i bs)) (mem_scatter (take i as) (take i bs) m)"
  using assms by (simp add: take_add mem_scatter_append)

text \<open>
  A transfer from the buffer to the blocks: it moves as much as was asked for or as the blocks hold,
  into the first addresses of the blocks, and records it.
\<close>

lemma uiomove_loop_read:
  assumes "uio_ok u" "uio_dir u = UIO_READ" "uio_usable m u" "pos + n \<le> length buf"
  shows "\<exists>u' m'. uiomove_loop pos n buf u m = Done (EOK, buf, u', m') \<and> uio_moved (min n (uio_resid u)) u u'
    \<and> mem_env m' = mem_env m
    \<and> um_byte m' = um_byte (mem_scatter (take (min n (uio_resid u)) (uio_addrs u)) (take (min n (uio_resid u)) (drop pos buf)) m)"
  using assms
proof (induction "n + length (uio_iov u)" arbitrary: pos n u m rule: less_induct)
  case less
  show ?case
  proof (cases "0 < n \<and> 0 < uio_resid u")
    case False
    then have "uiomove_loop pos n buf u m = Done (EOK, buf, u, m)" by (rule loop_stop)
    moreover have "min n (uio_resid u) = 0" using False by auto
    ultimately show ?thesis using less.prems(1) by (simp add: uio_moved_def mem_scatter_def)
  next
    case True
    then obtain iov rest where iov: "uio_iov u = iov # rest" using uio_resid_iov less.prems(1) by blast
    let ?sz = "min n (iov_len iov)"
    show ?thesis
    proof (cases "iov_len iov = 0")
      case z: True
      let ?u = "u\<lparr>uio_iov := rest, uio_iovcnt := length rest\<rparr>"
      have "n + length (uio_iov ?u) < n + length (uio_iov u)" using iov by simp
      from less.hyps [OF this uio_ok_skip_rest [OF less.prems(1) iov z] _ uio_usable_skip [OF less.prems(3) iov] less.prems(4)]
      show ?thesis
        using loop_skip [OF less.prems(1) iov z, of n pos buf m] True less.prems(2)
          uio_moved_skip [OF less.prems(1) iov z] uio_moved_trans [of 0 u ?u] uio_ok_skip(2) [OF less.prems(1) iov z]
        by auto
    next
      case False
      let ?u = "iov_advance ?sz u"
      have sz: "0 < ?sz" "?sz \<le> iov_len iov" using False True by simp_all
      obtain m1 where m1: "uiomove_loop pos n buf u m = uiomove_loop (pos + ?sz) (n - ?sz) buf ?u m1"
        "mem_env m1 = mem_env m" "um_byte m1 = um_byte (mem_scatter (take ?sz (uio_addrs u)) (take ?sz (drop pos buf)) m)"
        using loop_step_read [OF less.prems(3,2) iov conjunct2 [OF True] sz(1) refl less.prems(4)]
        by (elim exE conjE) (rule that)
      have "n - ?sz + length (uio_iov ?u) < n + length (uio_iov u)"
        using iov sz(1) True by (simp add: iov_advance_def)
      moreover note adv = uio_advance [OF less.prems(1) iov sz(2)]
      moreover have "uio_dir ?u = UIO_READ" using adv less.prems(2) by simp
      moreover have "uio_usable m1 ?u" using uio_usable_advance [OF less.prems(3) iov sz(2) m1(2)] .
      ultimately obtain u' m' where IH: "uiomove_loop (pos + ?sz) (n - ?sz) buf ?u m1 = Done (EOK, buf, u', m')"
        "uio_moved (min (n - ?sz) (uio_resid ?u)) ?u u'" "mem_env m' = mem_env m1"
        "um_byte m' = um_byte (mem_scatter (take (min (n - ?sz) (uio_resid ?u)) (uio_addrs ?u))
           (take (min (n - ?sz) (uio_resid ?u)) (drop (pos + ?sz) buf)) m1)"
        using less.hyps [of "n - ?sz" ?u m1 "pos + ?sz"] less.prems(4) by auto
      let ?k = "min (n - ?sz) (uio_resid ?u)"
      have le: "?sz \<le> uio_resid u" using less.prems(1) iov by (simp add: uio_ok_def)
      then have k: "?sz + ?k = min n (uio_resid u)" using adv(3) min_add_diff [of ?sz n "uio_resid u"] by simp
      have lens: "?sz \<le> length (uio_addrs u)" "?sz \<le> length (drop pos buf)"
        using le less.prems(1,4) by (simp_all add: uio_ok_addrs)
      have "um_byte m' = um_byte (mem_scatter (take ?k (drop ?sz (uio_addrs u))) (take ?k (drop ?sz (drop pos buf)))
          (mem_scatter (take ?sz (uio_addrs u)) (take ?sz (drop pos buf)) m))"
        using IH(4) mem_scatter_cong [OF m1(3)] by (simp add: adv(2) add.commute)
      also have "\<dots> = um_byte (mem_scatter (take (?sz + ?k) (uio_addrs u)) (take (?sz + ?k) (drop pos buf)) m)"
        by (simp only: mem_scatter_take_add [OF lens])
      finally show ?thesis
        using IH(1-3) m1(1,2) uio_moved_trans [OF uio_moved_advance [OF less.prems(1) iov sz(2)] IH(2)]
        unfolding k by auto
    qed
  qed
qed

text \<open>A transfer from the blocks to the buffer.\<close>

lemma uiomove_loop_write:
  assumes "uio_ok u" "uio_dir u = UIO_WRITE" "uio_usable m u" "pos + n \<le> length buf"
  shows "\<exists>u' m'. uiomove_loop pos n buf u m = Done (EOK, take pos buf @ map (um_byte m) (take (min n (uio_resid u)) (uio_addrs u))
        @ drop (pos + min n (uio_resid u)) buf, u', m') \<and> uio_moved (min n (uio_resid u)) u u'
    \<and> mem_env m' = mem_env m \<and> um_byte m' = um_byte m"
  using assms
proof (induction "n + length (uio_iov u)" arbitrary: pos n u m buf rule: less_induct)
  case less
  show ?case
  proof (cases "0 < n \<and> 0 < uio_resid u")
    case False
    then have "uiomove_loop pos n buf u m = Done (EOK, buf, u, m)" by (rule loop_stop)
    moreover have "min n (uio_resid u) = 0" using False by auto
    ultimately show ?thesis using less.prems(1) by (simp add: uio_moved_def)
  next
    case True
    then obtain iov rest where iov: "uio_iov u = iov # rest" using uio_resid_iov less.prems(1) by blast
    let ?sz = "min n (iov_len iov)"
    show ?thesis
    proof (cases "iov_len iov = 0")
      case z: True
      let ?u = "u\<lparr>uio_iov := rest, uio_iovcnt := length rest\<rparr>"
      have "n + length (uio_iov ?u) < n + length (uio_iov u)" using iov by simp
      from less.hyps [OF this uio_ok_skip_rest [OF less.prems(1) iov z] _ uio_usable_skip [OF less.prems(3) iov] less.prems(4)]
      show ?thesis
        using loop_skip [OF less.prems(1) iov z, of n pos buf m] True less.prems(2)
          uio_moved_skip [OF less.prems(1) iov z] uio_moved_trans [of 0 u ?u] uio_ok_skip(2) [OF less.prems(1) iov z]
        by auto
    next
      case False
      let ?u = "iov_advance ?sz u" and ?got = "map (um_byte m) (take (min n (iov_len iov)) (uio_addrs u))"
      let ?buf = "take pos buf @ ?got @ drop (pos + ?sz) buf"
      have sz: "0 < ?sz" "?sz \<le> iov_len iov" using False True by simp_all
      obtain m1 where m1: "uiomove_loop pos n buf u m = uiomove_loop (pos + ?sz) (n - ?sz) ?buf ?u m1"
        "mem_env m1 = mem_env m" "um_byte m1 = um_byte m"
        using loop_step_write [OF less.prems(3,2) iov conjunct2 [OF True] sz(1) refl less.prems(4)]
        by (elim exE conjE) (rule that)
      note adv = uio_advance [OF less.prems(1) iov sz(2)]
      have le: "?sz \<le> uio_resid u" using less.prems(1) iov by (simp add: uio_ok_def)
      then have got: "length ?got = ?sz" using less.prems(1) by (simp add: uio_ok_addrs)
      let ?k = "min (n - ?sz) (uio_resid ?u)"
      have k: "?sz + ?k = min n (uio_resid u)" using adv(3) le min_add_diff [of ?sz n "uio_resid u"] by simp
      have c1: "n - ?sz + length (uio_iov ?u) < n + length (uio_iov u)"
        using iov sz(1) True by (simp add: iov_advance_def)
      have c2: "uio_dir ?u = UIO_WRITE" using adv less.prems(2) by simp
      have c3: "uio_usable m1 ?u" using uio_usable_advance [OF less.prems(3) iov sz(2) m1(2)] .
      have c4: "pos + ?sz + (n - ?sz) \<le> length ?buf" using less.prems(4) got by simp
      from less.hyps [OF c1 adv(1) c2 c3 c4] obtain u' m' where IH: "uiomove_loop (pos + ?sz) (n - ?sz) ?buf ?u m1
          = Done (EOK, take (pos + ?sz) ?buf @ map (um_byte m1) (take ?k (uio_addrs ?u)) @ drop (pos + ?sz + ?k) ?buf, u', m')"
        "uio_moved ?k ?u u'" "mem_env m' = mem_env m1" "um_byte m' = um_byte m1"
        by (elim exE conjE) (rule that)
      have tk: "take (pos + ?sz) ?buf = take pos buf @ ?got" and dr: "drop (pos + ?sz + ?k) ?buf = drop (pos + (?sz + ?k)) buf"
        using got less.prems(4) by (simp_all add: add_ac)
      have ad: "take (?sz + ?k) (uio_addrs u) = take ?sz (uio_addrs u) @ take ?k (uio_addrs ?u)"
        by (simp only: adv(2) take_add)
      have res: "uiomove_loop pos n buf u m = Done (EOK, take pos buf @ map (um_byte m) (take (?sz + ?k) (uio_addrs u))
          @ drop (pos + (?sz + ?k)) buf, u', m')"
        by (simp only: m1(1,3) IH(1) tk dr ad map_append append_assoc)
      have mv: "uio_moved (?sz + ?k) u u'"
        by (rule uio_moved_trans [OF uio_moved_advance [OF less.prems(1) iov sz(2)] IH(2)])
      show ?thesis
        unfolding k [symmetric] by (intro exI conjI) (rule res, rule mv, simp_all only: IH(3,4) m1(2,3))
    qed
  qed
qed

section \<open>The operations\<close>

definition uio_ready :: "umem \<Rightarrow> uio \<Rightarrow> bool" where
  "uio_ready m u \<longleftrightarrow> uio_ok u \<and> uio_usable m u \<and>
     (if uio_segflg u = UIO_SYSSPACE then uio_space u = None else uio_space u = um_as m)"

lemma uiomove_read:
  assumes "uio_ready m u" "uio_dir u = UIO_READ" "n \<le> length buf"
  shows "\<exists>u' m'. uiomove buf n u m = Done (EOK, buf, u', m') \<and> uio_moved (min n (uio_resid u)) u u'
    \<and> mem_env m' = mem_env m
    \<and> um_byte m' = um_byte (mem_scatter (take (min n (uio_resid u)) (uio_addrs u)) (take (min n (uio_resid u)) buf) m)"
  using assms uiomove_loop_read [of u m 0 n buf] by (simp add: uiomove_def uio_ready_def)

lemma uiomove_write:
  assumes "uio_ready m u" "uio_dir u = UIO_WRITE" "n \<le> length buf"
  shows "\<exists>u' m'. uiomove buf n u m = Done (EOK, map (um_byte m) (take (min n (uio_resid u)) (uio_addrs u))
        @ drop (min n (uio_resid u)) buf, u', m') \<and> uio_moved (min n (uio_resid u)) u u'
    \<and> mem_env m' = mem_env m \<and> um_byte m' = um_byte m"
  using assms uiomove_loop_write [of u m 0 n buf] by (simp add: uiomove_def uio_ready_def)

lemma uio_usable_addrs:
  assumes "uio_segflg u \<noteq> UIO_SYSSPACE"
  shows "uio_usable m u \<longleftrightarrow> (\<forall>iov \<in> set (uio_iov u). unat (iov_base iov) + iov_len iov \<le> 2 ^ 31)
     \<and> (\<forall>a \<in> set (uio_addrs u). um_rd m a \<and> um_wr m a)"
  using assms by (fastforce simp: uio_usable_def uio_addrs_def)

section \<open>Properties\<close>

text \<open>
  C17: \<open>uiomove\<close> from a kernel buffer (\<open>UIO_READ\<close>), with a \<open>uio\<close> set up as \<^verbatim>\<open>uio.h\<close> asks: it succeeds, it
  moves \<open>n\<close> bytes or as many as the blocks still hold, \<open>uio_offset\<close> grows and \<open>uio_resid\<close> shrinks by that
  amount, and at each of the first addresses of the blocks stands the corresponding byte of the buffer,
  every other byte of memory being as before. The addresses of the blocks are distinct.
\<close>

theorem uiomove_read_scatters:
  assumes "uio_ready m u" and "uio_dir u = UIO_READ" and "n \<le> length buf" and "distinct (uio_addrs u)"
    and k: "k = min n (uio_resid u)"
  shows "\<exists>u' m'. uiomove buf n u m = Done (EOK, buf, u', m')
    \<and> uio_offset u' = uio_offset u + int k \<and> uio_resid u' = uio_resid u - k
    \<and> uio_addrs u' = drop k (uio_addrs u)
    \<and> (\<forall>i < k. um_byte m' (uio_addrs u ! i) = buf ! i)
    \<and> (\<forall>a. a \<notin> set (take k (uio_addrs u)) \<longrightarrow> um_byte m' a = um_byte m a)"
proof -
  obtain u' m' where run: "uiomove buf n u m = Done (EOK, buf, u', m')" "uio_moved k u u'"
    and b: "um_byte m' = um_byte (mem_scatter (take k (uio_addrs u)) (take k buf) m)"
    using uiomove_read [OF assms(1-3)] k by auto
  have len: "length (take k (uio_addrs u)) = length (take k buf)" "k \<le> length (uio_addrs u)"
    using assms(1,3) k by (simp_all add: uio_ready_def uio_ok_addrs)
  have "um_byte m' (uio_addrs u ! i) = buf ! i" if "i < k" for i
    using mem_scatter_at [OF len(1) _ , of i m] assms(4) that len(2) b by simp
  moreover have "um_byte m' a = um_byte m a" if "a \<notin> set (take k (uio_addrs u))" for a
    using mem_scatter_other [OF that, of "take k buf" m] b by simp
  ultimately show ?thesis using run by (auto simp: uio_moved_def)
qed

theorem uiomove_read_scatters_witness:
  "\<exists>u' m'. uiomove [10, 20, 30] 3 (uio_kinit 0x80001000 2 0 UIO_READ) flat_mem = Done (EOK, [10, 20, 30], u', m')
    \<and> uio_resid u' = 0 \<and> um_byte m' 0x80001001 = 20"
proof -
  let ?u = "uio_kinit 0x80001000 2 0 UIO_READ"
  have a: "uio_addrs ?u = [0x80001000, 0x80001001]"
    by (simp add: uio_addrs_def uio_kinit_def upt_0_Suc numeral_2_eq_2)
  have "uio_ready flat_mem ?u"
    by (simp add: uio_ready_def uio_ok_def uio_usable_def uio_kinit_def)
  then have "\<exists>u' m'. uiomove [10, 20, 30] 3 ?u flat_mem = Done (EOK, [10, 20, 30], u', m')
      \<and> uio_offset u' = uio_offset ?u + int 2 \<and> uio_resid u' = uio_resid ?u - 2
      \<and> uio_addrs u' = drop 2 (uio_addrs ?u)
      \<and> (\<forall>i < 2. um_byte m' (uio_addrs ?u ! i) = [10, 20, 30] ! i)
      \<and> (\<forall>a. a \<notin> set (take 2 (uio_addrs ?u)) \<longrightarrow> um_byte m' a = um_byte flat_mem a)"
    by (rule uiomove_read_scatters) (simp_all add: a, simp_all add: uio_kinit_def)
  then obtain u' m' where r: "uiomove [10, 20, 30] 3 ?u flat_mem = Done (EOK, [10, 20, 30], u', m')"
      "uio_resid u' = uio_resid ?u - 2" and all: "\<forall>i < 2. um_byte m' (uio_addrs ?u ! i) = [10, 20, 30] ! i"
    by (elim exE conjE) (rule that)
  have "um_byte m' 0x80001001 = 20" using spec [OF all, of 1] by (simp add: a)
  moreover have "uio_resid u' = 0" using r(2) by (simp add: uio_kinit_def)
  ultimately show ?thesis using r(1) by (intro exI conjI)
qed

text \<open>
  C18: \<open>uiomove\<close> into a kernel buffer (\<open>UIO_WRITE\<close>): it succeeds, the first bytes of the buffer become the
  bytes at the first addresses of the blocks, the rest of the buffer and all of memory stay as they are,
  and the \<open>uio\<close> records the amount.
\<close>

theorem uiomove_write_gathers:
  assumes "uio_ready m u" and "uio_dir u = UIO_WRITE" and "n \<le> length buf" and k: "k = min n (uio_resid u)"
  shows "\<exists>u' m'. uiomove buf n u m = Done (EOK, map (um_byte m) (take k (uio_addrs u)) @ drop k buf, u', m')
    \<and> uio_offset u' = uio_offset u + int k \<and> uio_resid u' = uio_resid u - k
    \<and> uio_addrs u' = drop k (uio_addrs u) \<and> um_byte m' = um_byte m"
  using uiomove_write [OF assms(1-3)] unfolding k by (auto simp: uio_moved_def)

theorem uiomove_write_gathers_witness:
  "\<exists>u' m'. uiomove [10, 20, 30] 3 (uio_kinit 0x80001000 2 0 UIO_WRITE) flat_mem = Done (EOK, [0, 0, 30], u', m')
    \<and> uio_offset u' = 2"
proof -
  let ?u = "uio_kinit 0x80001000 2 0 UIO_WRITE"
  have a: "uio_addrs ?u = [0x80001000, 0x80001001]"
    by (simp add: uio_addrs_def uio_kinit_def upt_0_Suc numeral_2_eq_2)
  have "uio_ready flat_mem ?u"
    by (simp add: uio_ready_def uio_ok_def uio_usable_def uio_kinit_def)
  then have "\<exists>u' m'. uiomove [10, 20, 30] 3 ?u flat_mem = Done (EOK, map (um_byte flat_mem) (take 2 (uio_addrs ?u)) @ drop 2 [10, 20, 30], u', m')
      \<and> uio_offset u' = uio_offset ?u + int 2 \<and> uio_resid u' = uio_resid ?u - 2
      \<and> uio_addrs u' = drop 2 (uio_addrs ?u) \<and> um_byte m' = um_byte flat_mem"
    by (rule uiomove_write_gathers) (simp_all add: uio_kinit_def)
  then show ?thesis
    unfolding a by (force simp: uio_kinit_def flat_mem_def)
qed

end
