(* ===== verification/Kern_Synch.thy ===== *)
theory Kern_Synch
  imports Kern_Threadlist
begin

text \<open>
  Semaphores, locks and condition variables: \<^verbatim>\<open>kern/thread/synch.c\<close>.

  The body of each operation between the acquisition of the spinlock of the object and its release (or
  \<open>wchan_sleep\<close>, which gives it up as it puts the thread on the channel) runs without interference: it
  is one function here. A wait channel is the sequence of the threads asleep on it, first come first
  (the lists of \<open>Kern_Threadlist\<close>).

  The operations are used in two ways. A run of one thread calls \<open>lock_acquire\<close> and \<open>lock_release\<close>:
  there, going to sleep on a lock is \<open>Stuck\<close>. All threads together are the step relation
  \<open>sync_step\<close>, in which any thread may act next: its invariant gives mutual exclusion and that no
  wake-up is lost.
\<close>

section \<open>Objects\<close>

record semaphore =
  sem_wchan :: "tid list"
  sem_count :: u32

record lock =
  lk_wchan :: "tid list"
  lk_holder :: "tid option"
  taken :: bool

record cv =
  cv_wchan :: "tid list"

text \<open>\<open>kmalloc\<close>, \<open>kstrdup\<close> and \<open>wchan_create\<close> may fail; \<open>wchan_destroy\<close> of a null channel reads through it.\<close>

definition sem_create :: "bool \<Rightarrow> bool \<Rightarrow> bool \<Rightarrow> u32 \<Rightarrow> semaphore option" where
  "sem_create got_sem got_name got_wchan initial_count =
     (if \<not> got_sem then None
      else if \<not> got_name then None
      else if \<not> got_wchan then None
      else Some \<lparr>sem_wchan = [], sem_count = initial_count\<rparr>)"

definition lock_create :: "bool \<Rightarrow> bool \<Rightarrow> bool \<Rightarrow> lock option outcome" where
  "lock_create got_lock got_name got_wchan =
     (if \<not> got_lock then Done None
      else if \<not> got_name then Done None
      else if \<not> got_wchan then Fault
      else Done (Some \<lparr>lk_wchan = [], lk_holder = None, taken = False\<rparr>))"

definition cv_create :: "bool \<Rightarrow> bool \<Rightarrow> bool \<Rightarrow> cv option outcome" where
  "cv_create got_cv got_name got_wchan =
     (if \<not> got_cv then Done None
      else if \<not> got_name then Done None
      else if \<not> got_wchan then Fault
      else Done (Some \<lparr>cv_wchan = []\<rparr>))"

text \<open>\<open>wchan_destroy\<close> asserts that nobody sleeps on the channel.\<close>

definition sem_destroy :: "semaphore option \<Rightarrow> unit outcome" where
  "sem_destroy p = (case p of None \<Rightarrow> Panic | Some sem \<Rightarrow> kassert (sem_wchan sem = []) (Done ()))"

definition lock_destroy :: "lock option \<Rightarrow> unit outcome" where
  "lock_destroy p =
     (case p of
        None \<Rightarrow> Panic
      | Some lk \<Rightarrow> kassert (lk_holder lk = None) (kassert (\<not> taken lk) (kassert (lk_wchan lk = []) (Done ()))))"

definition cv_destroy :: "cv option \<Rightarrow> unit outcome" where
  "cv_destroy p = (case p of None \<Rightarrow> Panic | Some c \<Rightarrow> kassert (cv_wchan c = []) (Done ()))"

section \<open>The guarded sections\<close>

text \<open>One round of the loop of \<open>P\<close>, and \<open>V\<close>. The result says whether the thread got through, or whom it woke.\<close>

definition P_round :: "tid \<Rightarrow> semaphore \<Rightarrow> bool \<times> semaphore" where
  "P_round me sem =
     (if sem_count sem = 0 then (False, sem\<lparr>sem_wchan := sem_wchan sem @ [me]\<rparr>)
      else (True, sem\<lparr>sem_count := sem_count sem - 1\<rparr>))"

definition V_section :: "semaphore \<Rightarrow> (tid option \<times> semaphore) outcome" where
  "V_section sem =
     (let sem = sem\<lparr>sem_count := sem_count sem + 1\<rparr>
      in kassert (sem_count sem > 0)
        (case sem_wchan sem of
           [] \<Rightarrow> Done (None, sem)
         | t # ts \<Rightarrow> Done (Some t, sem\<lparr>sem_wchan := ts\<rparr>)))"

text \<open>One round of the loop of \<open>lock_acquire\<close>: the thread goes to sleep, or takes the lock.\<close>

definition lock_round :: "tid \<Rightarrow> lock \<Rightarrow> bool \<times> lock" where
  "lock_round me lk =
     (if taken lk then (False, lk\<lparr>lk_wchan := lk_wchan lk @ [me]\<rparr>)
      else (True, lk\<lparr>taken := True, lk_holder := Some me\<rparr>))"

definition lock_drop :: "lock \<Rightarrow> tid option \<times> lock" where
  "lock_drop lk =
     (let lk = lk\<lparr>taken := False, lk_holder := None\<rparr>
      in case lk_wchan lk of
           [] \<Rightarrow> (None, lk)
         | t # ts \<Rightarrow> (Some t, lk\<lparr>lk_wchan := ts\<rparr>))"

definition lock_do_i_hold :: "tid \<Rightarrow> lock \<Rightarrow> bool" where
  "lock_do_i_hold me lk \<longleftrightarrow> lk_holder lk = Some me"

definition cv_wakeone :: "cv \<Rightarrow> tid option \<times> cv" where
  "cv_wakeone c = (case cv_wchan c of [] \<Rightarrow> (None, c) | t # ts \<Rightarrow> (Some t, c\<lparr>cv_wchan := ts\<rparr>))"

definition cv_wakeall :: "cv \<Rightarrow> tid list \<times> cv" where
  "cv_wakeall c = (cv_wchan c, c\<lparr>cv_wchan := []\<rparr>)"

section \<open>Locks in the run of one thread\<close>

type_synonym lock_heap = "nat \<rightharpoonup> lock"

text \<open>
  A lock pointer is null or an address. \<open>KASSERT (lock != NULL)\<close> comes first; an address that holds no
  lock (one that was freed) is a wild pointer.
\<close>

definition lock_acquire :: "tid \<Rightarrow> nat option \<Rightarrow> lock_heap \<Rightarrow> lock_heap outcome" where
  "lock_acquire me p h =
     (case p of
        None \<Rightarrow> Panic
      | Some a \<Rightarrow> bnd (deref (h a)) (\<lambda>lk.
          case lock_round me lk of
            (True, lk) \<Rightarrow> Done (h(a \<mapsto> lk))
          | (False, _) \<Rightarrow> Stuck))"

definition lock_release :: "nat option \<Rightarrow> lock_heap \<Rightarrow> lock_heap outcome" where
  "lock_release p h =
     (case p of
        None \<Rightarrow> Panic
      | Some a \<Rightarrow> bnd (deref (h a)) (\<lambda>lk. Done (h(a \<mapsto> snd (lock_drop lk)))))"

definition lock_kill :: "nat option \<Rightarrow> lock_heap \<Rightarrow> lock_heap outcome" where
  "lock_kill p h =
     (case p of
        None \<Rightarrow> Panic
      | Some a \<Rightarrow> bnd (deref (h a)) (\<lambda>lk. bnd (lock_destroy (Some lk)) (\<lambda>_. Done (h(a := None)))))"

text \<open>A lock nobody holds or waits for.\<close>

definition lock_idle :: lock where
  "lock_idle = \<lparr>lk_wchan = [], lk_holder = None, taken = False\<rparr>"

definition lock_mine :: "tid \<Rightarrow> lock" where
  "lock_mine me = \<lparr>lk_wchan = [], lk_holder = Some me, taken = True\<rparr>"

lemma lock_acquire_idle [simp]:
  "h a = Some lock_idle \<Longrightarrow> lock_acquire me (Some a) h = Done (h(a \<mapsto> lock_mine me))"
  by (simp add: lock_acquire_def lock_round_def lock_idle_def lock_mine_def)

lemma lock_release_any [simp]:
  "h a = Some (lock_mine me) \<Longrightarrow> lock_release (Some a) h = Done (h(a \<mapsto> lock_idle))"
  "h a = Some lock_idle \<Longrightarrow> lock_release (Some a) h = Done (h(a \<mapsto> lock_idle))"
  by (simp_all add: lock_release_def lock_drop_def lock_idle_def lock_mine_def)

lemma lock_acquire_mine [simp]:
  "h a = Some (lock_mine me) \<Longrightarrow> lock_acquire me2 (Some a) h = Stuck"
  by (simp add: lock_acquire_def lock_round_def lock_mine_def)

section \<open>All threads together\<close>

text \<open>
  Where a thread is with respect to one lock and one condition variable that is used with it:
  outside; in \<open>lock_acquire\<close>, about to look at the lock; asleep on the channel of the lock; holding
  the lock; in \<open>cv_wait\<close> after \<open>lock_release\<close> and before \<open>wchan_sleep\<close>, holding the spinlock of the
  condition variable; asleep on the channel of the condition variable.
\<close>

datatype pc = Out | Trying | LkSleep | Holding | CvGap | CvSleep

record sync =
  s_lock :: lock
  s_cv :: cv
  s_spin :: "tid option"
  s_pc :: "tid \<Rightarrow> pc"

definition wake :: "tid option \<Rightarrow> (tid \<Rightarrow> pc) \<Rightarrow> tid \<Rightarrow> pc" where
  "wake w pcs = (case w of None \<Rightarrow> pcs | Some t \<Rightarrow> pcs(t := Trying))"

inductive sync_step :: "sync \<Rightarrow> sync \<Rightarrow> bool" where
  call: "s_pc s t = Out \<Longrightarrow> sync_step s (s\<lparr>s_pc := (s_pc s)(t := Trying)\<rparr>)"
| acquire: "s_pc s t = Trying \<Longrightarrow> lock_round t (s_lock s) = (True, lk) \<Longrightarrow>
    sync_step s (s\<lparr>s_lock := lk, s_pc := (s_pc s)(t := Holding)\<rparr>)"
| sleep: "s_pc s t = Trying \<Longrightarrow> lock_round t (s_lock s) = (False, lk) \<Longrightarrow>
    sync_step s (s\<lparr>s_lock := lk, s_pc := (s_pc s)(t := LkSleep)\<rparr>)"
| release: "s_pc s t = Holding \<Longrightarrow> lock_drop (s_lock s) = (w, lk) \<Longrightarrow>
    sync_step s (s\<lparr>s_lock := lk, s_pc := wake w ((s_pc s)(t := Out))\<rparr>)"
| wait: "s_pc s t = Holding \<Longrightarrow> s_spin s = None \<Longrightarrow> lock_drop (s_lock s) = (w, lk) \<Longrightarrow>
    sync_step s (s\<lparr>s_lock := lk, s_spin := Some t, s_pc := wake w ((s_pc s)(t := CvGap))\<rparr>)"
| wait_sleep: "s_pc s t = CvGap \<Longrightarrow> s_spin s = Some t \<Longrightarrow>
    sync_step s (s\<lparr>s_cv := (s_cv s)\<lparr>cv_wchan := cv_wchan (s_cv s) @ [t]\<rparr>, s_spin := None,
                   s_pc := (s_pc s)(t := CvSleep)\<rparr>)"
| signal: "s_pc s t = Holding \<Longrightarrow> s_spin s = None \<Longrightarrow> cv_wakeone (s_cv s) = (w, c) \<Longrightarrow>
    sync_step s (s\<lparr>s_cv := c, s_pc := wake w (s_pc s)\<rparr>)"
| broadcast: "s_pc s t = Holding \<Longrightarrow> s_spin s = None \<Longrightarrow> cv_wakeall (s_cv s) = (ws, c) \<Longrightarrow>
    sync_step s (s\<lparr>s_cv := c, s_pc := \<lambda>u. if u \<in> set ws then Trying else s_pc s u\<rparr>)"

inductive sync_reach :: "sync \<Rightarrow> bool" where
  init: "sync_reach \<lparr>s_lock = lock_idle, s_cv = \<lparr>cv_wchan = []\<rparr>, s_spin = None, s_pc = \<lambda>_. Out\<rparr>"
| step: "sync_reach s \<Longrightarrow> sync_step s s' \<Longrightarrow> sync_reach s'"

text \<open>The invariant: the fields of the objects say where the threads are.\<close>

definition sync_inv :: "sync \<Rightarrow> bool" where
  "sync_inv s \<longleftrightarrow>
     (\<forall>t. lk_holder (s_lock s) = Some t \<longleftrightarrow> s_pc s t = Holding) \<and>
     (taken (s_lock s) \<longleftrightarrow> lk_holder (s_lock s) \<noteq> None) \<and>
     (\<forall>t. t \<in> set (lk_wchan (s_lock s)) \<longleftrightarrow> s_pc s t = LkSleep) \<and> distinct (lk_wchan (s_lock s)) \<and>
     (\<forall>t. t \<in> set (cv_wchan (s_cv s)) \<longleftrightarrow> s_pc s t = CvSleep) \<and> distinct (cv_wchan (s_cv s)) \<and>
     (\<forall>t. s_spin s = Some t \<longleftrightarrow> s_pc s t = CvGap) \<and>
     (\<not> taken (s_lock s) \<and> lk_wchan (s_lock s) \<noteq> [] \<longrightarrow> (\<exists>t. s_pc s t = Trying))"

lemma sync_inv_init: "sync_inv \<lparr>s_lock = lock_idle, s_cv = \<lparr>cv_wchan = []\<rparr>, s_spin = None, s_pc = \<lambda>_. Out\<rparr>"
  by (simp add: sync_inv_def lock_idle_def)

text \<open>Giving up the lock, in \<open>lock_release\<close> and in \<open>cv_wait\<close>: the thread goes to \<open>Out\<close> or \<open>CvGap\<close>.\<close>

lemma sync_inv_drop:
  assumes inv: "sync_inv s" and t: "s_pc s t = Holding" and drop: "lock_drop (s_lock s) = (w, lk)"
    and p: "p = Out \<and> sp = s_spin s \<or> p = CvGap \<and> s_spin s = None \<and> sp = Some t"
  shows "sync_inv (s\<lparr>s_lock := lk, s_spin := sp, s_pc := wake w ((s_pc s)(t := p))\<rparr>)"
proof (cases "lk_wchan (s_lock s)")
  have "lk_holder (s_lock s) = Some t" using inv t by (simp add: sync_inv_def)
  then have uniq: "s_pc s x = Holding \<longleftrightarrow> x = t" for x using inv by (auto simp: sync_inv_def)
  have not: "s_pc s t \<noteq> CvSleep" "s_pc s t \<noteq> CvGap" "s_pc s t \<noteq> LkSleep" "s_pc s t \<noteq> Trying" using t by simp_all
  have spin: "s_spin s \<noteq> Some t" using inv t by (simp add: sync_inv_def)
  have inv': "\<And>x. x \<in> set (lk_wchan (s_lock s)) \<longleftrightarrow> s_pc s x = LkSleep" "distinct (lk_wchan (s_lock s))"
    "\<And>x. x \<in> set (cv_wchan (s_cv s)) \<longleftrightarrow> s_pc s x = CvSleep" "distinct (cv_wchan (s_cv s))"
    "\<And>x. s_spin s = Some x \<longleftrightarrow> s_pc s x = CvGap" "\<not> taken lk" "lk_holder lk = None"
    using inv drop by (auto simp: sync_inv_def lock_drop_def Let_def split: list.splits)
  have spin': "sp = Some x \<longleftrightarrow> (if x = t then p = CvGap else s_pc s x = CvGap)" for x
    using p inv'(5) [of x] inv'(5) [of t] t by auto
  have p': "p \<noteq> Holding" "p \<noteq> LkSleep" "p \<noteq> CvSleep" using p by auto
  {
    case Nil
    then have "w = None" "lk_wchan lk = []" using drop by (auto simp: lock_drop_def)
    then show ?thesis using inv' spin' p' uniq not Nil by (simp add: sync_inv_def wake_def)
  next
    case (Cons u us)
    then have w: "w = Some u" and lk: "lk_wchan lk = us" using drop by (auto simp: lock_drop_def)
    have u: "s_pc s u = LkSleep" using inv'(1) [of u] Cons by simp
    then have ut: "u \<noteq> t" using t by auto
    have mem: "x \<in> set us \<longleftrightarrow> x \<noteq> u \<and> s_pc s x = LkSleep" for x
      using inv'(1) [of x] inv'(2) Cons by auto
    have "distinct us" using inv'(2) Cons by simp
    then show ?thesis
      using inv'(3-7) spin' p' uniq not mem u ut unfolding w wake_def by (auto simp: sync_inv_def lk)
  }
qed

lemma sync_invD:
  assumes "sync_inv s"
  shows "lk_holder (s_lock s) = Some x \<longleftrightarrow> s_pc s x = Holding"
    and "taken (s_lock s) \<longleftrightarrow> lk_holder (s_lock s) \<noteq> None"
    and "x \<in> set (lk_wchan (s_lock s)) \<longleftrightarrow> s_pc s x = LkSleep" and "distinct (lk_wchan (s_lock s))"
    and "x \<in> set (cv_wchan (s_cv s)) \<longleftrightarrow> s_pc s x = CvSleep" and "distinct (cv_wchan (s_cv s))"
    and "s_spin s = Some x \<longleftrightarrow> s_pc s x = CvGap"
    and "\<not> taken (s_lock s) \<Longrightarrow> lk_wchan (s_lock s) \<noteq> [] \<Longrightarrow> \<exists>x. s_pc s x = Trying"
  using assms unfolding sync_inv_def by blast+

lemma sync_inv_acquire:
  assumes inv: "sync_inv s" and t: "s_pc s t = Trying" and "lock_round t (s_lock s) = (True, lk)"
  shows "sync_inv (s\<lparr>s_lock := lk, s_pc := (s_pc s)(t := Holding)\<rparr>)"
proof -
  have lk: "\<not> taken (s_lock s)" "lk = (s_lock s)\<lparr>taken := True, lk_holder := Some t\<rparr>"
    using assms(3) by (auto simp: lock_round_def split: if_splits)
  then have "lk_holder (s_lock s) = None" using sync_invD(2) [OF inv] by simp
  then have "s_pc s x \<noteq> Holding" for x using sync_invD(1) [OF inv, of x] by simp
  then show ?thesis
    using sync_invD(3-7) [OF inv] t unfolding sync_inv_def lk(2) by (auto split: if_splits)
qed

lemma sync_inv_sleep:
  assumes inv: "sync_inv s" and t: "s_pc s t = Trying" and "lock_round t (s_lock s) = (False, lk)"
  shows "sync_inv (s\<lparr>s_lock := lk, s_pc := (s_pc s)(t := LkSleep)\<rparr>)"
proof -
  have lk: "taken (s_lock s)" "lk = (s_lock s)\<lparr>lk_wchan := lk_wchan (s_lock s) @ [t]\<rparr>"
    using assms(3) by (auto simp: lock_round_def split: if_splits)
  have "t \<notin> set (lk_wchan (s_lock s))" using sync_invD(3) [OF inv, of t] t by simp
  then show ?thesis
    using sync_invD(1-7) [OF inv] t lk(1) unfolding sync_inv_def lk(2) by (simp split: if_splits)
qed

lemma sync_inv_wait_sleep:
  assumes inv: "sync_inv s" and t: "s_pc s t = CvGap" and spin: "s_spin s = Some t"
  shows "sync_inv (s\<lparr>s_cv := (s_cv s)\<lparr>cv_wchan := cv_wchan (s_cv s) @ [t]\<rparr>, s_spin := None,
                     s_pc := (s_pc s)(t := CvSleep)\<rparr>)"
proof -
  have gap: "s_pc s x = CvGap \<longleftrightarrow> x = t" for x using sync_invD(7) [OF inv, of x] spin by auto
  have "t \<notin> set (cv_wchan (s_cv s))" using sync_invD(5) [OF inv, of t] t by simp
  moreover have "\<exists>x. ((s_pc s)(t := CvSleep)) x = Trying" if "\<exists>x. s_pc s x = Trying"
  proof -
    obtain x where x: "s_pc s x = Trying" using \<open>\<exists>x. s_pc s x = Trying\<close> by blast
    then have "((s_pc s)(t := CvSleep)) x = Trying" using t by auto
    then show ?thesis by blast
  qed
  moreover have "s_pc s t \<noteq> Holding" "s_pc s t \<noteq> LkSleep" "s_pc s t \<noteq> CvSleep" using t by simp_all
  ultimately show ?thesis
    using sync_invD(1-6) [OF inv] sync_invD(8) [OF inv] gap unfolding sync_inv_def by simp
qed

text \<open>Waking sleepers of the condition variable.\<close>

lemma sync_inv_cv_wake:
  assumes inv: "sync_inv s" and ts: "\<And>x. x \<in> set ts \<longleftrightarrow> x \<notin> W \<and> s_pc s x = CvSleep" "distinct ts"
    and W: "\<And>x. x \<in> W \<Longrightarrow> s_pc s x = CvSleep"
  shows "sync_inv (s\<lparr>s_cv := \<lparr>cv_wchan = ts\<rparr>, s_pc := \<lambda>u. if u \<in> W then Trying else s_pc s u\<rparr>)"
proof -
  have "\<exists>x. (if x \<in> W then Trying else s_pc s x) = Trying" if "\<exists>x. s_pc s x = Trying"
    using that by auto
  moreover have "(if x \<in> W then Trying else s_pc s x) = Holding \<longleftrightarrow> s_pc s x = Holding"
    "(if x \<in> W then Trying else s_pc s x) = LkSleep \<longleftrightarrow> s_pc s x = LkSleep"
    "(if x \<in> W then Trying else s_pc s x) = CvGap \<longleftrightarrow> s_pc s x = CvGap"
    "(if x \<in> W then Trying else s_pc s x) = CvSleep \<longleftrightarrow> x \<notin> W \<and> s_pc s x = CvSleep" for x
    using W [of x] by auto
  ultimately show ?thesis
    using sync_invD(1-4,7) [OF inv] sync_invD(8) [OF inv] ts unfolding sync_inv_def by simp
qed

lemma sync_inv_step:
  assumes "sync_step s s'" and "sync_inv s"
  shows "sync_inv s'"
  using assms
proof (induction rule: sync_step.induct)
  case (call s t)
  then show ?case by (auto simp: sync_inv_def)
next
  case (release s t w lk)
  from sync_inv_drop [OF release(3,1,2), of Out "s_spin s"] show ?case by simp
next
  case (wait s t w lk)
  from sync_inv_drop [OF wait(4,1,3), of CvGap "Some t"] wait(2) show ?case by simp
next
  case (signal s t w c)
  note cvq = sync_invD(5) [OF signal(4)] sync_invD(6) [OF signal(4)]
  show ?case
  proof (cases "cv_wchan (s_cv s)")
    case Nil
    then have "c = s_cv s" "wake w (s_pc s) = s_pc s" using signal(3) by (auto simp: cv_wakeone_def wake_def)
    then show ?thesis using signal(4) by (simp add: sync_inv_def)
  next
    case (Cons u us)
    have u: "s_pc s u = CvSleep" using cvq(1) [of u] Cons by simp
    have "x \<in> set us \<longleftrightarrow> x \<notin> {u} \<and> s_pc s x = CvSleep" for x using cvq(1) [of x] cvq(2) Cons by auto
    moreover have "distinct us" using cvq(2) Cons by simp
    moreover have "wake w (s_pc s) = (\<lambda>x. if x \<in> {u} then Trying else s_pc s x)" "c = \<lparr>cv_wchan = us\<rparr>"
      using signal(3) Cons by (auto simp: cv_wakeone_def wake_def)
    ultimately show ?thesis using sync_inv_cv_wake [OF signal(4), of us "{u}"] u by simp
  qed
next
  case (broadcast s t ws c)
  then have "ws = cv_wchan (s_cv s)" "c = \<lparr>cv_wchan = []\<rparr>" by (auto simp: cv_wakeall_def)
  then show ?case
    using sync_inv_cv_wake [OF broadcast(4), of "[]" "set ws"] sync_invD(5) [OF broadcast(4)] by simp
qed (simp_all add: sync_inv_acquire sync_inv_sleep sync_inv_wait_sleep)

lemma sync_reach_inv: "sync_reach s \<Longrightarrow> sync_inv s"
  by (induction rule: sync_reach.induct) (auto intro: sync_inv_init sync_inv_step)

text \<open>
  Threads 1, 2 and 3 compete: thread 1 holds the lock and the others sleep; then it releases it.
\<close>

definition contended :: "tid \<Rightarrow> sync" where
  "contended t = \<lparr>s_lock = \<lparr>lk_wchan = [2, 3], lk_holder = Some t, taken = True\<rparr>, s_cv = \<lparr>cv_wchan = []\<rparr>,
     s_spin = None, s_pc = (\<lambda>_. Out)(1 := Trying, 1 := Holding, 2 := Trying, 2 := LkSleep, 3 := Trying, 3 := LkSleep)\<rparr>"

definition released :: sync where
  "released = \<lparr>s_lock = \<lparr>lk_wchan = [3], lk_holder = None, taken = False\<rparr>, s_cv = \<lparr>cv_wchan = []\<rparr>,
     s_spin = None, s_pc = (s_pc (contended 1))(1 := Out, 2 := Trying)\<rparr>"

lemma sync_reach_call: "sync_reach s \<Longrightarrow> s_pc s t = Out \<Longrightarrow> sync_reach (s\<lparr>s_pc := (s_pc s)(t := Trying)\<rparr>)"
  by (erule sync_reach.step) (rule sync_step.call)

lemma sync_reach_acquire:
  "sync_reach s \<Longrightarrow> s_pc s t = Trying \<Longrightarrow> lock_round t (s_lock s) = (True, lk) \<Longrightarrow>
   sync_reach (s\<lparr>s_lock := lk, s_pc := (s_pc s)(t := Holding)\<rparr>)"
  by (erule sync_reach.step) (rule sync_step.acquire)

lemma sync_reach_sleep:
  "sync_reach s \<Longrightarrow> s_pc s t = Trying \<Longrightarrow> lock_round t (s_lock s) = (False, lk) \<Longrightarrow>
   sync_reach (s\<lparr>s_lock := lk, s_pc := (s_pc s)(t := LkSleep)\<rparr>)"
  by (erule sync_reach.step) (rule sync_step.sleep)

lemma sync_reach_release:
  "sync_reach s \<Longrightarrow> s_pc s t = Holding \<Longrightarrow> lock_drop (s_lock s) = (w, lk) \<Longrightarrow>
   sync_reach (s\<lparr>s_lock := lk, s_pc := wake w ((s_pc s)(t := Out))\<rparr>)"
  by (erule sync_reach.step) (rule sync_step.release)

lemma contended_reach: "sync_reach (contended 1)"
proof -
  let ?c = "\<lparr>cv_wchan = []\<rparr>"
  have 1: "sync_reach \<lparr>s_lock = lock_idle, s_cv = ?c, s_spin = None, s_pc = (\<lambda>_. Out)(1 := Trying)\<rparr>"
    using sync_reach_call [OF sync_reach.init, of 1] by simp
  have 2: "sync_reach \<lparr>s_lock = lock_mine 1, s_cv = ?c, s_spin = None, s_pc = (\<lambda>_. Out)(1 := Trying, 1 := Holding)\<rparr>"
    using sync_reach_acquire [OF 1, of 1 "lock_mine 1"] by (simp add: lock_round_def lock_idle_def lock_mine_def)
  have 3: "sync_reach \<lparr>s_lock = lock_mine 1, s_cv = ?c, s_spin = None,
      s_pc = (\<lambda>_. Out)(1 := Trying, 1 := Holding, 2 := Trying)\<rparr>"
    using sync_reach_call [OF 2, of 2] by simp
  have 4: "sync_reach \<lparr>s_lock = \<lparr>lk_wchan = [2], lk_holder = Some 1, taken = True\<rparr>, s_cv = ?c, s_spin = None,
      s_pc = (\<lambda>_. Out)(1 := Trying, 1 := Holding, 2 := Trying, 2 := LkSleep)\<rparr>"
    using sync_reach_sleep [OF 3, of 2 "\<lparr>lk_wchan = [2], lk_holder = Some 1, taken = True\<rparr>"]
    by (simp add: lock_round_def lock_mine_def)
  have 5: "sync_reach \<lparr>s_lock = \<lparr>lk_wchan = [2], lk_holder = Some 1, taken = True\<rparr>, s_cv = ?c, s_spin = None,
      s_pc = (\<lambda>_. Out)(1 := Trying, 1 := Holding, 2 := Trying, 2 := LkSleep, 3 := Trying)\<rparr>"
    using sync_reach_call [OF 4, of 3] by simp
  show ?thesis
    using sync_reach_sleep [OF 5, of 3 "\<lparr>lk_wchan = [2, 3], lk_holder = Some 1, taken = True\<rparr>"]
    by (simp add: lock_round_def contended_def)
qed

lemma released_reach: "sync_reach released"
  using sync_reach_release [OF contended_reach, of 1 "Some 2" "\<lparr>lk_wchan = [3], lk_holder = None, taken = False\<rparr>"]
  by (simp add: lock_drop_def contended_def released_def wake_def)

section \<open>Semaphores\<close>

text \<open>
  The history of one semaphore: where the threads are, how many calls of \<open>P\<close> have returned and how many
  calls of \<open>V\<close> were made. \<open>V\<close> asserts that the count did not wrap.
\<close>

datatype spc = SOut | STrying | SAsleep

record semsys =
  ss_sem :: semaphore
  ss_pc :: "tid \<Rightarrow> spc"
  ss_P :: nat
  ss_V :: nat

inductive sem_step :: "semsys \<Rightarrow> semsys \<Rightarrow> bool" where
  P_call: "ss_pc s t = SOut \<Longrightarrow> sem_step s (s\<lparr>ss_pc := (ss_pc s)(t := STrying)\<rparr>)"
| P_through: "ss_pc s t = STrying \<Longrightarrow> P_round t (ss_sem s) = (True, sem) \<Longrightarrow>
    sem_step s (s\<lparr>ss_sem := sem, ss_pc := (ss_pc s)(t := SOut), ss_P := Suc (ss_P s)\<rparr>)"
| P_sleep: "ss_pc s t = STrying \<Longrightarrow> P_round t (ss_sem s) = (False, sem) \<Longrightarrow>
    sem_step s (s\<lparr>ss_sem := sem, ss_pc := (ss_pc s)(t := SAsleep)\<rparr>)"
| V_call: "ss_pc s t = SOut \<Longrightarrow> V_section (ss_sem s) = Done (w, sem) \<Longrightarrow>
    sem_step s (s\<lparr>ss_sem := sem, ss_pc := (case w of None \<Rightarrow> ss_pc s | Some u \<Rightarrow> (ss_pc s)(u := STrying)),
                  ss_V := Suc (ss_V s)\<rparr>)"

inductive sem_reach :: "u32 \<Rightarrow> semsys \<Rightarrow> bool" for n where
  sem_init: "sem_reach n \<lparr>ss_sem = \<lparr>sem_wchan = [], sem_count = n\<rparr>, ss_pc = \<lambda>_. SOut, ss_P = 0, ss_V = 0\<rparr>"
| sem_more: "sem_reach n s \<Longrightarrow> sem_step s s' \<Longrightarrow> sem_reach n s'"

definition sem_inv :: "u32 \<Rightarrow> semsys \<Rightarrow> bool" where
  "sem_inv n s \<longleftrightarrow> unat (sem_count (ss_sem s)) + ss_P s = unat n + ss_V s"

lemma V_section_count:
  assumes "V_section sem = Done (w, sem')"
  shows "unat (sem_count sem') = Suc (unat (sem_count sem))"
proof -
  have "sem_count sem' = sem_count sem + 1" and nz: "sem_count sem + 1 \<noteq> 0"
    using assms by (auto simp: V_section_def Let_def word_gt_0 split: list.splits)
  moreover have "unat (sem_count sem + 1) = Suc (unat (sem_count sem))"
  proof (rule unat_suc [OF refl], rule ccontr)
    assume "\<not> Suc (unat (sem_count sem)) < 2 ^ 32"
    then have "unat (sem_count sem) + 1 = 2 ^ 32"
      using unsigned_less [of "sem_count sem", where ?'a = nat] by simp
    then have "unat (sem_count sem + 1) = 0" by (simp add: unat_word_ariths)
    with nz show False by (simp add: unat_eq_zero)
  qed
  ultimately show ?thesis by simp
qed

lemma sem_inv_step:
  assumes "sem_step s s'" and "sem_inv n s"
  shows "sem_inv n s'"
  using assms
proof (induction rule: sem_step.induct)
  case (P_through s t sem)
  then have "sem_count (ss_sem s) \<noteq> 0" "sem = (ss_sem s)\<lparr>sem_count := sem_count (ss_sem s) - 1\<rparr>"
    by (auto simp: P_round_def split: if_splits)
  moreover from this(1) have "Suc (unat (sem_count (ss_sem s) - 1)) = unat (sem_count (ss_sem s))"
    by (simp add: unat_minus_one unat_gt_0)
  ultimately show ?case using P_through(3) by (simp add: sem_inv_def)
next
  case (V_call s t w sem)
  then show ?case using V_section_count [OF V_call(2)] by (simp add: sem_inv_def)
qed (auto simp: sem_inv_def P_round_def split: if_splits)

lemma sem_reach_inv: "sem_reach n s \<Longrightarrow> sem_inv n s"
proof (induction rule: sem_reach.induct)
  case sem_init
  then show ?case by (simp add: sem_inv_def)
qed (rule sem_inv_step)

section \<open>Properties\<close>

text \<open>
  C1: Mutual exclusion. In every state that any interleaving of \<open>lock_acquire\<close>, \<open>lock_release\<close>,
  \<open>cv_wait\<close>, \<open>cv_signal\<close> and \<open>cv_broadcast\<close> by the holder can reach, at most one thread is inside the
  lock, the lock is taken then, and \<open>lock_do_i_hold\<close> is true of exactly that thread.
\<close>

theorem lock_mutual_exclusion:
  assumes "sync_reach s" and "s_pc s t = Holding"
  shows "taken (s_lock s) \<and> lock_do_i_hold t (s_lock s) \<and>
    (\<forall>u. s_pc s u = Holding \<or> lock_do_i_hold u (s_lock s) \<longrightarrow> u = t)"
proof -
  note inv = sync_reach_inv [OF assms(1)]
  have "lk_holder (s_lock s) = Some t" using sync_invD(1) [OF inv, of t] assms(2) by simp
  moreover from this have "u = t" if "s_pc s u = Holding" for u
    using sync_invD(1) [OF inv, of u] that by simp
  moreover have "taken (s_lock s)" using sync_invD(2) [OF inv] calculation(1) by simp
  ultimately show ?thesis by (auto simp: lock_do_i_hold_def)
qed

theorem lock_mutual_exclusion_witness:
  "lock_do_i_hold 1 (s_lock (contended 1)) \<and> lock_do_i_hold 2 (s_lock (contended 1)) = False"
  using lock_mutual_exclusion [OF contended_reach, of 1] by (auto simp: contended_def)





text \<open>
  \<open>lock_release\<close> does not check who calls it, although \<^verbatim>\<open>synch.h\<close> says that only the thread holding the
  lock may do this: a thread that does not hold the lock frees it without any assertion failing, and
  a second thread then acquires it while the first one still believes it has it.
\<close>

theorem lock_release_unchecked:
  "lock_acquire 1 (Some a) [a \<mapsto> lock_idle] = Done [a \<mapsto> lock_mine 1]
   \<and> lock_release (Some a) [a \<mapsto> lock_mine 1] = Done [a \<mapsto> lock_idle]
   \<and> bnd (lock_release (Some a) [a \<mapsto> lock_mine 1]) (lock_acquire 2 (Some a)) = Done [a \<mapsto> lock_mine 2]"
  by simp

end
