(* ===== verification/Kern_Filetable.thy ===== *)
theory Kern_Filetable
  imports Kern_Synch
begin

text \<open>
  File tables of processes: \<^verbatim>\<open>kern/syscall/filetable.c\<close> and \<^verbatim>\<open>kern/include/filetable.h\<close>.

  A table is an array of pointers to entries, and after \<open>fork_ft\<close> two tables can point to the same
  entry, so the entries live in a heap (\<open>ft_heap\<close>) and a table holds their addresses. Every entry has a
  lock of its own, in the heap of locks of \<open>Kern_Synch\<close>. The functions are run by one thread
  (\<open>ft_me\<close>); acquiring a lock that is taken is \<open>Stuck\<close>, since no other thread of the run would
  release it. Results that the code stores through pointers are components of the result.
\<close>

definition OPEN_MAX :: nat where
  "OPEN_MAX = 32"

record fte =
  fte_flag :: int
  fte_file :: "nat option"
  fte_offset :: int
  fte_perm :: int
  fte_lock :: "nat option"

record ftable =
  ftp :: "nat option list"
  firstFreeSpot :: int

record ftstate =
  ft_heap :: "nat \<rightharpoonup> fte"
  ft_locks :: lock_heap
  ft_me :: tid

section \<open>Access to entries\<close>

text \<open>\<open>ft->ftp[fd]\<close>, which is dereferenced wherever it is used.\<close>

definition fte_ptr :: "ftable \<Rightarrow> int \<Rightarrow> nat outcome" where
  "fte_ptr t fd = (if 0 \<le> fd \<and> nat fd < length (ftp t) then deref (ftp t ! nat fd) else Fault)"

definition fte_get :: "nat \<Rightarrow> ftstate \<Rightarrow> fte outcome" where
  "fte_get p s = deref (ft_heap s p)"

definition fte_put :: "nat \<Rightarrow> fte \<Rightarrow> ftstate \<Rightarrow> ftstate" where
  "fte_put p e s = s\<lparr>ft_heap := (ft_heap s)(p \<mapsto> e)\<rparr>"

definition fte_acquire :: "nat \<Rightarrow> ftstate \<Rightarrow> ftstate outcome" where
  "fte_acquire p s = bnd (fte_get p s) (\<lambda>e.
     bnd (lock_acquire (ft_me s) (fte_lock e) (ft_locks s)) (\<lambda>h. Done (s\<lparr>ft_locks := h\<rparr>)))"

definition fte_release :: "nat \<Rightarrow> ftstate \<Rightarrow> ftstate outcome" where
  "fte_release p s = bnd (fte_get p s) (\<lambda>e.
     bnd (lock_release (fte_lock e) (ft_locks s)) (\<lambda>h. Done (s\<lparr>ft_locks := h\<rparr>)))"

section \<open>The code\<close>

text \<open>
  \<open>ft_init\<close> does not look at what \<open>kmalloc\<close> and \<open>lock_create\<close> give it: \<open>fte_at i\<close> is the address
  of the block for entry \<open>i\<close> and \<open>lk_at i\<close> that of its lock, or \<open>None\<close> when there was no memory.
\<close>

function ft_init_from ::
  "(nat \<Rightarrow> nat option) \<Rightarrow> (nat \<Rightarrow> nat option) \<Rightarrow> nat \<Rightarrow> ftable \<Rightarrow> ftstate \<Rightarrow> (ftable \<times> ftstate) outcome" where
  "ft_init_from fte_at lk_at i t s =
     (if i < OPEN_MAX
      then bnd (deref (fte_at i)) (\<lambda>p.
        let s = fte_put p \<lparr>fte_flag = 0, fte_file = None, fte_offset = 0, fte_perm = 0, fte_lock = lk_at i\<rparr> s;
            s = (case lk_at i of None \<Rightarrow> s | Some a \<Rightarrow> s\<lparr>ft_locks := (ft_locks s)(a \<mapsto> lock_idle)\<rparr>)
        in bnd (arr_set (ftp t) i (Some p)) (\<lambda>v.
           ft_init_from fte_at lk_at (Suc i) (t\<lparr>ftp := v\<rparr>) s))
      else Done (t, s))"
  by pat_completeness auto
termination
  by (relation "measure (\<lambda>(a, b, i, t, s). OPEN_MAX - i)") auto

declare ft_init_from.simps [simp del]

definition ft_init ::
  "bool \<Rightarrow> (nat \<Rightarrow> nat option) \<Rightarrow> (nat \<Rightarrow> nat option) \<Rightarrow> ftstate \<Rightarrow> (ftable \<times> ftstate) outcome" where
  "ft_init got fte_at lk_at s =
     (if got then ft_init_from fte_at lk_at 0 \<lparr>ftp = replicate OPEN_MAX None, firstFreeSpot = 0\<rparr> s else Fault)"

function find_free_from :: "ftable \<Rightarrow> nat \<Rightarrow> ftstate \<Rightarrow> (int \<times> ftstate) outcome" where
  "find_free_from t i s =
     (if i < OPEN_MAX
      then bnd (fte_ptr t (int i)) (\<lambda>p.
           bnd (fte_acquire p s) (\<lambda>s.
           bnd (fte_get p s) (\<lambda>e.
           if fte_flag e = 0 then bnd (fte_release p s) (\<lambda>s. Done (int i, s))
           else bnd (fte_release p s) (\<lambda>s. find_free_from t (Suc i) s))))
      else Done (- 1, s))"
  by pat_completeness auto
termination
  by (relation "measure (\<lambda>(t, i, s). OPEN_MAX - i)") auto

declare find_free_from.simps [simp del]

definition findFirstFreeSpot :: "ftable \<Rightarrow> ftstate \<Rightarrow> (ftable \<times> ftstate) outcome" where
  "findFirstFreeSpot t s = bnd (find_free_from t 3 s) (\<lambda>(i, s). Done (t\<lparr>firstFreeSpot := i\<rparr>, s))"

text \<open>Result: the code, \<open>errFlag\<close>, \<open>fd\<close> (as far as it was stored), and the table.\<close>

definition addEntry ::
  "ftable \<Rightarrow> int \<Rightarrow> int \<Rightarrow> nat \<Rightarrow> ftstate \<Rightarrow> (errno \<times> bool \<times> int option \<times> ftable \<times> ftstate) outcome" where
  "addEntry t permissions offset vn s =
     (if firstFreeSpot t = - 1 then Done (ENOMEM, True, None, t, s)
      else bnd (fte_ptr t (firstFreeSpot t)) (\<lambda>p.
           bnd (fte_acquire p s) (\<lambda>s.
           bnd (fte_get p s) (\<lambda>e.
           let s = fte_put p (e\<lparr>fte_flag := 1, fte_file := Some vn, fte_offset := offset, fte_perm := permissions\<rparr>) s;
               fd = firstFreeSpot t
           in bnd (fte_release p s) (\<lambda>s.
              bnd (findFirstFreeSpot t s) (\<lambda>(t, s).
              Done (EOK, False, Some fd, t, s)))))))"

definition addIoEntry :: "ftable \<Rightarrow> int \<Rightarrow> nat \<Rightarrow> int \<Rightarrow> ftstate \<Rightarrow> (ftable \<times> ftstate) outcome" where
  "addIoEntry t permissions vn fd s =
     bnd (fte_ptr t fd) (\<lambda>p.
     bnd (fte_acquire p s) (\<lambda>s.
     bnd (fte_get p s) (\<lambda>e.
     let s = fte_put p (e\<lparr>fte_flag := 1, fte_file := Some vn, fte_offset := 0, fte_perm := permissions\<rparr>) s
     in bnd (fte_release p s) (\<lambda>s. findFirstFreeSpot t s))))"

definition getEntry :: "ftable \<Rightarrow> int \<Rightarrow> nat option outcome" where
  "getEntry t fd = (if 0 \<le> fd \<and> nat fd < length (ftp t) then Done (ftp t ! nat fd) else Fault)"

definition clean_fd :: "ftable \<Rightarrow> int \<Rightarrow> ftstate \<Rightarrow> (ftable \<times> ftstate) outcome" where
  "clean_fd t fd s =
     bnd (fte_ptr t fd) (\<lambda>p.
     bnd (fte_acquire p s) (\<lambda>s.
     bnd (fte_get p s) (\<lambda>e.
     let s = fte_put p (e\<lparr>fte_flag := 0, fte_file := None, fte_offset := 0, fte_perm := 0\<rparr>) s
     in bnd (fte_release p s) (\<lambda>s. findFirstFreeSpot t s))))"

definition isValid :: "ftable \<Rightarrow> int \<Rightarrow> ftstate \<Rightarrow> (bool \<times> ftstate) outcome" where
  "isValid t fd s =
     bnd (fte_ptr t fd) (\<lambda>p.
     bnd (fte_acquire p s) (\<lambda>s.
     bnd (fte_get p s) (\<lambda>e.
     if fte_flag e = 1 \<and> (fte_perm e = 1 \<or> fte_perm e = 3)
     then bnd (fte_release p s) (\<lambda>s. Done (True, s))
     else bnd (fte_release p s) (\<lambda>s. Done (False, s)))))"

text \<open>Result: the code, what was stored through \<open>retval\<close>, and the table.\<close>

definition addDupEntry ::
  "ftable \<Rightarrow> int \<Rightarrow> int \<Rightarrow> ftstate \<Rightarrow> (errno \<times> int option \<times> ftable \<times> ftstate) outcome" where
  "addDupEntry t oldfd newfd s =
     bnd (fte_ptr t oldfd) (\<lambda>po.
     bnd (fte_acquire po s) (\<lambda>s.
     bnd (fte_get po s) (\<lambda>eo.
     if oldfd = newfd then bnd (fte_release po s) (\<lambda>s. Done (EOK, Some newfd, t, s))
     else if fte_flag eo = 0 then bnd (fte_release po s) (\<lambda>s. Done (EBADF, None, t, s))
     else if firstFreeSpot t = - 1 then bnd (fte_release po s) (\<lambda>s. Done (ENFILE, None, t, s))
     else bnd (fte_release po s) (\<lambda>s.
          bnd (fte_ptr t newfd) (\<lambda>pn.
          bnd (fte_acquire pn s) (\<lambda>s.
          bnd (fte_get po s) (\<lambda>eo.
          bnd (fte_get pn s) (\<lambda>en.
          let s = fte_put pn (en\<lparr>fte_perm := fte_perm eo, fte_file := fte_file eo,
                                 fte_offset := fte_offset eo, fte_flag := 1\<rparr>) s
          in bnd (fte_release pn s) (\<lambda>s.
             bnd (findFirstFreeSpot t s) (\<lambda>(t, s).
             Done (EOK, Some newfd, t, s)))))))))))"

text \<open>
  \<open>fork_ft\<close>: after the assignment \<open>child_ft->ftp[i] = parent->ftp[i]\<close> the second \<open>lock_release\<close> goes
  through the new pointer.
\<close>

function fork_ft_from :: "ftable \<Rightarrow> nat \<Rightarrow> ftable \<Rightarrow> ftstate \<Rightarrow> (ftable \<times> ftstate) outcome" where
  "fork_ft_from parent i child_ft s =
     (if i < OPEN_MAX
      then bnd (fte_ptr parent (int i)) (\<lambda>pp.
           bnd (fte_acquire pp s) (\<lambda>s.
           bnd (fte_ptr child_ft (int i)) (\<lambda>pc.
           bnd (fte_acquire pc s) (\<lambda>s.
           bnd (fte_get pp s) (\<lambda>e.
           let child_ft = (if fte_flag e = 1 then child_ft\<lparr>ftp := (ftp child_ft)[i := Some pp]\<rparr> else child_ft)
           in bnd (fte_release pp s) (\<lambda>s.
              bnd (fte_ptr child_ft (int i)) (\<lambda>pc.
              bnd (fte_release pc s) (\<lambda>s.
              fork_ft_from parent (Suc i) child_ft s))))))))
      else Done (child_ft, s))"
  by pat_completeness auto
termination
  by (relation "measure (\<lambda>(t, i, c, s). OPEN_MAX - i)") auto

declare fork_ft_from.simps [simp del]

definition fork_ft :: "ftable \<Rightarrow> ftable \<Rightarrow> ftstate \<Rightarrow> (ftable \<times> ftstate) outcome" where
  "fork_ft parent child_ft s =
     bnd (fork_ft_from parent 0 child_ft s) (\<lambda>(child_ft, s). findFirstFreeSpot child_ft s)"

function cleanup_from :: "nat \<Rightarrow> ftable \<Rightarrow> ftstate \<Rightarrow> (ftable \<times> ftstate) outcome" where
  "cleanup_from i t s =
     (if i < OPEN_MAX
      then bnd (fte_ptr t (int i)) (\<lambda>p.
           bnd (fte_get p s) (\<lambda>e.
           bnd (lock_kill (fte_lock e) (ft_locks s)) (\<lambda>h.
           cleanup_from (Suc i) (t\<lparr>ftp := (ftp t)[i := None]\<rparr>)
             (s\<lparr>ft_locks := h, ft_heap := (ft_heap s)(p := None)\<rparr>))))
      else Done (t, s))"
  by pat_completeness auto
termination
  by (relation "measure (\<lambda>(i, t, s). OPEN_MAX - i)") auto

declare cleanup_from.simps [simp del]

definition cleanup :: "ftable \<Rightarrow> ftstate \<Rightarrow> ftstate outcome" where
  "cleanup t s = bnd (cleanup_from 0 t s) (\<lambda>(t, s). Done s)"

text \<open>
  \<open>stdio_init\<close> opens the console three times. \<open>vfs_open\<close> acts on a state of the file systems; the name it
  gets is the copy \<open>kstrdup\<close> made, which may be null.
\<close>

abbreviation (input) O_RDONLY :: nat where "O_RDONLY \<equiv> 0"
abbreviation (input) O_WRONLY :: nat where "O_WRONLY \<equiv> 1"
abbreviation (input) O_RDWR :: nat where "O_RDWR \<equiv> 2"

definition stdio_init ::
  "(string option \<Rightarrow> nat \<Rightarrow> 'v \<Rightarrow> (errno \<times> nat \<times> 'v) outcome) \<Rightarrow> (string \<Rightarrow> string option)
     \<Rightarrow> ftable \<Rightarrow> ftstate \<Rightarrow> 'v \<Rightarrow> (errno \<times> ftable \<times> ftstate \<times> 'v) outcome" where
  "stdio_init vfs_open kstrdup t s v =
     (let std = ''con:'' in
      bnd (vfs_open (kstrdup std) O_RDONLY v) (\<lambda>(result, vin, v).
      if result \<noteq> EOK then Done (result, t, s, v)
      else bnd (addIoEntry t 1 vin 0 s) (\<lambda>(t, s).
      bnd (vfs_open (kstrdup std) O_WRONLY v) (\<lambda>(result, vout, v).
      if result \<noteq> EOK then Done (result, t, s, v)
      else bnd (addIoEntry t 2 vout 1 s) (\<lambda>(t, s).
      bnd (vfs_open (kstrdup std) O_WRONLY v) (\<lambda>(result, verr, v).
      if result \<noteq> EOK then Done (result, t, s, v)
      else bnd (addIoEntry t 2 verr 2 s) (\<lambda>(t, s).
      Done (EOK, t, s, v))))))))"

section \<open>Well-formed tables\<close>

text \<open>
  Every slot points to an entry of its own with a lock of its own, which nobody holds, and the flags
  are 0 or 1.
\<close>

definition ft_fte :: "ftstate \<Rightarrow> ftable \<Rightarrow> nat \<Rightarrow> fte" where
  "ft_fte s t i = the (ft_heap s (the (ftp t ! i)))"

definition ft_wf :: "ftstate \<Rightarrow> ftable \<Rightarrow> bool" where
  "ft_wf s t \<longleftrightarrow> length (ftp t) = OPEN_MAX \<and> distinct (ftp t) \<and>
     (\<forall>i < OPEN_MAX. \<exists>p e a. ftp t ! i = Some p \<and> ft_heap s p = Some e \<and> fte_lock e = Some a \<and>
        ft_locks s a = Some lock_idle \<and> (fte_flag e = 0 \<or> fte_flag e = 1))"

text \<open>\<open>firstFreeSpot\<close> says what its comment promises: the lowest free slot from 3 on, or -1.\<close>

definition lowest_free :: "ftstate \<Rightarrow> ftable \<Rightarrow> int" where
  "lowest_free s t =
     (case find_index (\<lambda>i. fte_flag (ft_fte s t i) = 0) [3..<OPEN_MAX] of None \<Rightarrow> - 1 | Some k \<Rightarrow> int (3 + k))"

definition ft_ok :: "ftstate \<Rightarrow> ftable \<Rightarrow> bool" where
  "ft_ok s t \<longleftrightarrow> ft_wf s t \<and> firstFreeSpot t = lowest_free s t"

text \<open>What a table means: the file, the offset and the permissions of every open descriptor.\<close>

definition fd_view :: "ftstate \<Rightarrow> ftable \<Rightarrow> nat \<Rightarrow> (nat option \<times> int \<times> int) option" where
  "fd_view s t fd =
     (if fd < OPEN_MAX \<and> fte_flag (ft_fte s t fd) = 1
      then Some (fte_file (ft_fte s t fd), fte_offset (ft_fte s t fd), fte_perm (ft_fte s t fd)) else None)"

lemma ft_wfE:
  assumes "ft_wf s t" and "i < OPEN_MAX"
  obtains p a where "ftp t ! i = Some p" and "ft_heap s p = Some (ft_fte s t i)"
    and "fte_lock (ft_fte s t i) = Some a" and "ft_locks s a = Some lock_idle"
    and "fte_flag (ft_fte s t i) = 0 \<or> fte_flag (ft_fte s t i) = 1"
  using assms by (fastforce simp: ft_wf_def ft_fte_def)

lemma fte_ptr_wf: "ft_wf s t \<Longrightarrow> i < OPEN_MAX \<Longrightarrow> fte_ptr t (int i) = Done (the (ftp t ! i))"
  by (auto simp: fte_ptr_def ft_wf_def)

text \<open>
  Taking the lock of an entry, changing the entry but not its lock, and giving the lock back.
\<close>

lemma fte_locked_update:
  assumes "ft_heap s p = Some e" and "fte_lock e = Some a" and "ft_locks s a = Some lock_idle"
    and "fte_lock e' = Some a"
  shows "fte_acquire p s = Done (s\<lparr>ft_locks := (ft_locks s)(a \<mapsto> lock_mine (ft_me s))\<rparr>)"
    and "fte_release p (fte_put p e' (s\<lparr>ft_locks := (ft_locks s)(a \<mapsto> lock_mine (ft_me s))\<rparr>)) = Done (fte_put p e' s)"
    and "fte_release p (s\<lparr>ft_locks := (ft_locks s)(a \<mapsto> lock_mine (ft_me s))\<rparr>) = Done s"
proof -
  have same: "(ft_locks s)(a \<mapsto> lock_idle) = ft_locks s" using assms(3) by (simp add: fun_upd_idem)
  show "fte_acquire p s = Done (s\<lparr>ft_locks := (ft_locks s)(a \<mapsto> lock_mine (ft_me s))\<rparr>)"
    using assms by (simp add: fte_acquire_def fte_get_def)
  show "fte_release p (fte_put p e' (s\<lparr>ft_locks := (ft_locks s)(a \<mapsto> lock_mine (ft_me s))\<rparr>)) = Done (fte_put p e' s)"
    using assms by (simp add: fte_release_def fte_get_def fte_put_def lock_release_any(1) [of _ _ "ft_me s"] same)
  show "fte_release p (s\<lparr>ft_locks := (ft_locks s)(a \<mapsto> lock_mine (ft_me s))\<rparr>) = Done s"
    using assms by (simp add: fte_release_def fte_get_def lock_release_any(1) [of _ _ "ft_me s"] same)
qed

lemma ft_wf_put:
  assumes wf: "ft_wf s t" and i: "i < OPEN_MAX" and p: "ftp t ! i = Some p"
    and lock: "fte_lock e' = fte_lock (ft_fte s t i)" and flag: "fte_flag e' = 0 \<or> fte_flag e' = 1"
  shows "ft_wf (fte_put p e' s) t"
    and "j < OPEN_MAX \<Longrightarrow> ft_fte (fte_put p e' s) t j = (if j = i then e' else ft_fte s t j)"
proof -
  have len: "length (ftp t) = OPEN_MAX" "distinct (ftp t)" using wf by (simp_all add: ft_wf_def)
  have other: "ftp t ! j \<noteq> Some p" if "j < OPEN_MAX" "j \<noteq> i" for j
    using that i p len nth_eq_iff_index_eq [of "ftp t" j i] by simp
  have "\<exists>q e a. ftp t ! j = Some q \<and> ft_heap (fte_put p e' s) q = Some e \<and> fte_lock e = Some a \<and>
      ft_locks (fte_put p e' s) a = Some lock_idle \<and> (fte_flag e = 0 \<or> fte_flag e = 1)" if j: "j < OPEN_MAX" for j
  proof (cases "j = i")
    case True
    then show ?thesis using ft_wfE [OF wf i] p lock flag by (auto simp: fte_put_def)
  next
    case False
    obtain q a where "ftp t ! j = Some q" "ft_heap s q = Some (ft_fte s t j)" "fte_lock (ft_fte s t j) = Some a"
      "ft_locks s a = Some lock_idle" "fte_flag (ft_fte s t j) = 0 \<or> fte_flag (ft_fte s t j) = 1"
      by (rule ft_wfE [OF wf j])
    then show ?thesis using other [OF j False] by (auto simp: fte_put_def)
  qed
  then show "ft_wf (fte_put p e' s) t" using len by (simp add: ft_wf_def)
  show "ft_fte (fte_put p e' s) t j = (if j = i then e' else ft_fte s t j)" if j: "j < OPEN_MAX"
  proof (cases "j = i")
    case False
    then have "the (ftp t ! j) \<noteq> p" using other [OF j False] ft_wfE [OF wf j] by (metis option.sel)
    then show ?thesis using False by (simp add: ft_fte_def fte_put_def)
  qed (simp add: ft_fte_def fte_put_def p)
qed

text \<open>One pass over a slot: take the lock, look, give it back.\<close>

lemma find_free_from_wf:
  assumes wf: "ft_wf s t"
  shows "find_free_from t i s = Done (case find_index (\<lambda>j. fte_flag (ft_fte s t j) = 0) [i..<OPEN_MAX] of
     None \<Rightarrow> - 1 | Some k \<Rightarrow> int (i + k), s)"
proof (induction "OPEN_MAX - i" arbitrary: i)
  case 0
  then show ?case by (simp add: find_free_from.simps)
next
  case (Suc n)
  then have i: "i < OPEN_MAX" by simp
  obtain p a where pa: "ftp t ! i = Some p" "ft_heap s p = Some (ft_fte s t i)"
    "fte_lock (ft_fte s t i) = Some a" "ft_locks s a = Some lock_idle"
    by (rule ft_wfE [OF wf i])
  note lk = fte_locked_update [OF pa(2-4) pa(3)]
  have get: "fte_get p (s\<lparr>ft_locks := h\<rparr>) = Done (ft_fte s t i)" for h using pa(2) by (simp add: fte_get_def)
  have upt: "[i..<OPEN_MAX] = i # [Suc i..<OPEN_MAX]" using i by (rule upt_conv_Cons)
  show ?case
    using i Suc.hyps(1) [of "Suc i"] Suc.hyps(2) pa(1)
    by (auto simp: find_free_from.simps [of t i] fte_ptr_wf [OF wf i] lk get upt split: option.splits)
qed

lemma findFirstFreeSpot_wf:
  assumes "ft_wf s t"
  shows "findFirstFreeSpot t s = Done (t\<lparr>firstFreeSpot := lowest_free s t\<rparr>, s)"
  using find_free_from_wf [OF assms, of 3] by (simp add: findFirstFreeSpot_def lowest_free_def)

lemma ft_wf_spot [simp]: "ft_wf s (t\<lparr>firstFreeSpot := i\<rparr>) = ft_wf s t" "ft_fte s (t\<lparr>firstFreeSpot := i\<rparr>) = ft_fte s t"
  "lowest_free s (t\<lparr>firstFreeSpot := i\<rparr>) = lowest_free s t" "fd_view s (t\<lparr>firstFreeSpot := i\<rparr>) = fd_view s t"
  by (auto simp: ft_wf_def ft_fte_def lowest_free_def fd_view_def)

text \<open>
  The common shape of \<open>addEntry\<close>, \<open>addIoEntry\<close> and \<open>clean_fd\<close>: one entry is rewritten under its lock and
  \<open>firstFreeSpot\<close> is found again.
\<close>

lemma rewrite_entry:
  assumes wf: "ft_wf s t" and i: "i < OPEN_MAX"
    and lock: "fte_lock (f (ft_fte s t i)) = fte_lock (ft_fte s t i)"
    and flag: "fte_flag (f (ft_fte s t i)) = 0 \<or> fte_flag (f (ft_fte s t i)) = 1"
  shows "\<exists>s'. bnd (fte_ptr t (int i)) (\<lambda>p. bnd (fte_acquire p s) (\<lambda>s. bnd (fte_get p s) (\<lambda>e.
      bnd (fte_release p (fte_put p (f e) s)) (\<lambda>s. findFirstFreeSpot t s))))
        = Done (t\<lparr>firstFreeSpot := lowest_free s' t\<rparr>, s')
    \<and> ft_wf s' t \<and> ft_me s' = ft_me s \<and> s' = fte_put (the (ftp t ! i)) (f (ft_fte s t i)) s
    \<and> (\<forall>j < OPEN_MAX. ft_fte s' t j = (if j = i then f (ft_fte s t i) else ft_fte s t j))"
proof -
  obtain p a where pa: "ftp t ! i = Some p" "ft_heap s p = Some (ft_fte s t i)"
    "fte_lock (ft_fte s t i) = Some a" "ft_locks s a = Some lock_idle"
    by (rule ft_wfE [OF wf i])
  let ?s' = "fte_put p (f (ft_fte s t i)) s"
  have get: "fte_get p (s\<lparr>ft_locks := h\<rparr>) = Done (ft_fte s t i)" for h using pa(2) by (simp add: fte_get_def)
  have "fte_lock (f (ft_fte s t i)) = Some a" using lock pa(3) by simp
  note lk = fte_locked_update [OF pa(2-4) this]
  note put = ft_wf_put [OF wf i pa(1) lock flag]
  show ?thesis
    using put by (intro exI [of _ ?s']) (simp add: fte_ptr_wf [OF wf i] pa(1) lk get findFirstFreeSpot_wf, simp add: fte_put_def)
qed

section \<open>The operations on the view\<close>

lemma fd_view_None: "ft_wf s t \<Longrightarrow> fd < OPEN_MAX \<Longrightarrow> fd_view s t fd = None \<longleftrightarrow> fte_flag (ft_fte s t fd) = 0"
  by (erule (1) ft_wfE) (auto simp: fd_view_def)

lemma lowest_free_cases [consumes 1, case_names full free]:
  assumes wf: "ft_wf s t"
  obtains (full) "lowest_free s t = - 1" "\<And>i. 3 \<le> i \<Longrightarrow> i < OPEN_MAX \<Longrightarrow> fd_view s t i \<noteq> None"
  | (free) k where "lowest_free s t = int k" "3 \<le> k" "k < OPEN_MAX" "fd_view s t k = None"
      "\<And>i. 3 \<le> i \<Longrightarrow> i < k \<Longrightarrow> fd_view s t i \<noteq> None"
proof (cases "find_index (\<lambda>i. fte_flag (ft_fte s t i) = 0) [3..<OPEN_MAX]")
  case None
  then have "fte_flag (ft_fte s t i) \<noteq> 0" if "3 \<le> i" "i < OPEN_MAX" for i
    using that by (auto simp: find_index_None)
  then show ?thesis using full None fd_view_None [OF wf] by (simp add: lowest_free_def)
next
  case (Some j)
  then have j: "3 + j < OPEN_MAX" "fte_flag (ft_fte s t (3 + j)) = 0"
    "\<And>i. i < j \<Longrightarrow> fte_flag (ft_fte s t (3 + i)) \<noteq> 0"
    by (auto simp: find_index_Some)
  show ?thesis
  proof (rule free [of "3 + j"])
    fix i :: nat assume i: "3 \<le> i" "i < 3 + j"
    then have "fte_flag (ft_fte s t i) \<noteq> 0" using j(3) [of "i - 3"] by simp
    then show "fd_view s t i \<noteq> None" using fd_view_None [OF wf, of i] i j(1) by simp
  qed (use Some j fd_view_None [OF wf, of "3 + j"] in \<open>simp_all add: lowest_free_def\<close>)
qed

lemma fd_view_rewrite:
  assumes "\<forall>j < OPEN_MAX. ft_fte s' t j = (if j = i then e else ft_fte s t j)" and "i < OPEN_MAX"
  shows "fd_view s' t = (fd_view s t)(i := if fte_flag e = 1 then Some (fte_file e, fte_offset e, fte_perm e) else None)"
  using assms by (auto simp: fd_view_def fun_eq_iff split: if_splits)

lemma addEntry_shape:
  "firstFreeSpot t \<noteq> - 1 \<Longrightarrow> addEntry t perm off vn s =
     bnd (bnd (fte_ptr t (firstFreeSpot t)) (\<lambda>p. bnd (fte_acquire p s) (\<lambda>s. bnd (fte_get p s) (\<lambda>e.
       bnd (fte_release p (fte_put p (e\<lparr>fte_flag := 1, fte_file := Some vn, fte_offset := off, fte_perm := perm\<rparr>) s))
         (\<lambda>s. findFirstFreeSpot t s)))))
       (\<lambda>(t', s). Done (EOK, False, Some (firstFreeSpot t), t', s))"
  by (simp add: addEntry_def bnd_assoc Let_def)

text \<open>
  A new descriptor takes the lowest free slot from 3 on, and only that slot changes.
\<close>

lemma addEntry_ok:
  assumes ok: "ft_ok s t"
  shows "(\<forall>i. 3 \<le> i \<and> i < OPEN_MAX \<longrightarrow> fd_view s t i \<noteq> None) \<and> addEntry t perm off vn s = Done (ENOMEM, True, None, t, s) \<or>
    (\<exists>k t' s'. addEntry t perm off vn s = Done (EOK, False, Some (int k), t', s') \<and> ft_ok s' t' \<and> ft_me s' = ft_me s
       \<and> 3 \<le> k \<and> k < OPEN_MAX \<and> fd_view s t k = None \<and> (\<forall>i. 3 \<le> i \<and> i < k \<longrightarrow> fd_view s t i \<noteq> None)
       \<and> fd_view s' t' = (fd_view s t)(k \<mapsto> (Some vn, off, perm)))"
proof -
  have wf: "ft_wf s t" and ffs: "firstFreeSpot t = lowest_free s t" using ok by (simp_all add: ft_ok_def)
  from wf show ?thesis
  proof (cases rule: lowest_free_cases)
    case full
    then show ?thesis using ffs by (simp add: addEntry_def)
  next
    case (free k)
    from rewrite_entry [OF wf free(3), of "\<lambda>e. e\<lparr>fte_flag := 1, fte_file := Some vn, fte_offset := off, fte_perm := perm\<rparr>"]
    obtain s' where s': "bnd (fte_ptr t (int k)) (\<lambda>p. bnd (fte_acquire p s) (\<lambda>s. bnd (fte_get p s) (\<lambda>e.
        bnd (fte_release p (fte_put p (e\<lparr>fte_flag := 1, fte_file := Some vn, fte_offset := off, fte_perm := perm\<rparr>) s))
          (\<lambda>s. findFirstFreeSpot t s)))) = Done (t\<lparr>firstFreeSpot := lowest_free s' t\<rparr>, s')"
      "ft_wf s' t" "ft_me s' = ft_me s"
      "\<forall>j < OPEN_MAX. ft_fte s' t j = (if j = k then (ft_fte s t k)\<lparr>fte_flag := 1, fte_file := Some vn, fte_offset := off, fte_perm := perm\<rparr>
         else ft_fte s t j)" by auto
    have "addEntry t perm off vn s = Done (EOK, False, Some (int k), t\<lparr>firstFreeSpot := lowest_free s' t\<rparr>, s')"
      using addEntry_shape [of t perm off vn s] s'(1) ffs free(1) by simp
    moreover have "ft_ok s' (t\<lparr>firstFreeSpot := lowest_free s' t\<rparr>)" using s'(2) by (simp add: ft_ok_def)
    moreover have "fd_view s' (t\<lparr>firstFreeSpot := lowest_free s' t\<rparr>) = (fd_view s t)(k \<mapsto> (Some vn, off, perm))"
      using fd_view_rewrite [OF s'(4) free(3)] by simp
    ultimately show ?thesis using free s'(3) by blast
  qed
qed

lemma addIoEntry_ok:
  assumes wf: "ft_wf s t" and fd: "fd < OPEN_MAX"
  shows "\<exists>t' s'. addIoEntry t perm vn (int fd) s = Done (t', s') \<and> ft_ok s' t' \<and> ft_me s' = ft_me s
    \<and> fd_view s' t' = (fd_view s t)(fd \<mapsto> (Some vn, 0, perm))"
proof -
  from rewrite_entry [OF wf fd, of "\<lambda>e. e\<lparr>fte_flag := 1, fte_file := Some vn, fte_offset := 0, fte_perm := perm\<rparr>"]
  obtain s' where s': "addIoEntry t perm vn (int fd) s = Done (t\<lparr>firstFreeSpot := lowest_free s' t\<rparr>, s')"
    "ft_wf s' t" "ft_me s' = ft_me s"
    "\<forall>j < OPEN_MAX. ft_fte s' t j = (if j = fd then (ft_fte s t fd)\<lparr>fte_flag := 1, fte_file := Some vn, fte_offset := 0, fte_perm := perm\<rparr>
       else ft_fte s t j)" by (auto simp: addIoEntry_def Let_def)
  then show ?thesis using fd_view_rewrite [OF s'(4) fd] by (simp add: ft_ok_def)
qed

lemma clean_fd_ok:
  assumes wf: "ft_wf s t" and fd: "fd < OPEN_MAX"
  shows "\<exists>t' s'. clean_fd t (int fd) s = Done (t', s') \<and> ft_ok s' t' \<and> ft_me s' = ft_me s
    \<and> fd_view s' t' = (fd_view s t)(fd := None)"
proof -
  from rewrite_entry [OF wf fd, of "\<lambda>e. e\<lparr>fte_flag := 0, fte_file := None, fte_offset := 0, fte_perm := 0\<rparr>"]
  obtain s' where s': "clean_fd t (int fd) s = Done (t\<lparr>firstFreeSpot := lowest_free s' t\<rparr>, s')"
    "ft_wf s' t" "ft_me s' = ft_me s"
    "\<forall>j < OPEN_MAX. ft_fte s' t j = (if j = fd then (ft_fte s t fd)\<lparr>fte_flag := 0, fte_file := None, fte_offset := 0, fte_perm := 0\<rparr>
       else ft_fte s t j)" by (auto simp: clean_fd_def Let_def)
  then show ?thesis using fd_view_rewrite [OF s'(4) fd] by (simp add: ft_ok_def)
qed

lemma isValid_ok:
  assumes wf: "ft_wf s t" and fd: "fd < OPEN_MAX"
  shows "isValid t (int fd) s = Done (\<exists>f off perm. fd_view s t fd = Some (f, off, perm) \<and> (perm = 1 \<or> perm = 3), s)"
proof -
  obtain p a where pa: "ftp t ! fd = Some p" "ft_heap s p = Some (ft_fte s t fd)"
    "fte_lock (ft_fte s t fd) = Some a" "ft_locks s a = Some lock_idle"
    by (rule ft_wfE [OF wf fd])
  note lk = fte_locked_update [OF pa(2-4) pa(3)]
  have get: "fte_get p (s\<lparr>ft_locks := h\<rparr>) = Done (ft_fte s t fd)" for h using pa(2) by (simp add: fte_get_def)
  show ?thesis
    using fd by (simp add: isValid_def fte_ptr_wf [OF wf fd] pa(1) lk get fd_view_def)
qed

text \<open>
  Duplicating: the new descriptor becomes a copy of the old one. A table with no free slot from 3 on is
  refused, even when the new descriptor is free or was just closed.
\<close>

lemma addDupEntry_ok:
  assumes ok: "ft_ok s t" and old: "old < OPEN_MAX" and new: "new < OPEN_MAX" and ne: "old \<noteq> new"
  shows "if fd_view s t old = None then addDupEntry t (int old) (int new) s = Done (EBADF, None, t, s)
    else if firstFreeSpot t = - 1 then addDupEntry t (int old) (int new) s = Done (ENFILE, None, t, s)
    else \<exists>t' s'. addDupEntry t (int old) (int new) s = Done (EOK, Some (int new), t', s') \<and> ft_ok s' t'
           \<and> ft_me s' = ft_me s \<and> fd_view s' t' = (fd_view s t)(new := fd_view s t old)"
proof -
  have wf: "ft_wf s t" using ok by (simp add: ft_ok_def)
  obtain p a where pa: "ftp t ! old = Some p" "ft_heap s p = Some (ft_fte s t old)"
    "fte_lock (ft_fte s t old) = Some a" "ft_locks s a = Some lock_idle"
    by (rule ft_wfE [OF wf old])
  note lko = fte_locked_update [OF pa(2-4) pa(3)]
  have geto: "fte_get p (s\<lparr>ft_locks := h\<rparr>) = Done (ft_fte s t old)" for h using pa(2) by (simp add: fte_get_def)
  obtain q b where qb: "ftp t ! new = Some q" "ft_heap s q = Some (ft_fte s t new)"
    "fte_lock (ft_fte s t new) = Some b" "ft_locks s b = Some lock_idle"
    by (rule ft_wfE [OF wf new])
  let ?e = "(ft_fte s t new)\<lparr>fte_perm := fte_perm (ft_fte s t old), fte_file := fte_file (ft_fte s t old),
    fte_offset := fte_offset (ft_fte s t old), fte_flag := 1\<rparr>"
  let ?s' = "fte_put q ?e s"
  have "fte_lock ?e = Some b" using qb(3) by simp
  note lkn = fte_locked_update [OF qb(2-4) this]
  have getn: "fte_get q (s\<lparr>ft_locks := h\<rparr>) = Done (ft_fte s t new)" for h using qb(2) by (simp add: fte_get_def)
  have put: "ft_wf ?s' t" "j < OPEN_MAX \<Longrightarrow> ft_fte ?s' t j = (if j = new then ?e else ft_fte s t j)" for j
    using ft_wf_put [OF wf new qb(1), of ?e] by simp_all
  then have view: "fd_view ?s' t = (fd_view s t)(new := Some (fte_file ?e, fte_offset ?e, fte_perm ?e))"
    using fd_view_rewrite [of ?s' t new ?e s] new by simp
  have flag01: "fte_flag (ft_fte s t old) = 0 \<or> fte_flag (ft_fte s t old) = 1" by (rule ft_wfE [OF wf old])
  have flag: "fd_view s t old = None \<longleftrightarrow> fte_flag (ft_fte s t old) = 0" by (rule fd_view_None [OF wf old])
  show ?thesis
  proof (cases "fte_flag (ft_fte s t old) = 0 \<or> firstFreeSpot t = - 1")
    case True
    then show ?thesis
      using flag ne by (auto simp: addDupEntry_def fte_ptr_wf [OF wf old] pa(1) lko geto)
  next
    case False
    have "addDupEntry t (int old) (int new) s = Done (EOK, Some (int new), t\<lparr>firstFreeSpot := lowest_free ?s' t\<rparr>, ?s')"
      using False ne put(1)
      by (simp add: addDupEntry_def fte_ptr_wf [OF wf old] fte_ptr_wf [OF wf new] pa(1) qb(1) lko geto lkn getn findFirstFreeSpot_wf)
    moreover have "fd_view s t old = Some (fte_file ?e, fte_offset ?e, fte_perm ?e)"
      using False old flag01 by (simp add: fd_view_def)
    ultimately show ?thesis
      using False flag put(1) view by (simp add: ft_ok_def) (simp add: fte_put_def)
  qed
qed

section \<open>The contract of a descriptor table\<close>

text \<open>
  What the system calls rely on: a table means a partial function from descriptors to files, and its
  operations change that function at one descriptor.
\<close>

locale descriptor_table =
  fixes ok :: "'s \<Rightarrow> 't \<Rightarrow> bool"
    and view :: "'s \<Rightarrow> 't \<Rightarrow> nat \<Rightarrow> (nat option \<times> int \<times> int) option"
    and size :: nat
    and add :: "'t \<Rightarrow> int \<Rightarrow> int \<Rightarrow> nat \<Rightarrow> 's \<Rightarrow> (errno \<times> bool \<times> int option \<times> 't \<times> 's) outcome"
    and clean :: "'t \<Rightarrow> int \<Rightarrow> 's \<Rightarrow> ('t \<times> 's) outcome"
  assumes add_law: "ok s t \<Longrightarrow>
      (\<forall>i. 3 \<le> i \<and> i < size \<longrightarrow> view s t i \<noteq> None) \<and> add t perm off vn s = Done (ENOMEM, True, None, t, s) \<or>
      (\<exists>k t' s'. add t perm off vn s = Done (EOK, False, Some (int k), t', s') \<and> ok s' t'
         \<and> 3 \<le> k \<and> k < size \<and> view s t k = None \<and> (\<forall>i. 3 \<le> i \<and> i < k \<longrightarrow> view s t i \<noteq> None)
         \<and> view s' t' = (view s t)(k \<mapsto> (Some vn, off, perm)))"
    and clean_law: "ok s t \<Longrightarrow> fd < size \<Longrightarrow>
      \<exists>t' s'. clean t (int fd) s = Done (t', s') \<and> ok s' t' \<and> view s' t' = (view s t)(fd := None)"
begin

text \<open>A descriptor that was free is free again once it is cleaned, and nothing else changed.\<close>

lemma add_clean:
  assumes "ok s t" and "add t perm off vn s = Done (EOK, False, Some fd, t', s')"
  shows "\<exists>t'' s''. clean t' fd s' = Done (t'', s'') \<and> ok s'' t'' \<and> view s'' t'' = view s t"
  using add_law [OF assms(1), of perm off vn] assms(2)
proof (elim disjE exE conjE)
  fix k t2 s2 assume *: "add t perm off vn s = Done (EOK, False, Some (int k), t2, s2)" "ok s2 t2" "k < size"
    "view s t k = None" "view s2 t2 = (view s t)(k \<mapsto> (Some vn, off, perm))"
  then have [simp]: "fd = int k" "t2 = t'" "s2 = s'" using assms(2) by simp_all
  have "(view s t)(k := None) = view s t" using *(4) by (simp add: fun_upd_idem)
  then show ?thesis using clean_law [of s' t' k] * by auto
qed simp

text \<open>Two descriptors that are added one after the other differ.\<close>

lemma add_twice:
  assumes "ok s t" and "add t perm off vn s = Done (EOK, False, Some fd, t', s')"
    and "add t' perm2 off2 vn2 s' = Done (EOK, False, Some fd2, t2, s2)"
  shows "fd \<noteq> fd2"
proof -
  have "ok s' t'" "view s' t' (nat fd) \<noteq> None" "0 \<le> fd"
    using add_law [OF assms(1), of perm off vn] assms(2) by auto
  then show ?thesis using add_law [of s' t' perm2 off2 vn2] assms(3) by auto
qed

end

interpretation fdt: descriptor_table ft_ok fd_view OPEN_MAX addEntry clean_fd
proof unfold_locales
  fix s t perm off vn
  assume "ft_ok s t"
  from addEntry_ok [OF this, of perm off vn]
  show "(\<forall>i. 3 \<le> i \<and> i < OPEN_MAX \<longrightarrow> fd_view s t i \<noteq> None) \<and> addEntry t perm off vn s = Done (ENOMEM, True, None, t, s) \<or>
    (\<exists>k t' s'. addEntry t perm off vn s = Done (EOK, False, Some (int k), t', s') \<and> ft_ok s' t'
       \<and> 3 \<le> k \<and> k < OPEN_MAX \<and> fd_view s t k = None \<and> (\<forall>i. 3 \<le> i \<and> i < k \<longrightarrow> fd_view s t i \<noteq> None)
       \<and> fd_view s' t' = (fd_view s t)(k \<mapsto> (Some vn, off, perm)))"
    by blast
next
  fix s t fd
  assume "ft_ok s t" "fd < OPEN_MAX"
  then show "\<exists>t' s'. clean_fd t (int fd) s = Done (t', s') \<and> ft_ok s' t' \<and> fd_view s' t' = (fd_view s t)(fd := None)"
    using clean_fd_ok [of s t fd] by (auto simp: ft_ok_def)
qed

section \<open>Creation and fork\<close>

text \<open>
  \<open>ft_init\<close>, when every allocation succeeds and hands out new blocks: a well-formed table with no open
  descriptor.
\<close>

definition ft_blocks :: "(nat \<Rightarrow> nat option) \<Rightarrow> (nat \<Rightarrow> nat option) \<Rightarrow> bool" where
  "ft_blocks fte_at lk_at \<longleftrightarrow> (\<forall>i < OPEN_MAX. fte_at i \<noteq> None \<and> lk_at i \<noteq> None) \<and>
     inj_on fte_at {..<OPEN_MAX} \<and> inj_on lk_at {..<OPEN_MAX}"

abbreviation fte_new :: "nat option \<Rightarrow> fte" where
  "fte_new l \<equiv> \<lparr>fte_flag = 0, fte_file = None, fte_offset = 0, fte_perm = 0, fte_lock = l\<rparr>"

definition init_inv :: "(nat \<Rightarrow> nat option) \<Rightarrow> (nat \<Rightarrow> nat option) \<Rightarrow> nat \<Rightarrow> ftable \<Rightarrow> ftstate \<Rightarrow> bool" where
  "init_inv fte_at lk_at i t s \<longleftrightarrow> length (ftp t) = OPEN_MAX \<and>
     (\<forall>j < i. ftp t ! j = fte_at j \<and> ft_heap s (the (fte_at j)) = Some (fte_new (lk_at j))
        \<and> ft_locks s (the (lk_at j)) = Some lock_idle)"

lemma ft_init_from_ok:
  assumes blk: "ft_blocks fte_at lk_at" and "i \<le> OPEN_MAX" and "init_inv fte_at lk_at i t s"
  shows "\<exists>t' s'. ft_init_from fte_at lk_at i t s = Done (t', s') \<and> init_inv fte_at lk_at OPEN_MAX t' s'
    \<and> firstFreeSpot t' = firstFreeSpot t \<and> ft_me s' = ft_me s
    \<and> (\<forall>p. Some p \<notin> fte_at ` {..<OPEN_MAX} \<longrightarrow> ft_heap s' p = ft_heap s p)
    \<and> (\<forall>a. Some a \<notin> lk_at ` {..<OPEN_MAX} \<longrightarrow> ft_locks s' a = ft_locks s a)"
  using assms(2,3)
proof (induction "OPEN_MAX - i" arbitrary: i t s)
  case 0
  then show ?case by (simp add: ft_init_from.simps)
next
  case (Suc n)
  then have i: "i < OPEN_MAX" by simp
  then obtain p a where pa: "fte_at i = Some p" "lk_at i = Some a" using blk by (auto simp: ft_blocks_def)
  let ?s = "(fte_put p (fte_new (Some a)) s)\<lparr>ft_locks := (ft_locks s)(a \<mapsto> lock_idle)\<rparr>"
  let ?t = "t\<lparr>ftp := (ftp t)[i := Some p]\<rparr>"
  have ne: "the (fte_at j) \<noteq> p" if "j < i" for j
  proof
    assume "the (fte_at j) = p"
    moreover have "j < OPEN_MAX" "fte_at j \<noteq> None" using that i blk by (auto simp: ft_blocks_def)
    ultimately have "fte_at j = fte_at i" using pa(1) by auto
    then show False using blk that i \<open>j < OPEN_MAX\<close> by (auto simp: ft_blocks_def inj_on_def)
  qed
  have inv: "init_inv fte_at lk_at (Suc i) ?t ?s"
    using Suc.prems(2) i pa ne by (auto simp: init_inv_def fte_put_def less_Suc_eq nth_list_update)
  have len: "length (ftp t) = OPEN_MAX" using Suc.prems(2) by (simp add: init_inv_def)
  have step: "ft_init_from fte_at lk_at i t s = ft_init_from fte_at lk_at (Suc i) ?t ?s"
    using i pa len by (simp add: ft_init_from.simps [of _ _ i] fte_put_def)
  have "n = OPEN_MAX - Suc i" "Suc i \<le> OPEN_MAX" using Suc.hyps(2) i by simp_all
  from Suc.hyps(1) [OF this inv] obtain t' s' where r: "ft_init_from fte_at lk_at (Suc i) ?t ?s = Done (t', s')"
    "init_inv fte_at lk_at OPEN_MAX t' s'" "firstFreeSpot t' = firstFreeSpot t" "ft_me s' = ft_me s"
    "\<forall>q. Some q \<notin> fte_at ` {..<OPEN_MAX} \<longrightarrow> ft_heap s' q = ft_heap ?s q"
    "\<forall>b. Some b \<notin> lk_at ` {..<OPEN_MAX} \<longrightarrow> ft_locks s' b = ft_locks ?s b"
    by (auto simp: fte_put_def)
  have own: "Some p \<in> fte_at ` {..<OPEN_MAX}" "Some a \<in> lk_at ` {..<OPEN_MAX}"
    using i pa by (metis imageI lessThan_iff)+
  have "ft_heap ?s q = ft_heap s q" if "Some q \<notin> fte_at ` {..<OPEN_MAX}" for q using that own(1) by (auto simp: fte_put_def)
  moreover have "ft_locks ?s b = ft_locks s b" if "Some b \<notin> lk_at ` {..<OPEN_MAX}" for b using that own(2) by auto
  ultimately show ?case unfolding step using r by (intro exI [of _ t'] exI [of _ s']) simp
qed

text \<open>The blocks that are handed out are the only ones that change.\<close>

lemma ft_init_fresh:
  assumes blk: "ft_blocks fte_at lk_at"
  obtains t s' where "ft_init True fte_at lk_at s = Done (t, s')" and "ft_wf s' t" and "\<And>fd. fd_view s' t fd = None" and "ft_me s' = ft_me s"
    and "\<And>p. Some p \<notin> fte_at ` {..<OPEN_MAX} \<Longrightarrow> ft_heap s' p = ft_heap s p"
    and "\<And>a. Some a \<notin> lk_at ` {..<OPEN_MAX} \<Longrightarrow> ft_locks s' a = ft_locks s a"
    and "\<And>j. j < OPEN_MAX \<Longrightarrow> ftp t ! j = fte_at j \<and> fte_lock (ft_fte s' t j) = lk_at j"
proof -
  have "init_inv fte_at lk_at 0 \<lparr>ftp = replicate OPEN_MAX None, firstFreeSpot = 0\<rparr> s" by (simp add: init_inv_def)
  from ft_init_from_ok [OF blk _ this] obtain t s' where
    run: "ft_init True fte_at lk_at s = Done (t, s')" and inv: "init_inv fte_at lk_at OPEN_MAX t s'" "ft_me s' = ft_me s"
    and frame: "\<forall>p. Some p \<notin> fte_at ` {..<OPEN_MAX} \<longrightarrow> ft_heap s' p = ft_heap s p"
      "\<forall>a. Some a \<notin> lk_at ` {..<OPEN_MAX} \<longrightarrow> ft_locks s' a = ft_locks s a"
    by (auto simp: ft_init_def)
  have fte: "ft_fte s' t j = fte_new (lk_at j)" if "j < OPEN_MAX" for j
    using inv that by (simp add: init_inv_def ft_fte_def)
  have "distinct (ftp t)"
    using inv blk by (auto simp: distinct_conv_nth init_inv_def ft_blocks_def inj_on_def)
  then have "ft_wf s' t"
    using inv blk by (fastforce simp: ft_wf_def init_inv_def ft_blocks_def)
  moreover have "fd_view s' t fd = None" for fd using fte by (simp add: fd_view_def)
  moreover have "ftp t ! j = fte_at j \<and> fte_lock (ft_fte s' t j) = lk_at j" if "j < OPEN_MAX" for j
    using inv(1) fte [OF that] that by (simp add: init_inv_def)
  ultimately show thesis using that [OF run _ _ inv(2)] frame by blast
qed

lemma ft_init_ok:
  assumes blk: "ft_blocks fte_at lk_at"
  shows "\<exists>t s'. ft_init True fte_at lk_at s = Done (t, s') \<and> ft_wf s' t \<and> (\<forall>fd. fd_view s' t fd = None) \<and> ft_me s' = ft_me s"
  by (rule ft_init_fresh [OF blk]) blast

text \<open>
  \<open>fork_ft\<close>. The two tables share nothing beforehand. Where the parent has an open descriptor the child
  gets a pointer to the same entry, and the lock of the entry the child had there stays taken.
\<close>

definition ft_lock :: "ftstate \<Rightarrow> ftable \<Rightarrow> nat \<Rightarrow> nat" where
  "ft_lock s t i = the (fte_lock (ft_fte s t i))"

definition ft_apart :: "ftstate \<Rightarrow> ftable \<Rightarrow> ftable \<Rightarrow> bool" where
  "ft_apart s t c \<longleftrightarrow> set (ftp t) \<inter> set (ftp c) = {} \<and> inj_on (ft_lock s c) {..<OPEN_MAX} \<and>
     (\<forall>i < OPEN_MAX. \<forall>j < OPEN_MAX. ft_lock s t i \<noteq> ft_lock s c j)"

definition fork_table :: "ftstate \<Rightarrow> ftable \<Rightarrow> ftable \<Rightarrow> nat \<Rightarrow> ftable" where
  "fork_table s t c i = c\<lparr>ftp := map (\<lambda>j. if j < i \<and> fte_flag (ft_fte s t j) = 1 then ftp t ! j else ftp c ! j) [0..<OPEN_MAX]\<rparr>"

definition fork_locks :: "ftstate \<Rightarrow> ftable \<Rightarrow> ftable \<Rightarrow> nat \<Rightarrow> lock_heap" where
  "fork_locks s t c i = (\<lambda>a. if \<exists>j < i. fte_flag (ft_fte s t j) = 1 \<and> a = ft_lock s c j
     then Some (lock_mine (ft_me s)) else ft_locks s a)"

lemma fork_table_Suc:
  assumes "i < OPEN_MAX"
  shows "fork_table s t c (Suc i) = (if fte_flag (ft_fte s t i) = 1
     then (fork_table s t c i)\<lparr>ftp := (ftp (fork_table s t c i))[i := ftp t ! i]\<rparr> else fork_table s t c i)"
proof (cases "fte_flag (ft_fte s t i) = 1")
  case True
  then show ?thesis using assms by (auto simp: fork_table_def less_Suc_eq list_eq_iff_nth_eq nth_list_update)
next
  case False
  then have "(j < Suc i \<and> fte_flag (ft_fte s t j) = 1) = (j < i \<and> fte_flag (ft_fte s t j) = 1)" for j
    by (auto simp: less_Suc_eq)
  then show ?thesis using False by (simp add: fork_table_def)
qed

lemma fork_ft_from_run:
  assumes t: "ft_wf s t" and c: "ft_wf s c" and ap: "ft_apart s t c" and "i \<le> OPEN_MAX"
  shows "fork_ft_from t i (fork_table s t c i) (s\<lparr>ft_locks := fork_locks s t c i\<rparr>)
    = Done (fork_table s t c OPEN_MAX, s\<lparr>ft_locks := fork_locks s t c OPEN_MAX\<rparr>)"
  using assms(4)
proof (induction "OPEN_MAX - i" arbitrary: i)
  case 0
  then show ?case by (simp add: fork_ft_from.simps)
next
  case (Suc n)
  then have i: "i < OPEN_MAX" by simp
  obtain p a where pa: "ftp t ! i = Some p" "ft_heap s p = Some (ft_fte s t i)"
    "fte_lock (ft_fte s t i) = Some a" "ft_locks s a = Some lock_idle"
    "fte_flag (ft_fte s t i) = 0 \<or> fte_flag (ft_fte s t i) = 1" by (rule ft_wfE [OF t i])
  obtain q b where qb: "ftp c ! i = Some q" "ft_heap s q = Some (ft_fte s c i)"
    "fte_lock (ft_fte s c i) = Some b" "ft_locks s b = Some lock_idle" by (rule ft_wfE [OF c i])
  let ?h = "fork_locks s t c i"
  have a: "ft_lock s t i = a" and b: "ft_lock s c i = b" using pa(3) qb(3) by (simp_all add: ft_lock_def)
  have ab: "a \<noteq> b" using ap i a b by (auto simp: ft_apart_def)
  have ha: "?h a = Some lock_idle" using ap i a pa(4) by (auto simp: fork_locks_def ft_apart_def)
  have "b \<noteq> ft_lock s c j" if "j < i" for j
    using ap i b that inj_onD [of "ft_lock s c" "{..<OPEN_MAX}" i j] by (auto simp: ft_apart_def)
  then have hb: "?h b = Some lock_idle" using qb(4) by (auto simp: fork_locks_def)
  have len: "length (ftp t) = OPEN_MAX" using t by (simp add: ft_wf_def)
  have ptrs: "fte_ptr t (int i) = Done p" "fte_ptr (fork_table s t c i) (int i) = Done q"
    "fte_ptr ((fork_table s t c i)\<lparr>ftp := (ftp (fork_table s t c i))[i := Some p]\<rparr>) (int i) = Done p"
    using i len pa(1) qb(1) by (simp_all add: fte_ptr_def fork_table_def)
  have idem: "?h(a \<mapsto> lock_idle) = ?h" "?h(b \<mapsto> lock_idle) = ?h" using ha hb by (simp_all add: fun_upd_idem)
  have twist: "?h(a \<mapsto> x, b \<mapsto> y, a \<mapsto> lock_idle) = ?h(b \<mapsto> y)" "?h(b \<mapsto> y, a \<mapsto> lock_idle) = ?h(b \<mapsto> y)" for x y
    using ab ha by (auto simp: fun_eq_iff)
  have next_h: "fork_locks s t c (Suc i) = (if fte_flag (ft_fte s t i) = 1 then ?h(b \<mapsto> lock_mine (ft_me s)) else ?h)"
    using b by (auto simp: fork_locks_def less_Suc_eq fun_eq_iff)
  have "n = OPEN_MAX - Suc i" "Suc i \<le> OPEN_MAX" using Suc.hyps(2) i by simp_all
  note IH = Suc.hyps(1) [OF this]
  show ?case
  proof (cases "fte_flag (ft_fte s t i) = 1")
    case True
    have "fork_ft_from t i (fork_table s t c i) (s\<lparr>ft_locks := ?h\<rparr>) =
        fork_ft_from t (Suc i) (fork_table s t c (Suc i)) (s\<lparr>ft_locks := fork_locks s t c (Suc i)\<rparr>)"
      using i ab ha hb True
      by (simp add: fork_ft_from.simps [of t i] ptrs fte_acquire_def fte_release_def fte_get_def pa(1-3) qb(2,3)
          lock_release_any(1) [of _ _ "ft_me s"] lock_release_any(2) twist next_h fork_table_Suc [OF i] Let_def)
    then show ?thesis using IH by simp
  next
    case False
    have "fork_ft_from t i (fork_table s t c i) (s\<lparr>ft_locks := ?h\<rparr>) =
        fork_ft_from t (Suc i) (fork_table s t c (Suc i)) (s\<lparr>ft_locks := fork_locks s t c (Suc i)\<rparr>)"
      using i ab ha hb False
      by (simp add: fork_ft_from.simps [of t i] ptrs fte_acquire_def fte_release_def fte_get_def pa(2,3) qb(2,3)
          lock_release_any(1) [of _ _ "ft_me s"] twist idem next_h fork_table_Suc [OF i] Let_def)
    then show ?thesis using IH by simp
  qed
qed

lemma ft_wf_lock: "ft_wf s t \<Longrightarrow> j < OPEN_MAX \<Longrightarrow> ft_locks s (ft_lock s t j) = Some lock_idle"
  by (erule (1) ft_wfE) (simp add: ft_lock_def)

lemma ft_wf_slot:
  assumes "ft_wf s t" and "i < OPEN_MAX"
  shows "\<exists>p. ftp t ! i = Some p \<and> ft_heap s p = Some (ft_fte s t i)
    \<and> fte_lock (ft_fte s t i) = Some (ft_lock s t i) \<and> (fte_flag (ft_fte s t i) = 0 \<or> fte_flag (ft_fte s t i) = 1)"
  by (rule ft_wfE [OF assms]) (simp add: ft_lock_def)

lemma fork_ft_ok:
  assumes t: "ft_wf s t" and c: "ft_wf s c" and ap: "ft_apart s t c"
  shows "\<exists>c' s'. fork_ft t c s = Done (c', s') \<and> ft_ok s' c' \<and> ft_wf s' t \<and> fd_view s' t = fd_view s t
    \<and> (\<forall>i. fd_view s' c' i = (if fd_view s t i \<noteq> None then fd_view s t i else fd_view s c i))
    \<and> (\<forall>i < OPEN_MAX. fd_view s t i \<noteq> None \<longrightarrow> ftp c' ! i = ftp t ! i) \<and> s' = s\<lparr>ft_locks := fork_locks s t c OPEN_MAX\<rparr>"
proof -
  let ?s = "s\<lparr>ft_locks := fork_locks s t c OPEN_MAX\<rparr>" and ?c = "fork_table s t c OPEN_MAX"
  have start: "fork_table s t c 0 = c" "s\<lparr>ft_locks := fork_locks s t c 0\<rparr> = s"
    using c map_nth [of "ftp c"] by (simp_all add: fork_table_def fork_locks_def ft_wf_def)
  have run: "fork_ft_from t 0 c s = Done (?c, ?s)"
    using fork_ft_from_run [OF t c ap, of 0] start by simp
  have fte: "ft_fte ?s t j = ft_fte s t j"
    "j < OPEN_MAX \<Longrightarrow> ft_fte ?s ?c j = (if fte_flag (ft_fte s t j) = 1 then ft_fte s t j else ft_fte s c j)" for j
    by (simp_all add: ft_fte_def fork_table_def)
  have lock_t: "ft_locks ?s (ft_lock s t j) = Some lock_idle" if j: "j < OPEN_MAX" for j
    using ap j ft_wf_lock [OF t j] by (auto simp: fork_locks_def ft_apart_def)
  have lock_c: "ft_locks ?s (ft_lock s c j) = Some lock_idle" if j: "j < OPEN_MAX" "fte_flag (ft_fte s t j) \<noteq> 1" for j
  proof -
    have "ft_lock s c j \<noteq> ft_lock s c i" if "i < OPEN_MAX" "fte_flag (ft_fte s t i) = 1" for i
      using ap j that inj_onD [of "ft_lock s c" "{..<OPEN_MAX}" j i] by (auto simp: ft_apart_def)
    then show ?thesis using ft_wf_lock [OF c j(1)] by (auto simp: fork_locks_def)
  qed
  have wft: "ft_wf ?s t"
    using t lock_t by (fastforce simp: ft_wf_def ft_lock_def ft_fte_def)
  have len: "length (ftp t) = OPEN_MAX" "distinct (ftp t)" "length (ftp c) = OPEN_MAX" "distinct (ftp c)"
    using t c by (simp_all add: ft_wf_def)
  have dist: "ftp ?c ! i \<noteq> ftp ?c ! j" if "i < OPEN_MAX" "j < OPEN_MAX" "i \<noteq> j" for i j
  proof -
    have "x \<noteq> y" if "x \<in> set (ftp t)" "y \<in> set (ftp c)" for x y using ap that by (auto simp: ft_apart_def)
    moreover have "ftp t ! k \<in> set (ftp t)" "ftp c ! k \<in> set (ftp c)" if "k < OPEN_MAX" for k using that len by simp_all
    ultimately have "ftp t ! i \<noteq> ftp c ! j" "ftp t ! j \<noteq> ftp c ! i" using that by blast+
    then show ?thesis using that len by (auto simp: fork_table_def nth_eq_iff_index_eq)
  qed
  have "\<exists>p e a. ftp ?c ! j = Some p \<and> ft_heap ?s p = Some e \<and> fte_lock e = Some a \<and>
      ft_locks ?s a = Some lock_idle \<and> (fte_flag e = 0 \<or> fte_flag e = 1)" if j: "j < OPEN_MAX" for j
  proof (cases "fte_flag (ft_fte s t j) = 1")
    case True
    then show ?thesis using ft_wf_slot [OF t j] lock_t [OF j] j by (auto simp: fork_table_def)
  next
    case False
    then show ?thesis using ft_wf_slot [OF c j] lock_c [OF j False] j by (auto simp: fork_table_def)
  qed
  moreover have "distinct (ftp ?c)" using dist by (simp add: distinct_conv_nth fork_table_def)
  ultimately have wfc: "ft_wf ?s ?c" by (simp add: ft_wf_def fork_table_def)
  have view: "fd_view ?s ?c i = (if fd_view s t i \<noteq> None then fd_view s t i else fd_view s c i)" for i
    using fte(2) [of i] by (auto simp: fd_view_def)
  have "ftp ?c ! i = ftp t ! i" if "i < OPEN_MAX" "fd_view s t i \<noteq> None" for i
    using that by (auto simp: fork_table_def fd_view_def split: if_splits)
  moreover have "fd_view ?s t = fd_view s t" by (simp add: fd_view_def fun_eq_iff ft_fte_def)
  ultimately show ?thesis
    using run findFirstFreeSpot_wf [OF wfc] wfc wft view by (simp add: fork_ft_def ft_ok_def)
qed

text \<open>What \<open>clean_fd\<close> does to the entry itself, whichever table points to it.\<close>

lemma clean_fd_entry:
  assumes wf: "ft_wf s t" and fd: "fd < OPEN_MAX"
  shows "\<exists>t'. clean_fd t (int fd) s = Done (t', fte_put (the (ftp t ! fd))
    ((ft_fte s t fd)\<lparr>fte_flag := 0, fte_file := None, fte_offset := 0, fte_perm := 0\<rparr>) s)"
  using rewrite_entry [OF wf fd, of "\<lambda>e. e\<lparr>fte_flag := 0, fte_file := None, fte_offset := 0, fte_perm := 0\<rparr>"]
  by (auto simp: clean_fd_def Let_def)

text \<open>A closed descriptor of the child closes the descriptor of the parent it shares the entry with.\<close>

lemma clean_fd_shared:
  assumes wf: "ft_wf s c" and t: "ft_wf s t" and fd: "fd < OPEN_MAX" and sh: "ftp c ! fd = ftp t ! fd"
  shows "\<exists>c' s'. clean_fd c (int fd) s = Done (c', s') \<and> fd_view s' t fd = None"
proof -
  obtain c' where c': "clean_fd c (int fd) s = Done (c', fte_put (the (ftp c ! fd))
      ((ft_fte s c fd)\<lparr>fte_flag := 0, fte_file := None, fte_offset := 0, fte_perm := 0\<rparr>) s)"
    using clean_fd_entry [OF wf fd] by blast
  show ?thesis
    by (intro exI conjI, rule c') (simp add: fd_view_def ft_fte_def fte_put_def sh)
qed

text \<open>A table whose slot \<open>i\<close> is at address \<open>base + i\<close>, with lock \<open>base + i\<close> and the flag \<open>f i\<close>.\<close>

definition demo_ft :: "nat \<Rightarrow> ftable" where
  "demo_ft base = \<lparr>ftp = map (\<lambda>i. Some (base + i)) [0..<OPEN_MAX], firstFreeSpot = 3\<rparr>"

definition demo_fs :: ftstate where
  "demo_fs = \<lparr>ft_heap = (\<lambda>p. if p < 100
       then Some \<lparr>fte_flag = (if p = 2 then 1 else 0), fte_file = (if p = 2 then Some 9 else None),
         fte_offset = 5, fte_perm = 3, fte_lock = Some p\<rparr> else None),
     ft_locks = (\<lambda>a. if a < 100 then Some lock_idle else None), ft_me = 1\<rparr>"

lemma demo_wf: "base + OPEN_MAX \<le> 100 \<Longrightarrow> ft_wf demo_fs (demo_ft base)"
  by (auto simp: ft_wf_def demo_ft_def demo_fs_def distinct_map inj_on_def)

lemma demo_fte:
  "i < OPEN_MAX \<Longrightarrow> base + i < 100 \<Longrightarrow> ft_fte demo_fs (demo_ft base) i = \<lparr>fte_flag = (if base + i = 2 then 1 else 0),
     fte_file = (if base + i = 2 then Some 9 else None), fte_offset = 5, fte_perm = 3, fte_lock = Some (base + i)\<rparr>"
  by (simp add: ft_fte_def demo_ft_def demo_fs_def)

lemma demo_ok: "ft_ok demo_fs (demo_ft 0)"
proof -
  have wf: "ft_wf demo_fs (demo_ft 0)" by (rule demo_wf) (simp add: OPEN_MAX_def)
  then have "lowest_free demo_fs (demo_ft 0) = 3"
  proof (cases rule: lowest_free_cases)
    case full
    then show ?thesis using demo_fte [of 3 0] full(2) [of 3] by (simp add: fd_view_def OPEN_MAX_def)
  next
    case (free k)
    then show ?thesis using demo_fte [of 3 0] free(5) [of 3] by (cases "k = 3") (simp_all add: fd_view_def OPEN_MAX_def)
  qed
  then show ?thesis using wf by (simp add: ft_ok_def demo_ft_def)
qed

lemma demo_apart: "ft_apart demo_fs (demo_ft 0) (demo_ft 50)"
  using demo_fte [of _ 0] demo_fte [of _ 50]
  by (auto simp: ft_apart_def ft_lock_def demo_ft_def OPEN_MAX_def inj_on_def)

section \<open>Properties\<close>

text \<open>
  C20: \<open>addEntry\<close> on a well-formed table. When every slot from 3 on is open it returns \<open>ENOMEM\<close> and
  changes nothing; otherwise it succeeds, the descriptor it hands out is the lowest free one from 3
  on, only that descriptor changes, and the table is well formed again, \<open>firstFreeSpot\<close> included.
\<close>

theorem addEntry_lowest:
  assumes "ft_ok s t"
  shows "(\<forall>i. 3 \<le> i \<and> i < OPEN_MAX \<longrightarrow> fd_view s t i \<noteq> None) \<and> addEntry t perm off vn s = Done (ENOMEM, True, None, t, s) \<or>
    (\<exists>k t' s'. addEntry t perm off vn s = Done (EOK, False, Some (int k), t', s') \<and> ft_ok s' t'
       \<and> 3 \<le> k \<and> k < OPEN_MAX \<and> fd_view s t k = None \<and> (\<forall>i. 3 \<le> i \<and> i < k \<longrightarrow> fd_view s t i \<noteq> None)
       \<and> fd_view s' t' = (fd_view s t)(k \<mapsto> (Some vn, off, perm)))"
  by (rule fdt.add_law [OF assms])

theorem addEntry_lowest_witness:
  "\<exists>k t' s'. addEntry (demo_ft 0) 1 0 7 demo_fs = Done (EOK, False, Some (int k), t', s') \<and> 3 \<le> k"
proof -
  have "fd_view demo_fs (demo_ft 0) 3 = None" by (simp add: fd_view_def demo_fte OPEN_MAX_def)
  then show ?thesis
    using addEntry_lowest [OF demo_ok, of 1 0 7] by (auto simp: OPEN_MAX_def)
qed

text \<open>
  Opening and closing: \<open>clean_fd\<close> of the descriptor that \<open>addEntry\<close> handed out succeeds and gives a
  well-formed table with the same open descriptors as before the two calls.
\<close>

theorem addEntry_clean_fd:
  assumes "ft_ok s t" and "addEntry t perm off vn s = Done (EOK, False, Some fd, t', s')"
  shows "\<exists>t'' s''. clean_fd t' fd s' = Done (t'', s'') \<and> ft_ok s'' t'' \<and> fd_view s'' t'' = fd_view s t"
  by (rule fdt.add_clean [OF assms])

theorem addEntry_clean_fd_witness:
  "\<exists>k t' s' t'' s''. addEntry (demo_ft 0) 1 0 7 demo_fs = Done (EOK, False, Some k, t', s')
    \<and> clean_fd t' k s' = Done (t'', s'') \<and> ft_ok s'' t''"
proof -
  have "fd_view demo_fs (demo_ft 0) 3 = None" by (simp add: fd_view_def demo_fte OPEN_MAX_def)
  then obtain k t' s' where "addEntry (demo_ft 0) 1 0 7 demo_fs = Done (EOK, False, Some k, t', s')"
    using addEntry_ok [OF demo_ok, of 1 0 7] by (auto simp: OPEN_MAX_def)
  then show ?thesis using addEntry_clean_fd [OF demo_ok] by blast
qed

text \<open>
  \<open>addDupEntry\<close> of two different descriptors in range. An old descriptor that is not open gives
  \<open>EBADF\<close>, a table with no free slot from 3 on gives \<open>ENFILE\<close>, both without a change; otherwise the new
  descriptor becomes a copy of the old one (file, offset and permissions) and nothing else changes.
\<close>

theorem addDupEntry_copies:
  assumes "ft_ok s t" and "old < OPEN_MAX" and "new < OPEN_MAX" and "old \<noteq> new"
  shows "if fd_view s t old = None then addDupEntry t (int old) (int new) s = Done (EBADF, None, t, s)
    else if firstFreeSpot t = - 1 then addDupEntry t (int old) (int new) s = Done (ENFILE, None, t, s)
    else \<exists>t' s'. addDupEntry t (int old) (int new) s = Done (EOK, Some (int new), t', s') \<and> ft_ok s' t'
           \<and> ft_me s' = ft_me s \<and> fd_view s' t' = (fd_view s t)(new := fd_view s t old)"
  by (rule addDupEntry_ok [OF assms])

theorem addDupEntry_copies_witness:
  "\<exists>t' s'. addDupEntry (demo_ft 0) 2 7 demo_fs = Done (EOK, Some 7, t', s') \<and> ft_ok s' t'"
proof -
  have "fd_view demo_fs (demo_ft 0) 2 = Some (Some 9, 5, 3)" by (simp add: fd_view_def demo_fte OPEN_MAX_def)
  moreover have "firstFreeSpot (demo_ft 0) = 3" by (simp add: demo_ft_def)
  ultimately show ?thesis
    using addDupEntry_copies [OF demo_ok, of 2 7] by (auto simp: OPEN_MAX_def)
qed

text \<open>
  C28: \<open>fork_ft\<close> shares entries instead of copying them. It succeeds, the child has the open descriptors
  of the parent, the parent keeps its own; but a shared descriptor that is then closed in the child
  is closed in the parent as well.
\<close>

theorem fork_ft_shares:
  assumes "ft_wf s t" and "ft_wf s c" and "ft_apart s t c" and "fd < OPEN_MAX" and "fd_view s t fd \<noteq> None"
  shows "\<exists>c' s'. fork_ft t c s = Done (c', s') \<and> ft_ok s' c' \<and> ft_wf s' t
    \<and> fd_view s' c' fd = fd_view s t fd \<and> fd_view s' t = fd_view s t
    \<and> (\<exists>c'' s''. clean_fd c' (int fd) s' = Done (c'', s'') \<and> fd_view s'' t fd = None)"
proof -
  obtain c' s' where f: "fork_ft t c s = Done (c', s')" "ft_ok s' c'" "ft_wf s' t" "fd_view s' t = fd_view s t"
    "fd_view s' c' fd = fd_view s t fd" "ftp c' ! fd = ftp t ! fd"
    using fork_ft_ok [OF assms(1-3)] assms(4,5) by auto
  then show ?thesis using clean_fd_shared [of s' c' t fd] assms(4) by (auto simp: ft_ok_def)
qed

theorem fork_ft_shares_witness:
  "\<exists>c' s' c'' s''. fork_ft (demo_ft 0) (demo_ft 50) demo_fs = Done (c', s') \<and> clean_fd c' 2 s' = Done (c'', s'')
    \<and> fd_view s'' (demo_ft 0) 2 = None"
proof -
  have "fd_view demo_fs (demo_ft 0) 2 \<noteq> None" by (simp add: fd_view_def demo_fte OPEN_MAX_def)
  then show ?thesis
    using fork_ft_shares [OF demo_wf demo_wf demo_apart, of 2] by (auto simp: OPEN_MAX_def)
qed

text \<open>
  \<open>ft_init\<close>, when every allocation succeeds with a block of its own, gives a well-formed table
  with no open descriptor.
\<close>

theorem ft_init_empty:
  assumes "ft_blocks fte_at lk_at"
  shows "\<exists>t s'. ft_init True fte_at lk_at s = Done (t, s') \<and> ft_wf s' t \<and> (\<forall>fd. fd_view s' t fd = None)"
  using ft_init_ok [OF assms, of s] by blast

theorem ft_init_empty_witness:
  "\<exists>t s'. ft_init True (\<lambda>i. Some (200 + i)) (\<lambda>i. Some (300 + i)) demo_fs = Done (t, s') \<and> ft_wf s' t"
proof -
  have "ft_blocks (\<lambda>i. Some (200 + i)) (\<lambda>i. Some (300 + i))" by (simp add: ft_blocks_def inj_on_def)
  from ft_init_empty [OF this, of demo_fs] show ?thesis by blast
qed

end
