(* ===== verification/Kern_Device.thy ===== *)
theory Kern_Device
  imports Kern_Uio "HOL-Library.Signed_Division"
begin

text \<open>
  Vnodes of devices: \<^verbatim>\<open>kern/vfs/device.c\<close>, and the null device of \<^verbatim>\<open>kern/vfs/devnull.c\<close>.

  The functions of the table \<open>d_ops\<close> of a device are arguments (\<open>DEVOP_EACHOPEN\<close>, \<open>DEVOP_IO\<close>,
  \<open>DEVOP_IOCTL\<close>) that act on a state \<open>'d\<close> of the devices. \<open>d_blocks\<close> and \<open>d_blocksize\<close> are 32-bit numbers
  and \<open>off_t\<close> is a 64-bit one, so that a comparison with an offset is made on integers and the product of
  the two wraps.
\<close>

unbundle bit_operations_syntax

record device =
  d_blocks :: u32
  d_blocksize :: u32
  d_devnumber :: u32

text \<open>The fields of \<open>struct stat\<close> that \<open>dev_stat\<close> sets; \<open>bzero\<close> clears the others.\<close>

record stat =
  st_size :: int
  st_mode :: u32
  st_nlink :: nat
  st_blocks :: u32
  st_dev :: u32
  st_rdev :: u32
  st_blksize :: u32

type_synonym 'd devop_io = "device \<Rightarrow> uio \<Rightarrow> umem \<Rightarrow> 'd \<Rightarrow> (errno \<times> uio \<times> umem \<times> 'd) outcome"

abbreviation (input) S_IFCHR :: u32 where "S_IFCHR \<equiv> 0x6000"
abbreviation (input) S_IFBLK :: u32 where "S_IFBLK \<equiv> 0x7000"

definition dev_eachopen :: "(device \<Rightarrow> u32 \<Rightarrow> 'd \<Rightarrow> (errno \<times> 'd) outcome) \<Rightarrow> device \<Rightarrow> u32 \<Rightarrow> 'd \<Rightarrow> (errno \<times> 'd) outcome" where
  "dev_eachopen DEVOP_EACHOPEN d flags v =
     (if flags AND (4 OR 16 OR 8 OR 32) \<noteq> 0 then Done (EINVAL, v) else DEVOP_EACHOPEN d flags v)"

definition dev_tryseek :: "device \<Rightarrow> int \<Rightarrow> errno outcome" where
  "dev_tryseek d pos =
     (if 0 < d_blocks d
      then if d_blocksize d = 0 then Fault
           else if pos smod uint (d_blocksize d) \<noteq> 0 then Done EINVAL
           else if pos sdiv uint (d_blocksize d) \<ge> uint (d_blocks d) then Done EINVAL
           else Done EOK
      else Done EOK)"

definition dev_read :: "'d devop_io \<Rightarrow> 'd devop_io" where
  "dev_read DEVOP_IO d u m v =
     bnd (dev_tryseek d (uio_offset u)) (\<lambda>result.
     if result \<noteq> EOK then Done (result, u, m, v)
     else kassert (uio_dir u = UIO_READ) (DEVOP_IO d u m v))"

definition dev_write :: "'d devop_io \<Rightarrow> 'd devop_io" where
  "dev_write DEVOP_IO d u m v =
     bnd (dev_tryseek d (uio_offset u)) (\<lambda>result.
     if result \<noteq> EOK then Done (result, u, m, v)
     else kassert (uio_dir u = UIO_WRITE) (DEVOP_IO d u m v))"

definition dev_ioctl :: "(device \<Rightarrow> int \<Rightarrow> u32 \<Rightarrow> 'd \<Rightarrow> (errno \<times> 'd) outcome) \<Rightarrow> device \<Rightarrow> int \<Rightarrow> u32 \<Rightarrow> 'd \<Rightarrow> (errno \<times> 'd) outcome" where
  "dev_ioctl DEVOP_IOCTL d op data v = DEVOP_IOCTL d op data v"

definition dev_gettype :: "device \<Rightarrow> errno \<times> u32" where
  "dev_gettype d = (EOK, if 0 < d_blocks d then S_IFBLK else S_IFCHR)"

definition dev_stat :: "device \<Rightarrow> errno \<times> stat" where
  "dev_stat d =
     (let st = \<lparr>st_size = 0, st_mode = 0, st_nlink = 0, st_blocks = 0, st_dev = 0, st_rdev = 0, st_blksize = 0\<rparr>;
          st = (if 0 < d_blocks d
                then st\<lparr>st_size := uint (d_blocks d * d_blocksize d), st_blksize := d_blocksize d\<rparr>
                else st\<lparr>st_size := 0\<rparr>);
          (result, mode) = dev_gettype d;
          st = st\<lparr>st_mode := mode\<rparr>
      in if result \<noteq> EOK then (result, st)
         else (EOK, st\<lparr>st_mode := st_mode st OR 0x180, st_nlink := 1, st_blocks := d_blocks d, st_dev := 0,
                       st_rdev := d_devnumber d\<rparr>))"

definition dev_isseekable :: "device \<Rightarrow> bool" where
  "dev_isseekable d = (if d_blocks d = 0 then False else True)"

definition dev_truncate :: "device \<Rightarrow> int \<Rightarrow> errno" where
  "dev_truncate d len =
     (if 0 < d_blocks d \<and> uint (d_blocks d * d_blocksize d) = len then EOK else EINVAL)"

text \<open>\<open>dev_lookup\<close> hands back the vnode of the device with one more reference.\<close>

definition dev_lookup :: "('n \<Rightarrow> 'd \<Rightarrow> 'd outcome) \<Rightarrow> 'n \<Rightarrow> string \<Rightarrow> 'd \<Rightarrow> (errno \<times> 'n option \<times> 'd) outcome" where
  "dev_lookup VOP_INCREF dir pathname v =
     (if 0 < length pathname then Done (ENOENT, None, v)
      else bnd (VOP_INCREF dir v) (\<lambda>v. Done (EOK, Some dir, v)))"

section \<open>The null device\<close>

definition nullopen :: "device \<Rightarrow> u32 \<Rightarrow> 'd \<Rightarrow> (errno \<times> 'd) outcome" where
  "nullopen d openflags v = Done (EOK, v)"

definition nullio :: "'d devop_io" where
  "nullio d u m v = Done (EOK, if uio_dir u = UIO_WRITE then u\<lparr>uio_resid := 0\<rparr> else u, m, v)"

definition nullioctl :: "device \<Rightarrow> int \<Rightarrow> u32 \<Rightarrow> 'd \<Rightarrow> (errno \<times> 'd) outcome" where
  "nullioctl d op data v = Done (EINVAL, v)"

section \<open>Seek positions\<close>

text \<open>The positions a block device accepts, as products of a block number and the block size.\<close>

lemma dev_tryseek_block:
  assumes "0 < d_blocks d" and "d_blocksize d \<noteq> 0" and "0 \<le> pos"
  shows "dev_tryseek d pos = Done EOK \<longleftrightarrow>
    (\<exists>b. 0 \<le> b \<and> b < uint (d_blocks d) \<and> pos = b * uint (d_blocksize d))"
proof -
  have bs: "0 < uint (d_blocksize d)" using assms(2) by (simp add: word_neq_0_conv word_less_def)
  have sd: "pos sdiv uint (d_blocksize d) = pos div uint (d_blocksize d)"
    "pos smod uint (d_blocksize d) = pos mod uint (d_blocksize d)"
    using assms(3) bs by (simp_all add: signed_divide_int_def signed_modulo_int_def sgn_if abs_if minus_div_mult_eq_mod)
  show ?thesis
  proof
    assume "dev_tryseek d pos = Done EOK"
    then have "pos mod uint (d_blocksize d) = 0" "pos div uint (d_blocksize d) < uint (d_blocks d)"
      using assms(1,2) by (auto simp: dev_tryseek_def sd split: if_splits)
    then show "\<exists>b. 0 \<le> b \<and> b < uint (d_blocks d) \<and> pos = b * uint (d_blocksize d)"
      using assms(3) bs by (intro exI [of _ "pos div uint (d_blocksize d)"]) (auto simp: pos_imp_zdiv_nonneg_iff)
  next
    assume "\<exists>b. 0 \<le> b \<and> b < uint (d_blocks d) \<and> pos = b * uint (d_blocksize d)"
    then obtain b where b: "b < uint (d_blocks d)" "pos = b * uint (d_blocksize d)" by (elim exE conjE)
    have "pos mod uint (d_blocksize d) = 0" "pos div uint (d_blocksize d) < uint (d_blocks d)"
      using b bs by simp_all
    then show "dev_tryseek d pos = Done EOK" using assms(1,2) by (simp add: dev_tryseek_def sd)
  qed
qed

lemma dev_tryseek_result: "d_blocksize d \<noteq> 0 \<Longrightarrow> dev_tryseek d pos = Done EOK \<or> dev_tryseek d pos = Done EINVAL"
  by (simp add: dev_tryseek_def)

section \<open>Properties\<close>

text \<open>
  Reading and writing a block device from a position that is not negative. The device is
  asked to transfer exactly when the position is the start of one of its blocks; otherwise the call is
  \<open>EINVAL\<close> and changes nothing.
\<close>

theorem dev_io_range:
  assumes "0 < d_blocks d" and "d_blocksize d \<noteq> 0" and "0 \<le> uio_offset u"
  shows "(uio_dir u = UIO_READ \<longrightarrow> dev_read io d u m v =
      (if \<exists>b. 0 \<le> b \<and> b < uint (d_blocks d) \<and> uio_offset u = b * uint (d_blocksize d)
       then io d u m v else Done (EINVAL, u, m, v)))
    \<and> (uio_dir u = UIO_WRITE \<longrightarrow> dev_write io d u m v =
      (if \<exists>b. 0 \<le> b \<and> b < uint (d_blocks d) \<and> uio_offset u = b * uint (d_blocksize d)
       then io d u m v else Done (EINVAL, u, m, v)))"
  using dev_tryseek_block [OF assms] dev_tryseek_result [OF assms(2), of "uio_offset u"]
  by (cases "dev_tryseek d (uio_offset u) = Done EOK") (auto simp: dev_read_def dev_write_def kassert_def)

theorem dev_io_range_witness:
  "dev_write nullio \<lparr>d_blocks = 4, d_blocksize = 512, d_devnumber = 0\<rparr> (uio_kinit 64 512 2048 UIO_WRITE) flat_mem ()
     = Done (EINVAL, uio_kinit 64 512 2048 UIO_WRITE, flat_mem, ())"
proof -
  have "\<not> (\<exists>b. 0 \<le> b \<and> b < 4 \<and> (2048 :: int) = b * 512)" by presburger
  then show ?thesis
    using dev_io_range [of "\<lparr>d_blocks = 4, d_blocksize = 512, d_devnumber = 0\<rparr>" "uio_kinit 64 512 2048 UIO_WRITE" nullio flat_mem "()"]
    by (simp add: uio_kinit_def)
qed

text \<open>
  C39: The size \<open>dev_stat\<close> reports for a block device is the number of its bytes when that fits 32 bits,
  and is smaller than it otherwise: the product is taken on 32 bits before it is stored in the
  64-bit \<open>st_size\<close>. \<open>dev_truncate\<close> accepts the size that \<open>dev_stat\<close> reports and no other.
\<close>

theorem dev_stat_size:
  assumes "0 < d_blocks d"
  shows "fst (dev_stat d) = EOK
    \<and> (st_size (snd (dev_stat d)) = uint (d_blocks d) * uint (d_blocksize d)
         \<longleftrightarrow> uint (d_blocks d) * uint (d_blocksize d) < 2 ^ 32)
    \<and> st_size (snd (dev_stat d)) \<le> uint (d_blocks d) * uint (d_blocksize d)
    \<and> (dev_truncate d len = EOK \<longleftrightarrow> len = st_size (snd (dev_stat d)))"
proof -
  have size: "st_size (snd (dev_stat d)) = (uint (d_blocks d) * uint (d_blocksize d)) mod 2 ^ 32"
    using assms by (simp add: dev_stat_def dev_gettype_def uint_word_ariths)
  have nn: "0 \<le> uint (d_blocks d) * uint (d_blocksize d)" by simp
  have eq: "n mod 2 ^ 32 = n \<longleftrightarrow> n < 2 ^ 32" if "0 \<le> n" for n :: int
    using that pos_mod_bound [of "2 ^ 32" n] by (metis mod_pos_pos_trivial zero_less_numeral zero_less_power)
  have trunc: "dev_truncate d len = EOK \<longleftrightarrow> len = (uint (d_blocks d) * uint (d_blocksize d)) mod 2 ^ 32"
    using assms by (auto simp: dev_truncate_def uint_word_ariths)
  show ?thesis
    using eq [OF nn] zmod_le_nonneg_dividend [OF nn, of "2 ^ 32"]
    unfolding size trunc by (simp add: dev_stat_def dev_gettype_def)
qed

theorem dev_stat_size_witness:
  "st_size (snd (dev_stat \<lparr>d_blocks = 0x800000, d_blocksize = 512, d_devnumber = 0\<rparr>)) \<noteq> 0x800000 * 512"
  using dev_stat_size [of "\<lparr>d_blocks = 0x800000, d_blocksize = 512, d_devnumber = 0\<rparr>" 0] by simp

end
