(* ===== verification/Kern_Fsyscall.thy ===== *)
theory Kern_Fsyscall
  imports Kern_Filetable Kern_Device
begin

text \<open>
  The file system calls: \<^verbatim>\<open>kern/syscall/fsyscall.c\<close>.

  The state holds the file table of the current process (\<open>curproc->ft\<close>), the heap of entries and locks,
  the memory, and a state \<open>'v\<close> of the file systems below the VFS layer. The VFS functions and the
  operations of a vnode (which the code reaches through the table of function pointers of the vnode)
  are arguments of the calls that use them and act on that state. A call gives its error code and
  what it stored through \<open>retval\<close>. The kernel's own heap is not part of the state, so that \<open>kfree\<close>, and a
  block that is never freed, do not show; whether \<open>kmalloc\<close> gave a block is an argument.
\<close>

unbundle bit_operations_syntax

record 'v ksys =
  k_ft :: ftable
  k_fs :: ftstate
  k_mem :: umem
  k_vfs :: 'v

type_synonym 'v vop = "nat \<Rightarrow> uio \<Rightarrow> umem \<Rightarrow> 'v \<Rightarrow> (errno \<times> uio \<times> umem \<times> 'v) outcome"

abbreviation (input) O_ACCMODE :: u32 where "O_ACCMODE \<equiv> 3"
abbreviation (input) O_CREAT :: u32 where "O_CREAT \<equiv> 4"
abbreviation (input) O_EXCL :: u32 where "O_EXCL \<equiv> 8"

definition PATH_MAX :: nat where
  "PATH_MAX = 1024"

definition check_fd :: "int \<Rightarrow> bool" where
  "check_fd fd \<longleftrightarrow> 0 \<le> fd \<and> fd < int OPEN_MAX"

section \<open>Opening and closing\<close>

text \<open>The permissions \<open>sys_open\<close> derives from the access mode; \<open>None\<close> is the default branch.\<close>

definition open_permissions :: "u32 \<Rightarrow> int option" where
  "open_permissions flags =
     (let how = flags AND O_ACCMODE in
      if how = 0 then Some 1 else if how = 1 then Some 2 else if how = 2 then Some 3 else None)"

definition sys_open ::
  "(u8 list \<Rightarrow> u32 \<Rightarrow> u32 \<Rightarrow> 'v \<Rightarrow> (errno \<times> nat \<times> 'v) outcome) \<Rightarrow> bool \<Rightarrow> u32 \<Rightarrow> u32 \<Rightarrow> u32 \<Rightarrow> 'v ksys
     \<Rightarrow> (errno \<times> int option \<times> 'v ksys) outcome" where
  "sys_open vfs_open got filename flags mode s =
     (if \<not> got then Done (ENOMEM, None, s)
      else case open_permissions flags of
        None \<Rightarrow> Done (EINVAL, None, s)
      | Some permissions \<Rightarrow>
          if flags AND O_EXCL \<noteq> 0 \<and> flags AND O_CREAT = 0 then Done (EINVAL, None, s)
          else bnd (copyinstr (k_mem s) filename (of_nat PATH_MAX)) (\<lambda>(error, len, dest, mem).
            let s = s\<lparr>k_mem := mem\<rparr> in
            if error \<noteq> EOK then Done (error, None, s)
            else bnd (vfs_open dest flags mode (k_vfs s)) (\<lambda>(opened, ret, v).
              let s = s\<lparr>k_vfs := v\<rparr> in
              if opened \<noteq> EOK then Done (opened, None, s)
              else bnd (addEntry (k_ft s) permissions 0 ret (k_fs s)) (\<lambda>(result, errFlag, fd, t, fs).
                let s = s\<lparr>k_ft := t, k_fs := fs\<rparr> in
                if errFlag then Done (result, None, s)
                else Done (EOK, fd, s)))))"

text \<open>\<open>sys_close\<close> reads the table before it checks the descriptor.\<close>

definition sys_close :: "int \<Rightarrow> 'v ksys \<Rightarrow> (errno \<times> 'v ksys) outcome" where
  "sys_close fd s =
     bnd (getEntry (k_ft s) fd) (\<lambda>entry.
     bnd (deref entry) (\<lambda>p.
     bnd (fte_acquire p (k_fs s)) (\<lambda>fs.
     bnd (fte_get p fs) (\<lambda>e.
     if \<not> check_fd fd \<or> fte_flag e = 0
     then bnd (fte_release p fs) (\<lambda>fs. Done (EBADF, s\<lparr>k_fs := fs\<rparr>))
     else bnd (fte_release p fs) (\<lambda>fs.
          bnd (clean_fd (k_ft s) fd fs) (\<lambda>(t, fs).
          Done (EOK, s\<lparr>k_ft := t, k_fs := fs\<rparr>)))))))"

section \<open>Reading and writing\<close>

definition user_uio :: "u32 \<Rightarrow> nat \<Rightarrow> int \<Rightarrow> uio_rw \<Rightarrow> nat option \<Rightarrow> uio" where
  "user_uio buf len off rw as =
     \<lparr>uio_iov = [\<lparr>iov_base = buf, iov_len = len\<rparr>], uio_iovcnt = 1, uio_offset = off, uio_resid = len,
      uio_segflg = UIO_USERSPACE, uio_dir = rw, uio_space = as\<rparr>"

definition sys_write :: "'v vop \<Rightarrow> int \<Rightarrow> u32 \<Rightarrow> nat \<Rightarrow> 'v ksys \<Rightarrow> (errno \<times> nat option \<times> 'v ksys) outcome" where
  "sys_write VOP_WRITE fd buf nbytes s =
     (if \<not> check_fd fd then Done (EBADF, None, s)
      else bnd (getEntry (k_ft s) fd) (\<lambda>entry. bnd (deref entry) (\<lambda>p. bnd (fte_get p (k_fs s)) (\<lambda>e.
      if fte_file e = None then Done (EBADF, None, s)
      else bnd (fte_acquire p (k_fs s)) (\<lambda>fs. bnd (fte_get p fs) (\<lambda>e.
      if fte_perm e = 1 then bnd (fte_release p fs) (\<lambda>fs. Done (EBADF, None, s\<lparr>k_fs := fs\<rparr>))
      else if buf = 0 then bnd (fte_release p fs) (\<lambda>fs. Done (EFAULT, None, s\<lparr>k_fs := fs\<rparr>))
      else bnd (deref (fte_file e)) (\<lambda>vn.
           bnd (VOP_WRITE vn (user_uio buf nbytes (fte_offset e) UIO_WRITE (um_as (k_mem s))) (k_mem s) (k_vfs s))
             (\<lambda>(result, ui, mem, v).
           let s = s\<lparr>k_mem := mem, k_vfs := v\<rparr> in
           if result \<noteq> EOK then bnd (fte_release p fs) (\<lambda>fs. Done (result, None, s\<lparr>k_fs := fs\<rparr>))
           else let bytes_written = sub32 nbytes (uio_resid ui);
                    fs = fte_put p (e\<lparr>fte_offset := fte_offset e + int bytes_written\<rparr>) fs
                in bnd (fte_release p fs) (\<lambda>fs. Done (EOK, Some bytes_written, s\<lparr>k_fs := fs\<rparr>))))))))))"

definition sys_read :: "'v vop \<Rightarrow> int \<Rightarrow> u32 \<Rightarrow> nat \<Rightarrow> 'v ksys \<Rightarrow> (errno \<times> nat option \<times> 'v ksys) outcome" where
  "sys_read VOP_READ fd buf buflen s =
     (if \<not> check_fd fd then Done (EBADF, None, s)
      else bnd (isValid (k_ft s) fd (k_fs s)) (\<lambda>(valid, fs).
      let s = s\<lparr>k_fs := fs\<rparr> in
      if \<not> valid then Done (EBADF, None, s)
      else if buf = 0 then Done (EFAULT, None, s)
      else bnd (getEntry (k_ft s) fd) (\<lambda>entry. bnd (deref entry) (\<lambda>p.
           bnd (fte_acquire p (k_fs s)) (\<lambda>fs. bnd (fte_get p fs) (\<lambda>e.
           bnd (deref (fte_file e)) (\<lambda>vn.
           bnd (VOP_READ vn (user_uio buf buflen (fte_offset e) UIO_READ (um_as (k_mem s))) (k_mem s) (k_vfs s))
             (\<lambda>(result, ui, mem, v).
           let s = s\<lparr>k_mem := mem, k_vfs := v\<rparr> in
           if result \<noteq> EOK then bnd (fte_release p fs) (\<lambda>fs. Done (result, None, s\<lparr>k_fs := fs\<rparr>))
           else let n = sub32 buflen (uio_resid ui);
                    fs = fte_put p (e\<lparr>fte_offset := fte_offset e + int n\<rparr>) fs
                in bnd (fte_release p fs) (\<lambda>fs. Done (EOK, Some n, s\<lparr>k_fs := fs\<rparr>))))))))))"

section \<open>Seeking\<close>

text \<open>
  \<open>got_st\<close> is the block \<open>kmalloc\<close> gave for the \<open>struct stat\<close>, by the \<open>st_size\<close> it happens to hold; the code
  does not look at the result of \<open>VOP_STAT\<close>. The position is a 64-bit number; a sum that does not fit
  it is outside of the model.
\<close>

definition sys_lseek ::
  "(nat \<Rightarrow> 'v \<Rightarrow> bool) \<Rightarrow> (nat \<Rightarrow> int \<Rightarrow> 'v \<Rightarrow> (errno \<times> int \<times> 'v) outcome) \<Rightarrow> int option \<Rightarrow> int \<Rightarrow> int \<Rightarrow> int \<Rightarrow> 'v ksys
     \<Rightarrow> (errno \<times> (u32 \<times> u32) option \<times> 'v ksys) outcome" where
  "sys_lseek VOP_ISSEEKABLE VOP_STAT got_st fd pos whence s =
     (if whence < 0 \<or> whence > 2 then Done (EINVAL, None, s)
      else if \<not> check_fd fd then Done (EBADF, None, s)
      else bnd (getEntry (k_ft s) fd) (\<lambda>entry. bnd (deref entry) (\<lambda>p. bnd (fte_get p (k_fs s)) (\<lambda>e.
      if fte_file e = None then Done (EBADF, None, s)
      else bnd (fte_acquire p (k_fs s)) (\<lambda>fs. bnd (fte_get p fs) (\<lambda>e. bnd (deref (fte_file e)) (\<lambda>vn.
      if \<not> VOP_ISSEEKABLE vn (k_vfs s) then bnd (fte_release p fs) (\<lambda>fs. Done (ESPIPE, None, s\<lparr>k_fs := fs\<rparr>))
      else bnd (deref got_st) (\<lambda>st. bnd (VOP_STAT vn st (k_vfs s)) (\<lambda>(_, eof, v).
      let s = s\<lparr>k_vfs := v\<rparr>;
          seek_pos = (if whence = 0 then pos else if whence = 1 then fte_offset e + pos else eof + pos)
      in if seek_pos < 0 then bnd (fte_release p fs) (\<lambda>fs. Done (EINVAL, None, s\<lparr>k_fs := fs\<rparr>))
         else let fs = fte_put p (e\<lparr>fte_offset := seek_pos\<rparr>) fs
              in bnd (fte_release p fs) (\<lambda>fs.
                 Done (EOK, Some (word_of_int (seek_pos div 2 ^ 32), word_of_int seek_pos), s\<lparr>k_fs := fs\<rparr>)))))))))))"

section \<open>Duplicating\<close>

definition sys_dup2 :: "int \<Rightarrow> int \<Rightarrow> 'v ksys \<Rightarrow> (errno \<times> int option \<times> 'v ksys) outcome" where
  "sys_dup2 oldfd newfd s =
     (if \<not> check_fd oldfd \<or> \<not> check_fd newfd then Done (EBADF, None, s)
      else if oldfd = newfd then Done (EOK, Some newfd, s)
      else bnd (getEntry (k_ft s) newfd) (\<lambda>entry. bnd (deref entry) (\<lambda>p.
           bnd (fte_acquire p (k_fs s)) (\<lambda>fs. bnd (fte_get p fs) (\<lambda>e.
           bnd (if fte_flag e = 1
                then bnd (fte_release p fs) (\<lambda>fs.
                     bnd (sys_close newfd (s\<lparr>k_fs := fs\<rparr>)) (\<lambda>(_, s). Done s))
                else Done (s\<lparr>k_fs := fs\<rparr>)) (\<lambda>s.
           bnd (fte_release p (k_fs s)) (\<lambda>fs.
           bnd (addDupEntry (k_ft s) oldfd newfd fs) (\<lambda>(result, retval, t, fs).
           Done (result, retval, s\<lparr>k_ft := t, k_fs := fs\<rparr>)))))))))"

section \<open>The current directory\<close>

text \<open>\<open>vfs_chdir\<close> gets the user's pointer, not the copy of the string.\<close>

definition sys_chdir ::
  "(u32 \<Rightarrow> umem \<Rightarrow> 'v \<Rightarrow> (errno \<times> umem \<times> 'v) outcome) \<Rightarrow> bool \<Rightarrow> u32 \<Rightarrow> 'v ksys \<Rightarrow> (errno \<times> 'v ksys) outcome" where
  "sys_chdir vfs_chdir got pathname s =
     (if \<not> got then Done (ENOMEM, s)
      else if pathname = 0 then Done (EFAULT, s)
      else bnd (copyinstr (k_mem s) pathname (of_nat PATH_MAX)) (\<lambda>(error, len, dest, mem).
        let s = s\<lparr>k_mem := mem\<rparr> in
        if error \<noteq> EOK then Done (error, s)
        else bnd (vfs_chdir pathname (k_mem s) (k_vfs s)) (\<lambda>(result, mem, v).
          Done (result, s\<lparr>k_mem := mem, k_vfs := v\<rparr>))))"

definition sys__getcwd ::
  "(uio \<Rightarrow> umem \<Rightarrow> 'v \<Rightarrow> (errno \<times> uio \<times> umem \<times> 'v) outcome) \<Rightarrow> u32 \<Rightarrow> nat \<Rightarrow> 'v ksys
     \<Rightarrow> (errno \<times> nat option \<times> 'v ksys) outcome" where
  "sys__getcwd vfs_getcwd buf buflen s =
     (if buf = 0 then Done (EFAULT, None, s)
      else bnd (vfs_getcwd (user_uio buf buflen 0 UIO_READ (um_as (k_mem s))) (k_mem s) (k_vfs s)) (\<lambda>(result, ui, mem, v).
        let s = s\<lparr>k_mem := mem, k_vfs := v\<rparr> in
        if result \<noteq> EOK then Done (result, None, s)
        else Done (EOK, Some (sub32 buflen (uio_resid ui)), s)))"

section \<open>Entries under their locks\<close>

text \<open>What the calls need of an open descriptor, in one rule.\<close>

lemma fd_entry:
  assumes ok: "ft_ok s t" and fd: "fd < OPEN_MAX"
  obtains p where "getEntry t (int fd) = Done (Some p)" and "fte_get p s = Done (ft_fte s t fd)"
    and "p = the (ftp t ! fd)"
    and "fte_acquire p s = Done (s\<lparr>ft_locks := (ft_locks s)(ft_lock s t fd \<mapsto> lock_mine (ft_me s))\<rparr>)"
    and "fte_get p (s\<lparr>ft_locks := (ft_locks s)(ft_lock s t fd \<mapsto> lock_mine (ft_me s))\<rparr>) = Done (ft_fte s t fd)"
    and "fte_release p (s\<lparr>ft_locks := (ft_locks s)(ft_lock s t fd \<mapsto> lock_mine (ft_me s))\<rparr>) = Done s"
    and "\<And>e. fte_lock e = fte_lock (ft_fte s t fd) \<Longrightarrow>
      fte_release p (fte_put p e (s\<lparr>ft_locks := (ft_locks s)(ft_lock s t fd \<mapsto> lock_mine (ft_me s))\<rparr>)) = Done (fte_put p e s)"
    and "fte_release p s = Done s"
proof -
  have wf: "ft_wf s t" using ok by (simp add: ft_ok_def)
  obtain p a where pa: "ftp t ! fd = Some p" "ft_heap s p = Some (ft_fte s t fd)"
    "fte_lock (ft_fte s t fd) = Some a" "ft_locks s a = Some lock_idle"
    by (rule ft_wfE [OF wf fd])
  have a: "ft_lock s t fd = a" using pa(3) by (simp add: ft_lock_def)
  have len: "length (ftp t) = OPEN_MAX" using wf by (simp add: ft_wf_def)
  have same: "(ft_locks s)(a \<mapsto> lock_idle) = ft_locks s" using pa(4) by (simp add: fun_upd_idem)
  have idle: "fte_release p s = Done s"
    using pa by (simp add: fte_release_def fte_get_def lock_release_any(2) same)
  note lk = fte_locked_update [OF pa(2-4), unfolded a [symmetric]]
  show thesis
  proof (rule that [of p])
    show "getEntry t (int fd) = Done (Some p)" using len fd pa(1) by (simp add: getEntry_def)
    show "fte_get p s = Done (ft_fte s t fd)" using pa(2) by (simp add: fte_get_def)
    show "p = the (ftp t ! fd)" using pa(1) by simp
    show "fte_acquire p s = Done (s\<lparr>ft_locks := (ft_locks s)(ft_lock s t fd \<mapsto> lock_mine (ft_me s))\<rparr>)"
      using pa(3) a by (intro lk(1)) simp
    show "fte_get p (s\<lparr>ft_locks := (ft_locks s)(ft_lock s t fd \<mapsto> lock_mine (ft_me s))\<rparr>) = Done (ft_fte s t fd)"
      using pa(2) by (simp add: fte_get_def)
    show "fte_release p (s\<lparr>ft_locks := (ft_locks s)(ft_lock s t fd \<mapsto> lock_mine (ft_me s))\<rparr>) = Done s"
      using pa(3) a by (intro lk(3)) simp
    show "fte_release p (fte_put p e (s\<lparr>ft_locks := (ft_locks s)(ft_lock s t fd \<mapsto> lock_mine (ft_me s))\<rparr>)) = Done (fte_put p e s)"
      if "fte_lock e = fte_lock (ft_fte s t fd)" for e
      using pa(3) a that by (intro lk(2)) simp
    show "fte_release p s = Done s" by (rule idle)
  qed
qed

text \<open>Moving the offset of a descriptor changes nothing else.\<close>

lemma ft_ok_offset:
  assumes ok: "ft_ok s t" and fd: "fd < OPEN_MAX" and view: "fd_view s t fd = Some (f, off, perm)"
  shows "ft_ok (fte_put (the (ftp t ! fd)) ((ft_fte s t fd)\<lparr>fte_offset := x\<rparr>) s) t"
    and "fd_view (fte_put (the (ftp t ! fd)) ((ft_fte s t fd)\<lparr>fte_offset := x\<rparr>) s) t = (fd_view s t)(fd \<mapsto> (f, x, perm))"
proof -
  let ?e = "(ft_fte s t fd)\<lparr>fte_offset := x\<rparr>" and ?s = "fte_put (the (ftp t ! fd)) ((ft_fte s t fd)\<lparr>fte_offset := x\<rparr>) s"
  have wf: "ft_wf s t" and spot: "firstFreeSpot t = lowest_free s t" using ok by (simp_all add: ft_ok_def)
  obtain p where p: "ftp t ! fd = Some p" using ft_wf_slot [OF wf fd] by (elim exE conjE) (rule that)
  have flag: "fte_flag (ft_fte s t fd) = 1" "fte_file (ft_fte s t fd) = f" "fte_perm (ft_fte s t fd) = perm"
    using view by (auto simp: fd_view_def split: if_splits)
  have put: "ft_wf ?s t" "\<And>j. j < OPEN_MAX \<Longrightarrow> ft_fte ?s t j = (if j = fd then ?e else ft_fte s t j)"
    using ft_wf_put [OF wf fd p, of ?e] flag p by simp_all
  have "find_index (\<lambda>i. fte_flag (ft_fte ?s t i) = 0) [3..<OPEN_MAX] = find_index (\<lambda>i. fte_flag (ft_fte s t i) = 0) [3..<OPEN_MAX]"
    by (rule find_index_cong) (simp add: put(2))
  then show "ft_ok ?s t" using put(1) spot by (simp add: ft_ok_def lowest_free_def)
  have "\<forall>j < OPEN_MAX. ft_fte ?s t j = (if j = fd then ?e else ft_fte s t j)" using put(2) by simp
  from fd_view_rewrite [OF this fd] show "fd_view ?s t = (fd_view s t)(fd \<mapsto> (f, x, perm))" using flag by simp
qed

section \<open>Each call on a well-formed table\<close>

lemma check_fd_nat [simp]: "check_fd (int fd) \<longleftrightarrow> fd < OPEN_MAX"
  by (simp add: check_fd_def)

lemma fd_view_flag: "fd < OPEN_MAX \<Longrightarrow> fd_view s t fd = Some (f, off, perm) \<Longrightarrow>
    fte_flag (ft_fte s t fd) = 1 \<and> fte_file (ft_fte s t fd) = f \<and> fte_offset (ft_fte s t fd) = off \<and> fte_perm (ft_fte s t fd) = perm"
  by (auto simp: fd_view_def split: if_splits)

lemma clean_fd_table: "clean_fd t fd s = Done (t', s') \<Longrightarrow> ftp t' = ftp t"
  by (auto simp: clean_fd_def findFirstFreeSpot_def Let_def bnd_Done_iff split: prod.splits)

lemma sys_close_closed:
  assumes ok: "ft_ok (k_fs s) (k_ft s)" and fd: "fd < OPEN_MAX" and view: "fd_view (k_fs s) (k_ft s) fd = None"
  shows "sys_close (int fd) s = Done (EBADF, s)"
proof -
  have wf: "ft_wf (k_fs s) (k_ft s)" using ok by (simp add: ft_ok_def)
  have flag: "fte_flag (ft_fte (k_fs s) (k_ft s) fd) = 0" using view fd_view_None [OF wf fd] by simp
  show ?thesis by (rule fd_entry [OF ok fd]) (simp add: sys_close_def flag)
qed

lemma sys_close_open:
  assumes ok: "ft_ok (k_fs s) (k_ft s)" and fd: "fd < OPEN_MAX" and view: "fd_view (k_fs s) (k_ft s) fd \<noteq> None"
  shows "\<exists>t fs. sys_close (int fd) s = Done (EOK, s\<lparr>k_ft := t, k_fs := fs\<rparr>) \<and> ft_ok fs t
    \<and> fd_view fs t = (fd_view (k_fs s) (k_ft s))(fd := None) \<and> ftp t = ftp (k_ft s)"
proof -
  have wf: "ft_wf (k_fs s) (k_ft s)" using ok by (simp add: ft_ok_def)
  have flag: "fte_flag (ft_fte (k_fs s) (k_ft s) fd) \<noteq> 0" using view fd_view_None [OF wf fd] by simp
  obtain t fs where c: "clean_fd (k_ft s) (int fd) (k_fs s) = Done (t, fs)" "ft_ok fs t"
    "fd_view fs t = (fd_view (k_fs s) (k_ft s))(fd := None)"
    using clean_fd_ok [OF wf fd] by (elim exE conjE) (rule that)
  have "sys_close (int fd) s = Done (EOK, s\<lparr>k_ft := t, k_fs := fs\<rparr>)"
    by (rule fd_entry [OF ok fd]) (simp add: sys_close_def flag fd c(1))
  moreover have "ftp t = ftp (k_ft s)" using clean_fd_table [OF c(1)] by simp
  ultimately show ?thesis using c(2,3) by (intro exI conjI)
qed

lemma sys_close_range:
  assumes "ft_wf (k_fs s) (k_ft s)" and "\<not> check_fd fd"
  shows "sys_close fd s = Fault"
  using assms by (auto simp: sys_close_def getEntry_def check_fd_def ft_wf_def)

text \<open>
  What reading and writing rely on of a vnode operation that succeeds: it has not transferred more than
  was asked. The position of the descriptor goes by the count alone, so \<open>uio_offset\<close> plays no part.
\<close>

locale vnode_io =
  fixes vop :: "'v vop"
  assumes vop_accounts: "uio_ok u \<Longrightarrow> vop vn u m v = Done (EOK, u', m', v') \<Longrightarrow>
    uio_resid u' \<le> uio_resid u"
begin

lemma count_le:
  assumes "len < 2 ^ 32" and "vop vn (user_uio buf len off rw as) m v = Done (EOK, u', m', v')"
  shows "uio_resid u' \<le> len" and "sub32 len (uio_resid u') = len - uio_resid u'"
proof -
  have "uio_ok (user_uio buf len off rw as)" using assms(1) by (simp add: uio_ok_def user_uio_def)
  from vop_accounts [OF this assms(2)] show le: "uio_resid u' \<le> len"
    by (simp add: user_uio_def)
  show "sub32 len (uio_resid u') = len - uio_resid u'" by (rule sub32_le [OF le assms(1)])
qed

lemma read_done:
  assumes ok: "ft_ok (k_fs s) (k_ft s)" and fd: "fd < OPEN_MAX"
    and view: "fd_view (k_fs s) (k_ft s) fd = Some (Some vn, off, perm)" and perm: "perm = 1 \<or> perm = 3"
    and buf: "buf \<noteq> 0" and len: "len < 2 ^ 32"
    and run: "vop vn (user_uio buf len off UIO_READ (um_as (k_mem s))) (k_mem s) (k_vfs s) = Done (EOK, u', m', v')"
  shows "\<exists>fs n. sys_read vop (int fd) buf len s = Done (EOK, Some n, s\<lparr>k_mem := m', k_vfs := v', k_fs := fs\<rparr>)
    \<and> n = len - uio_resid u' \<and> n \<le> len \<and> ft_ok fs (k_ft s)
    \<and> fd_view fs (k_ft s) = (fd_view (k_fs s) (k_ft s))(fd \<mapsto> (Some vn, off + int n, perm))"
proof -
  let ?fs = "fte_put (the (ftp (k_ft s) ! fd)) ((ft_fte (k_fs s) (k_ft s) fd)\<lparr>fte_offset := off + int (len - uio_resid u')\<rparr>) (k_fs s)"
  have wf: "ft_wf (k_fs s) (k_ft s)" using ok by (simp add: ft_ok_def)
  note e = fd_view_flag [OF fd view]
  have "sys_read vop (int fd) buf len s = Done (EOK, Some (len - uio_resid u'), s\<lparr>k_mem := m', k_vfs := v', k_fs := ?fs\<rparr>)"
    by (rule fd_entry [OF ok fd])
      (use perm buf run in \<open>simp add: sys_read_def fd isValid_ok [OF wf fd] view e count_le(2) [OF len run] Let_def\<close>)
  then show ?thesis
    using ft_ok_offset [OF ok fd view, of "off + int (len - uio_resid u')"] by (intro exI conjI) simp_all
qed

lemma write_done:
  assumes ok: "ft_ok (k_fs s) (k_ft s)" and fd: "fd < OPEN_MAX"
    and view: "fd_view (k_fs s) (k_ft s) fd = Some (Some vn, off, perm)" and perm: "perm \<noteq> 1"
    and buf: "buf \<noteq> 0" and len: "len < 2 ^ 32"
    and run: "vop vn (user_uio buf len off UIO_WRITE (um_as (k_mem s))) (k_mem s) (k_vfs s) = Done (EOK, u', m', v')"
  shows "\<exists>fs n. sys_write vop (int fd) buf len s = Done (EOK, Some n, s\<lparr>k_mem := m', k_vfs := v', k_fs := fs\<rparr>)
    \<and> n = len - uio_resid u' \<and> n \<le> len \<and> ft_ok fs (k_ft s)
    \<and> fd_view fs (k_ft s) = (fd_view (k_fs s) (k_ft s))(fd \<mapsto> (Some vn, off + int n, perm))"
proof -
  let ?fs = "fte_put (the (ftp (k_ft s) ! fd)) ((ft_fte (k_fs s) (k_ft s) fd)\<lparr>fte_offset := off + int (len - uio_resid u')\<rparr>) (k_fs s)"
  note e = fd_view_flag [OF fd view]
  have "sys_write vop (int fd) buf len s = Done (EOK, Some (len - uio_resid u'), s\<lparr>k_mem := m', k_vfs := v', k_fs := ?fs\<rparr>)"
    by (rule fd_entry [OF ok fd])
      (use perm buf run in \<open>simp add: sys_write_def fd view e count_le(2) [OF len run] Let_def\<close>)
  then show ?thesis
    using ft_ok_offset [OF ok fd view, of "off + int (len - uio_resid u')"] by (intro exI conjI) simp_all
qed

end

interpretation null_read: vnode_io "\<lambda>vn. dev_read nullio d" for d :: device
  by unfold_locales (auto simp: dev_read_def nullio_def kassert_def bnd_Done_iff split: if_splits)

interpretation null_write: vnode_io "\<lambda>vn. dev_write nullio d" for d :: device
  by unfold_locales (auto simp: dev_write_def nullio_def kassert_def bnd_Done_iff split: if_splits)

lemma lseek_done:
  assumes ok: "ft_ok (k_fs s) (k_ft s)" and fd: "fd < OPEN_MAX"
    and view: "fd_view (k_fs s) (k_ft s) fd = Some (Some vn, off, perm)"
    and whence: "0 \<le> whence" "whence \<le> 2" and seekable: "issk vn (k_vfs s)"
    and stat: "stat vn st (k_vfs s) = Done (err, eof, v')"
    and pos: "pos = (if whence = 0 then x else if whence = 1 then off + x else eof + x)"
  shows "if pos < 0 then sys_lseek issk stat (Some st) (int fd) x whence s = Done (EINVAL, None, s\<lparr>k_vfs := v'\<rparr>)
    else \<exists>fs. sys_lseek issk stat (Some st) (int fd) x whence s
        = Done (EOK, Some (word_of_int (pos div 2 ^ 32), word_of_int pos), s\<lparr>k_vfs := v', k_fs := fs\<rparr>)
      \<and> ft_ok fs (k_ft s) \<and> fd_view fs (k_ft s) = (fd_view (k_fs s) (k_ft s))(fd \<mapsto> (Some vn, pos, perm))"
proof -
  note e = fd_view_flag [OF fd view]
  let ?fs = "fte_put (the (ftp (k_ft s) ! fd)) ((ft_fte (k_fs s) (k_ft s) fd)\<lparr>fte_offset := pos\<rparr>) (k_fs s)"
  have w: "\<not> (whence < 0 \<or> whence > 2)" using whence by simp
  have "sys_lseek issk stat (Some st) (int fd) x whence s = (if pos < 0 then Done (EINVAL, None, s\<lparr>k_vfs := v'\<rparr>)
      else Done (EOK, Some (word_of_int (pos div 2 ^ 32), word_of_int pos), s\<lparr>k_vfs := v', k_fs := ?fs\<rparr>))"
    by (rule fd_entry [OF ok fd]) (simp add: sys_lseek_def w fd e seekable stat pos Let_def)
  then show ?thesis using ft_ok_offset [OF ok fd view, of pos] by (auto simp del: fun_upd_apply)
qed

lemma dup2_free:
  assumes ok: "ft_ok (k_fs s) (k_ft s)" and new: "new < OPEN_MAX" and old: "old < OPEN_MAX" and ne: "old \<noteq> new"
    and view: "fd_view (k_fs s) (k_ft s) new = None"
  shows "sys_dup2 (int old) (int new) s =
    bnd (addDupEntry (k_ft s) (int old) (int new) (k_fs s)) (\<lambda>(result, retval, t, fs).
      Done (result, retval, s\<lparr>k_ft := t, k_fs := fs\<rparr>))"
proof -
  have wf: "ft_wf (k_fs s) (k_ft s)" using ok by (simp add: ft_ok_def)
  have flag: "fte_flag (ft_fte (k_fs s) (k_ft s) new) = 0" using view fd_view_None [OF wf new] by simp
  show ?thesis by (rule fd_entry [OF ok new]) (simp add: sys_dup2_def new old ne flag)
qed

text \<open>The second release finds the lock idle already, and leaves it so.\<close>

lemma dup2_open:
  assumes ok: "ft_ok (k_fs s) (k_ft s)" and new: "new < OPEN_MAX" and old: "old < OPEN_MAX" and ne: "old \<noteq> new"
    and view: "fd_view (k_fs s) (k_ft s) new \<noteq> None"
  shows "\<exists>t fs. ft_ok fs t \<and> fd_view fs t = (fd_view (k_fs s) (k_ft s))(new := None) \<and>
    sys_dup2 (int old) (int new) s = bnd (addDupEntry t (int old) (int new) fs) (\<lambda>(result, retval, t, fs).
      Done (result, retval, s\<lparr>k_ft := t, k_fs := fs\<rparr>))"
proof -
  have wf: "ft_wf (k_fs s) (k_ft s)" using ok by (simp add: ft_ok_def)
  have flag: "fte_flag (ft_fte (k_fs s) (k_ft s) new) = 1"
    using view new by (auto simp: fd_view_def split: if_splits)
  obtain t fs where c: "sys_close (int new) s = Done (EOK, s\<lparr>k_ft := t, k_fs := fs\<rparr>)" "ft_ok fs t"
    "fd_view fs t = (fd_view (k_fs s) (k_ft s))(new := None)" "ftp t = ftp (k_ft s)"
    using sys_close_open [OF ok new view] by (elim exE conjE) (rule that)
  have again: "fte_release (the (ftp (k_ft s) ! new)) fs = Done fs"
    by (rule fd_entry [OF c(2) new]) (simp add: c(4))
  have "sys_dup2 (int old) (int new) s = bnd (addDupEntry t (int old) (int new) fs) (\<lambda>(result, retval, t, fs).
      Done (result, retval, s\<lparr>k_ft := t, k_fs := fs\<rparr>))"
    by (rule fd_entry [OF ok new]) (simp add: sys_dup2_def new old ne flag c(1) again)
  then show ?thesis using c(2,3) by (intro exI conjI)
qed

lemma sys_open_done:
  assumes ok: "ft_ok (k_fs s) (k_ft s)" and perm: "open_permissions flags = Some perm"
    and excl: "\<not> (flags AND O_EXCL \<noteq> 0 \<and> flags AND O_CREAT = 0)"
    and path: "copyinstr (k_mem s) name (of_nat PATH_MAX) = Done (EOK, len, dest, mem)"
    and vfs: "vfs_open dest flags mode (k_vfs s) = Done (EOK, vn, v)"
  shows "(\<forall>i. 3 \<le> i \<and> i < OPEN_MAX \<longrightarrow> fd_view (k_fs s) (k_ft s) i \<noteq> None) \<and>
      sys_open vfs_open True name flags mode s = Done (ENOMEM, None, s\<lparr>k_mem := mem, k_vfs := v\<rparr>) \<or>
    (\<exists>k t fs. sys_open vfs_open True name flags mode s = Done (EOK, Some (int k), s\<lparr>k_mem := mem, k_vfs := v, k_ft := t, k_fs := fs\<rparr>)
       \<and> ft_ok fs t \<and> 3 \<le> k \<and> k < OPEN_MAX \<and> fd_view (k_fs s) (k_ft s) k = None
       \<and> (\<forall>i. 3 \<le> i \<and> i < k \<longrightarrow> fd_view (k_fs s) (k_ft s) i \<noteq> None)
       \<and> fd_view fs t = (fd_view (k_fs s) (k_ft s))(k \<mapsto> (Some vn, 0, perm)))"
  using fdt.add_law [OF ok, of perm 0 vn]
proof (elim disjE conjE exE)
  assume "\<forall>i. 3 \<le> i \<and> i < OPEN_MAX \<longrightarrow> fd_view (k_fs s) (k_ft s) i \<noteq> None"
    and "addEntry (k_ft s) perm 0 vn (k_fs s) = Done (ENOMEM, True, None, k_ft s, k_fs s)"
  then show ?thesis using perm excl path vfs by (intro disjI1) (simp add: sys_open_def)
next
  fix k t fs
  assume "addEntry (k_ft s) perm 0 vn (k_fs s) = Done (EOK, False, Some (int k), t, fs)"
  then have "sys_open vfs_open True name flags mode s = Done (EOK, Some (int k), s\<lparr>k_mem := mem, k_vfs := v, k_ft := t, k_fs := fs\<rparr>)"
    using perm excl path vfs by (simp add: sys_open_def)
  moreover assume "ft_ok fs t" "3 \<le> k" "k < OPEN_MAX" "fd_view (k_fs s) (k_ft s) k = None"
    "\<forall>i. 3 \<le> i \<and> i < k \<longrightarrow> fd_view (k_fs s) (k_ft s) i \<noteq> None"
    "fd_view fs t = (fd_view (k_fs s) (k_ft s))(k \<mapsto> (Some vn, 0, perm))"
  ultimately show ?thesis by (intro disjI2 exI conjI)
qed

text \<open>Both calls of \<open>addDupEntry\<close> start from a table in which \<open>newfd\<close> is closed.\<close>

lemma dup2_starts:
  assumes ok: "ft_ok (k_fs s) (k_ft s)" and new: "new < OPEN_MAX" and old: "old < OPEN_MAX" and ne: "old \<noteq> new"
  shows "\<exists>t fs. ft_ok fs t \<and> fd_view fs t = (fd_view (k_fs s) (k_ft s))(new := None) \<and>
    sys_dup2 (int old) (int new) s = bnd (addDupEntry t (int old) (int new) fs) (\<lambda>(result, retval, t, fs).
      Done (result, retval, s\<lparr>k_ft := t, k_fs := fs\<rparr>))"
proof (cases "fd_view (k_fs s) (k_ft s) new")
  case None
  then have "(fd_view (k_fs s) (k_ft s))(new := None) = fd_view (k_fs s) (k_ft s)" by (simp add: fun_upd_idem)
  then show ?thesis using ok dup2_free [OF ok new old ne None] by metis
next
  case (Some f)
  then show ?thesis using dup2_open [OF ok new old ne] by simp
qed

lemma full_iff:
  assumes "ft_ok fs t"
  shows "firstFreeSpot t = - 1 \<longleftrightarrow> (\<forall>i. 3 \<le> i \<and> i < OPEN_MAX \<longrightarrow> fd_view fs t i \<noteq> None)"
proof -
  have wf: "ft_wf fs t" and spot: "firstFreeSpot t = lowest_free fs t" using assms by (simp_all add: ft_ok_def)
  from wf show ?thesis
  proof (cases rule: lowest_free_cases)
    case full
    then show ?thesis using spot by simp
  next
    case (free k)
    then show ?thesis using spot by auto
  qed
qed

definition demo_sys :: "unit ksys" where
  "demo_sys = \<lparr>k_ft = demo_ft 0, k_fs = demo_fs, k_mem = flat_mem, k_vfs = ()\<rparr>"

lemma ksys_unit [simp]: "(s :: unit ksys)\<lparr>k_vfs := v\<rparr> = s"
  by (cases s) simp

lemma demo_sys_ok: "ft_ok (k_fs demo_sys) (k_ft demo_sys)"
  by (simp add: demo_sys_def demo_ok)

lemma demo_sys_view:
  "fd < OPEN_MAX \<Longrightarrow> fd_view (k_fs demo_sys) (k_ft demo_sys) fd = (if fd = 2 then Some (Some 9, 5, 3) else None)"
  by (simp add: demo_sys_def fd_view_def demo_fte OPEN_MAX_def)

section \<open>Properties\<close>

text \<open>
  C23: \<open>sys_dup2\<close> on two different descriptors in range. \<open>newfd\<close> is always closed first. Then, when
  \<open>oldfd\<close> is not open the call is \<open>EBADF\<close>; when \<open>newfd\<close> is below 3 and no descriptor from 3 on is free it is
  \<open>ENFILE\<close>; in both cases \<open>newfd\<close> stays closed. Otherwise \<open>newfd\<close> becomes a copy of \<open>oldfd\<close>. All other
  descriptors, the memory and the file systems stay as they were, and no lock stays held.
\<close>

theorem sys_dup2_outcome:
  assumes "ft_ok (k_fs s) (k_ft s)" and "new < OPEN_MAX" and "old < OPEN_MAX" and "old \<noteq> new"
  shows "\<exists>e r t fs. sys_dup2 (int old) (int new) s = Done (e, r, s\<lparr>k_ft := t, k_fs := fs\<rparr>) \<and> ft_ok fs t \<and>
    (if fd_view (k_fs s) (k_ft s) old = None
     then e = EBADF \<and> r = None \<and> fd_view fs t = (fd_view (k_fs s) (k_ft s))(new := None)
     else if new < 3 \<and> (\<forall>i. 3 \<le> i \<and> i < OPEN_MAX \<longrightarrow> fd_view (k_fs s) (k_ft s) i \<noteq> None)
     then e = ENFILE \<and> r = None \<and> fd_view fs t = (fd_view (k_fs s) (k_ft s))(new := None)
     else e = EOK \<and> r = Some (int new) \<and> fd_view fs t = (fd_view (k_fs s) (k_ft s))(new := fd_view (k_fs s) (k_ft s) old))"
proof -
  let ?v = "fd_view (k_fs s) (k_ft s)"
  obtain t fs where st: "ft_ok fs t" "fd_view fs t = ?v(new := None)"
    "sys_dup2 (int old) (int new) s = bnd (addDupEntry t (int old) (int new) fs) (\<lambda>(result, retval, t, fs).
      Done (result, retval, s\<lparr>k_ft := t, k_fs := fs\<rparr>))"
    using dup2_starts [OF assms] by (elim exE conjE) (rule that)
  have old: "fd_view fs t old = ?v old" using assms(4) st(2) by simp
  have full: "firstFreeSpot t = - 1 \<longleftrightarrow> new < 3 \<and> (\<forall>i. 3 \<le> i \<and> i < OPEN_MAX \<longrightarrow> ?v i \<noteq> None)"
    unfolding full_iff [OF st(1)] st(2) using assms(2) by (auto simp: not_less)
  have same: "(?v(new := None))(new := x) = ?v(new := x)" for x by simp
  note dup = addDupEntry_ok [OF st(1) assms(3,2,4), unfolded old full, unfolded st(2) same]
  consider (bad) "?v old = None" | (full) "?v old \<noteq> None" "new < 3 \<and> (\<forall>i. 3 \<le> i \<and> i < OPEN_MAX \<longrightarrow> ?v i \<noteq> None)"
    | (copied) "?v old \<noteq> None" "\<not> (new < 3 \<and> (\<forall>i. 3 \<le> i \<and> i < OPEN_MAX \<longrightarrow> ?v i \<noteq> None))" by argo
  then show ?thesis
  proof cases
    case bad
    then have "sys_dup2 (int old) (int new) s = Done (EBADF, None, s\<lparr>k_ft := t, k_fs := fs\<rparr>)" using dup st(3) by simp
    then show ?thesis unfolding if_P [OF bad] using st(1,2) by (intro exI conjI) simp_all
  next
    case full
    then have "sys_dup2 (int old) (int new) s = Done (ENFILE, None, s\<lparr>k_ft := t, k_fs := fs\<rparr>)"
      using dup st(3) unfolding if_not_P [OF full(1)] if_P [OF full(2)] by simp
    then show ?thesis unfolding if_not_P [OF full(1)] if_P [OF full(2)] using st(1,2) by (intro exI conjI) simp_all
  next
    case copied
    with dup obtain t' fs' where d: "addDupEntry t (int old) (int new) fs = Done (EOK, Some (int new), t', fs')"
      "ft_ok fs' t'" "fd_view fs' t' = ?v(new := ?v old)"
      unfolding if_not_P [OF copied(1)] if_not_P [OF copied(2)] by (elim exE conjE) (rule that)
    have "sys_dup2 (int old) (int new) s = Done (EOK, Some (int new), s\<lparr>k_ft := t', k_fs := fs'\<rparr>)" by (simp add: st(3) d(1))
    then show ?thesis unfolding if_not_P [OF copied(1)] if_not_P [OF copied(2)] using d(2,3) by (intro exI conjI) simp_all
  qed
qed

theorem sys_dup2_outcome_witness:
  "\<exists>t fs. sys_dup2 2 7 demo_sys = Done (EOK, Some 7, demo_sys\<lparr>k_ft := t, k_fs := fs\<rparr>)
     \<and> fd_view fs t 7 = Some (Some 9, 5, 3)"
proof -
  have "(7 :: nat) < OPEN_MAX" "(2 :: nat) < OPEN_MAX" by (simp_all add: OPEN_MAX_def)
  with sys_dup2_outcome [OF demo_sys_ok, of 7 2] obtain t fs where
    "sys_dup2 2 7 demo_sys = Done (EOK, Some 7, demo_sys\<lparr>k_ft := t, k_fs := fs\<rparr>)" "fd_view fs t 7 = Some (Some 9, 5, 3)"
    by (auto simp: demo_sys_view)
  then show ?thesis by (intro exI conjI)
qed

text \<open>
  C24: \<open>sys_close\<close> on a well-formed table. A descriptor in range that is open gets closed and
  nothing else changes; one in range that is not open is \<open>EBADF\<close> with no change. A descriptor out of range is
  not \<open>EBADF\<close>: the entry is read from outside the table before the range is checked.
\<close>

theorem sys_close_outcome:
  assumes "ft_ok (k_fs s) (k_ft s)"
  shows "if \<not> check_fd fd then sys_close fd s = Fault
    else if fd_view (k_fs s) (k_ft s) (nat fd) = None then sys_close fd s = Done (EBADF, s)
    else \<exists>t fs. sys_close fd s = Done (EOK, s\<lparr>k_ft := t, k_fs := fs\<rparr>) \<and> ft_ok fs t
           \<and> fd_view fs t = (fd_view (k_fs s) (k_ft s))(nat fd := None)"
proof (cases "check_fd fd")
  case True
  then have fd: "nat fd < OPEN_MAX" "fd = int (nat fd)" by (auto simp: check_fd_def)
  show ?thesis
    using True fd(2) sys_close_closed [OF assms fd(1)] sys_close_open [OF assms fd(1)] by (auto simp del: fun_upd_apply)
next
  case False
  then show ?thesis using sys_close_range [of s fd] assms by (simp add: ft_ok_def)
qed

theorem sys_close_outcome_witness: "sys_close 32 demo_sys = Fault"
  using sys_close_outcome [OF demo_sys_ok, of 32] by (simp add: check_fd_def OPEN_MAX_def)

text \<open>
  C21: \<open>sys_open\<close> when the flags are valid, the name can be copied in and \<open>vfs_open\<close> succeeds: it returns the
  lowest free descriptor from 3 on, which then stands for the file at offset 0 with the
  permissions of the access mode; when there is none it is \<open>ENOMEM\<close> and the descriptors stay as they were.
\<close>

theorem sys_open_lowest:
  assumes "ft_ok (k_fs s) (k_ft s)" and "open_permissions flags = Some perm"
    and "\<not> (flags AND O_EXCL \<noteq> 0 \<and> flags AND O_CREAT = 0)"
    and "copyinstr (k_mem s) name (of_nat PATH_MAX) = Done (EOK, len, dest, mem)"
    and "vfs_open dest flags mode (k_vfs s) = Done (EOK, vn, v)"
  shows "(\<forall>i. 3 \<le> i \<and> i < OPEN_MAX \<longrightarrow> fd_view (k_fs s) (k_ft s) i \<noteq> None) \<and>
      sys_open vfs_open True name flags mode s = Done (ENOMEM, None, s\<lparr>k_mem := mem, k_vfs := v\<rparr>) \<or>
    (\<exists>k t fs. sys_open vfs_open True name flags mode s = Done (EOK, Some (int k), s\<lparr>k_mem := mem, k_vfs := v, k_ft := t, k_fs := fs\<rparr>)
       \<and> ft_ok fs t \<and> 3 \<le> k \<and> k < OPEN_MAX \<and> fd_view (k_fs s) (k_ft s) k = None
       \<and> (\<forall>i. 3 \<le> i \<and> i < k \<longrightarrow> fd_view (k_fs s) (k_ft s) i \<noteq> None)
       \<and> fd_view fs t = (fd_view (k_fs s) (k_ft s))(k \<mapsto> (Some vn, 0, perm)))"
  using assms by (intro sys_open_done)

theorem sys_open_lowest_witness:
  "\<exists>k s'. sys_open (\<lambda>dest flags mode v. Done (EOK, 9, v)) True 32 0 0 demo_sys = Done (EOK, Some (int k), s') \<and> 3 \<le> k"
proof -
  have path: "copyinstr (k_mem demo_sys) 32 (of_nat PATH_MAX) = Done (EOK, Some 1, [0], flat_mem\<lparr>tm_badfaultfunc := False\<rparr>)"
    using copyinstr_found [of 32 0 "of_nat PATH_MAX" flat_mem]
    by (simp add: demo_sys_def PATH_MAX_def mem_block_def flat_mem_def)
  have "fd_view (k_fs demo_sys) (k_ft demo_sys) 3 = None" by (simp add: demo_sys_view OPEN_MAX_def)
  then show ?thesis
    using sys_open_lowest [OF demo_sys_ok _ _ path, of 0 1 "\<lambda>dest flags mode v. Done (EOK, 9, v)" 0 9 "()"]
    by (fastforce simp: open_permissions_def OPEN_MAX_def)
qed

text \<open>
  C13: \<open>sys_read\<close> on a descriptor open for reading, over any vnode operation that does not claim to have
  transferred more than was asked. When the operation succeeds the call returns the number of bytes
  transferred and the offset of the descriptor moves by that number, and of no other; when the operation fails
  the call returns its error and no descriptor moves. In both cases no lock stays held.
\<close>

theorem sys_read_advances:
  assumes "vnode_io vop" and "ft_ok (k_fs s) (k_ft s)" and "fd < OPEN_MAX"
    and "fd_view (k_fs s) (k_ft s) fd = Some (Some vn, off, perm)" and "perm = 1 \<or> perm = 3"
    and "buf \<noteq> 0" and "len < 2 ^ 32"
    and "vop vn (user_uio buf len off UIO_READ (um_as (k_mem s))) (k_mem s) (k_vfs s) = Done (e, u', m', v')"
  shows "if e = EOK
    then \<exists>fs n. sys_read vop (int fd) buf len s = Done (EOK, Some n, s\<lparr>k_mem := m', k_vfs := v', k_fs := fs\<rparr>)
      \<and> n = len - uio_resid u' \<and> n \<le> len \<and> ft_ok fs (k_ft s)
      \<and> fd_view fs (k_ft s) = (fd_view (k_fs s) (k_ft s))(fd \<mapsto> (Some vn, off + int n, perm))
    else sys_read vop (int fd) buf len s = Done (e, None, s\<lparr>k_mem := m', k_vfs := v'\<rparr>)"
proof (cases "e = EOK")
  case True
  then show ?thesis using vnode_io.read_done [OF assms(1-7)] assms(8) by simp
next
  case False
  have wf: "ft_wf (k_fs s) (k_ft s)" using assms(2) by (simp add: ft_ok_def)
  have "sys_read vop (int fd) buf len s = Done (e, None, s\<lparr>k_mem := m', k_vfs := v'\<rparr>)"
    by (rule fd_entry [OF assms(2,3)])
      (use False assms in \<open>simp add: sys_read_def isValid_ok [OF wf assms(3)] fd_view_flag [OF assms(3,4)] Let_def\<close>)
  then show ?thesis using False by simp
qed

theorem sys_read_advances_witness:
  "\<exists>fs n. sys_read (\<lambda>vn. dev_read nullio \<lparr>d_blocks = 0, d_blocksize = 1, d_devnumber = 0\<rparr>) 2 64 16 demo_sys
     = Done (EOK, Some n, demo_sys\<lparr>k_fs := fs\<rparr>) \<and> n = 0 \<and> fd_view fs (k_ft demo_sys) 2 = Some (Some 9, 5, 3)"
proof -
  let ?d = "\<lparr>d_blocks = 0, d_blocksize = 1, d_devnumber = 0\<rparr>" and ?u = "user_uio 64 16 5 UIO_READ (um_as (k_mem demo_sys))"
  have two: "2 < OPEN_MAX" by (simp add: OPEN_MAX_def)
  have view: "fd_view (k_fs demo_sys) (k_ft demo_sys) 2 = Some (Some 9, 5, 3)" using two by (simp add: demo_sys_view)
  have run: "dev_read nullio ?d ?u (k_mem demo_sys) (k_vfs demo_sys) = Done (EOK, ?u, k_mem demo_sys, k_vfs demo_sys)"
    by (simp add: dev_read_def dev_tryseek_def nullio_def user_uio_def kassert_def)
  have "16 - uio_resid ?u = 0" by (simp add: user_uio_def)
  with sys_read_advances [OF null_read.vnode_io_axioms [of ?d] demo_sys_ok two view, of 64 16, simplified run] obtain fs where
    "sys_read (\<lambda>vn. dev_read nullio ?d) (int 2) 64 16 demo_sys = Done (EOK, Some 0, demo_sys\<lparr>k_fs := fs\<rparr>)"
    "fd_view fs (k_ft demo_sys) = (fd_view (k_fs demo_sys) (k_ft demo_sys))(2 \<mapsto> (Some 9, 5, 3))"
    by auto
  then have "fd_view fs (k_ft demo_sys) 2 = Some (Some 9, 5, 3)"
    "sys_read (\<lambda>vn. dev_read nullio ?d) 2 64 16 demo_sys = Done (EOK, Some 0, demo_sys\<lparr>k_fs := fs\<rparr>)" by simp_all
  then show ?thesis by blast
qed

text \<open>
  C22: \<open>sys_write\<close> on a descriptor open for writing: as for reading, the count returned is what the operation
  transferred, the offset of this descriptor alone moves by it, and a failing operation moves none.
\<close>

theorem sys_write_advances:
  assumes "vnode_io vop" and "ft_ok (k_fs s) (k_ft s)" and "fd < OPEN_MAX"
    and "fd_view (k_fs s) (k_ft s) fd = Some (Some vn, off, perm)" and "perm \<noteq> 1"
    and "buf \<noteq> 0" and "len < 2 ^ 32"
    and "vop vn (user_uio buf len off UIO_WRITE (um_as (k_mem s))) (k_mem s) (k_vfs s) = Done (e, u', m', v')"
  shows "if e = EOK
    then \<exists>fs n. sys_write vop (int fd) buf len s = Done (EOK, Some n, s\<lparr>k_mem := m', k_vfs := v', k_fs := fs\<rparr>)
      \<and> n = len - uio_resid u' \<and> n \<le> len \<and> ft_ok fs (k_ft s)
      \<and> fd_view fs (k_ft s) = (fd_view (k_fs s) (k_ft s))(fd \<mapsto> (Some vn, off + int n, perm))
    else sys_write vop (int fd) buf len s = Done (e, None, s\<lparr>k_mem := m', k_vfs := v'\<rparr>)"
proof (cases "e = EOK")
  case True
  then show ?thesis using vnode_io.write_done [OF assms(1-7)] assms(8) by simp
next
  case False
  have "sys_write vop (int fd) buf len s = Done (e, None, s\<lparr>k_mem := m', k_vfs := v'\<rparr>)"
    by (rule fd_entry [OF assms(2,3)])
      (use False assms in \<open>simp add: sys_write_def fd_view_flag [OF assms(3,4)] Let_def\<close>)
  then show ?thesis using False by simp
qed

theorem sys_write_advances_witness:
  "\<exists>fs n. sys_write (\<lambda>vn. dev_write nullio \<lparr>d_blocks = 0, d_blocksize = 1, d_devnumber = 0\<rparr>) 2 64 16 demo_sys
     = Done (EOK, Some n, demo_sys\<lparr>k_fs := fs\<rparr>) \<and> n = 16 \<and> fd_view fs (k_ft demo_sys) 2 = Some (Some 9, 21, 3)"
proof -
  let ?d = "\<lparr>d_blocks = 0, d_blocksize = 1, d_devnumber = 0\<rparr>" and ?u = "user_uio 64 16 5 UIO_WRITE (um_as (k_mem demo_sys))"
  have two: "2 < OPEN_MAX" by (simp add: OPEN_MAX_def)
  have view: "fd_view (k_fs demo_sys) (k_ft demo_sys) 2 = Some (Some 9, 5, 3)" using two by (simp add: demo_sys_view)
  have run: "dev_write nullio ?d ?u (k_mem demo_sys) (k_vfs demo_sys) = Done (EOK, ?u\<lparr>uio_resid := 0\<rparr>, k_mem demo_sys, k_vfs demo_sys)"
    by (simp add: dev_write_def dev_tryseek_def nullio_def user_uio_def kassert_def)
  from sys_write_advances [OF null_write.vnode_io_axioms [of ?d] demo_sys_ok two view, of 64 16, simplified run] obtain fs where
    "sys_write (\<lambda>vn. dev_write nullio ?d) (int 2) 64 16 demo_sys = Done (EOK, Some 16, demo_sys\<lparr>k_fs := fs\<rparr>)"
    "fd_view fs (k_ft demo_sys) = (fd_view (k_fs demo_sys) (k_ft demo_sys))(2 \<mapsto> (Some 9, 21, 3))"
    by auto
  then have "fd_view fs (k_ft demo_sys) 2 = Some (Some 9, 21, 3)"
    "sys_write (\<lambda>vn. dev_write nullio ?d) 2 64 16 demo_sys = Done (EOK, Some 16, demo_sys\<lparr>k_fs := fs\<rparr>)" by simp_all
  then show ?thesis by blast
qed

text \<open>
  \<open>sys_lseek\<close> on a descriptor of a seekable file. The new position is taken from the start, the current
  position or the size that \<open>VOP_STAT\<close> left; when it is negative the call is \<open>EINVAL\<close> and no descriptor moves;
  otherwise this descriptor alone moves to it, and the two halves handed back are, joined, the position.
\<close>

theorem sys_lseek_moves:
  assumes "ft_ok (k_fs s) (k_ft s)" and "fd < OPEN_MAX"
    and "fd_view (k_fs s) (k_ft s) fd = Some (Some vn, off, perm)"
    and "0 \<le> whence" and "whence \<le> 2" and "issk vn (k_vfs s)"
    and "stat vn st (k_vfs s) = Done (err, eof, v')"
    and "pos = (if whence = 0 then x else if whence = 1 then off + x else eof + x)" and "pos < 2 ^ 63"
  shows "if pos < 0 then sys_lseek issk stat (Some st) (int fd) x whence s = Done (EINVAL, None, s\<lparr>k_vfs := v'\<rparr>)
    else \<exists>fs hi lo. sys_lseek issk stat (Some st) (int fd) x whence s = Done (EOK, Some (hi, lo), s\<lparr>k_vfs := v', k_fs := fs\<rparr>)
      \<and> uint hi * 2 ^ 32 + uint lo = pos
      \<and> ft_ok fs (k_ft s) \<and> fd_view fs (k_ft s) = (fd_view (k_fs s) (k_ft s))(fd \<mapsto> (Some vn, pos, perm))"
proof (cases "pos < 0")
  case True
  then show ?thesis using lseek_done [where issk = issk and stat = stat, OF assms(1-8)] by simp
next
  case False
  then obtain fs where r: "sys_lseek issk stat (Some st) (int fd) x whence s
      = Done (EOK, Some (word_of_int (pos div 2 ^ 32), word_of_int pos), s\<lparr>k_vfs := v', k_fs := fs\<rparr>)"
    "ft_ok fs (k_ft s)" "fd_view fs (k_ft s) = (fd_view (k_fs s) (k_ft s))(fd \<mapsto> (Some vn, pos, perm))"
    using lseek_done [where issk = issk and stat = stat, OF assms(1-8)] unfolding if_not_P [OF False]
    by (elim exE conjE) (rule that)
  have "uint (word_of_int (pos div 2 ^ 32) :: u32) = pos div 2 ^ 32"
    using False assms(9) by (simp add: uint_word_of_int)
  moreover have "uint (word_of_int pos :: u32) = pos mod 2 ^ 32" by (simp add: uint_word_of_int)
  ultimately have "uint (word_of_int (pos div 2 ^ 32) :: u32) * 2 ^ 32 + uint (word_of_int pos :: u32) = pos" by simp
  then show ?thesis unfolding if_not_P [OF False] using r by (intro exI conjI)
qed

theorem sys_lseek_moves_witness:
  "\<exists>fs hi lo. sys_lseek (\<lambda>vn v. True) (\<lambda>vn st v. Done (EOK, 100, v)) (Some 0) 2 7 2 demo_sys
     = Done (EOK, Some (hi, lo), demo_sys\<lparr>k_fs := fs\<rparr>) \<and> uint hi * 2 ^ 32 + uint lo = 107"
proof -
  have two: "2 < OPEN_MAX" by (simp add: OPEN_MAX_def)
  have view: "fd_view (k_fs demo_sys) (k_ft demo_sys) 2 = Some (Some 9, 5, 3)" using two by (simp add: demo_sys_view)
  from sys_lseek_moves [OF demo_sys_ok two view, of 2 "\<lambda>vn v. True" "\<lambda>vn st v. Done (EOK, 100, v)" 0 EOK 100 "()" 107 7]
  obtain fs hi lo where "sys_lseek (\<lambda>vn v. True) (\<lambda>vn st v. Done (EOK, 100, v)) (Some 0) 2 7 2 demo_sys
     = Done (EOK, Some (hi, lo), demo_sys\<lparr>k_vfs := (), k_fs := fs\<rparr>)" "uint hi * 2 ^ 32 + uint lo = 107"
    by auto
  then show ?thesis by (intro exI conjI) simp_all
qed

end
