(* ===== verification/Kern_Lhd.thy ===== *)
theory Kern_Lhd
  imports Kern_Device
begin

text \<open>
  The driver of the disk: \<^verbatim>\<open>kern/dev/lamebus/lhd.c\<close>. The card itself is hardware: \<open>hw\<close> is what it does from
  the moment the status register is written to its interrupt, on the contents \<open>'h\<close> of the disk, given the
  sector, whether it is a write, and the on-card buffer; it hands back the status register and the
  buffer. The two semaphores are their counts; a \<open>P\<close> at 0 is \<open>Stuck\<close>, as there is no other
  thread in the run that would do the \<open>V\<close>.
\<close>

unbundle bit_operations_syntax

type_synonym 'h hwcard = "u32 \<Rightarrow> bool \<Rightarrow> u8 list \<Rightarrow> 'h \<Rightarrow> u32 \<times> u8 list \<times> 'h"

record 'h lhd =
  lh_blocks :: u32
  lh_buf :: "u8 list"
  lh_result :: errno
  lh_clear :: nat
  lh_done :: nat
  lh_disk :: 'h

abbreviation (input) LHD_IDLE :: u32 where "LHD_IDLE \<equiv> 0"
abbreviation (input) LHD_WORKING :: u32 where "LHD_WORKING \<equiv> 1"
abbreviation (input) LHD_OK :: u32 where "LHD_OK \<equiv> 4"
abbreviation (input) LHD_INVSECT :: u32 where "LHD_INVSECT \<equiv> 12"
abbreviation (input) LHD_MEDIA :: u32 where "LHD_MEDIA \<equiv> 20"
abbreviation (input) LHD_STATEMASK :: u32 where "LHD_STATEMASK \<equiv> 0x1d"
abbreviation (input) LHD_SECTSIZE :: nat where "LHD_SECTSIZE \<equiv> 512"

definition lhd_code_to_errno :: "u32 \<Rightarrow> errno" where
  "lhd_code_to_errno code =
     (let c = code AND LHD_STATEMASK in
      if c = LHD_OK then EOK else if c = LHD_INVSECT then EINVAL else if c = LHD_MEDIA then EIO else EAGAIN)"

definition lhd_iodone :: "errno \<Rightarrow> 'h lhd \<Rightarrow> 'h lhd" where
  "lhd_iodone err lh = lh\<lparr>lh_result := err, lh_done := Suc (lh_done lh)\<rparr>"

definition lhd_irq :: "u32 \<Rightarrow> 'h lhd \<Rightarrow> 'h lhd" where
  "lhd_irq val lh =
     (let c = val AND LHD_STATEMASK in
      if c = LHD_OK \<or> c = LHD_INVSECT \<or> c = LHD_MEDIA then lhd_iodone (lhd_code_to_errno val) lh else lh)"

definition lhd_eachopen :: "device \<Rightarrow> u32 \<Rightarrow> 'd \<Rightarrow> (errno \<times> 'd) outcome" where
  "lhd_eachopen d openflags v = Done (EOK, v)"

definition lhd_ioctl :: "device \<Rightarrow> int \<Rightarrow> u32 \<Rightarrow> 'd \<Rightarrow> (errno \<times> 'd) outcome" where
  "lhd_ioctl d op data v = Done (EIOCTL, v)"

definition sem_P :: "nat \<Rightarrow> nat outcome" where
  "sem_P count = (case count of 0 \<Rightarrow> Stuck | Suc n \<Rightarrow> Done n)"

text \<open>One pass of the loop of \<open>lhd_io\<close>, for sector \<open>sect\<close>.\<close>

definition lhd_sector ::
  "'h hwcard \<Rightarrow> u32 \<Rightarrow> uio \<Rightarrow> umem \<Rightarrow> 'h lhd \<Rightarrow> (errno \<times> uio \<times> umem \<times> 'h lhd) outcome" where
  "lhd_sector hw sect u m lh =
     bnd (sem_P (lh_clear lh)) (\<lambda>c.
     let lh = lh\<lparr>lh_clear := c\<rparr> in
     bnd (if uio_dir u = UIO_WRITE then uiomove (lh_buf lh) LHD_SECTSIZE u m else Done (EOK, lh_buf lh, u, m))
       (\<lambda>(result, buf, u, m).
     let lh = lh\<lparr>lh_buf := buf\<rparr> in
     if result \<noteq> EOK then Done (result, u, m, lh\<lparr>lh_clear := Suc (lh_clear lh)\<rparr>)
     else
       let (code, buf, disk) = hw sect (uio_dir u = UIO_WRITE) (lh_buf lh) (lh_disk lh);
           lh = lhd_irq code (lh\<lparr>lh_buf := buf, lh_disk := disk\<rparr>)
       in bnd (sem_P (lh_done lh)) (\<lambda>dn.
          let lh = lh\<lparr>lh_done := dn\<rparr>; result = lh_result lh in
          bnd (if result = EOK \<and> uio_dir u = UIO_READ then uiomove (lh_buf lh) LHD_SECTSIZE u m
               else Done (result, lh_buf lh, u, m)) (\<lambda>(result, buf, u, m).
          Done (result, u, m, lh\<lparr>lh_buf := buf, lh_clear := Suc (lh_clear lh)\<rparr>)))))"

primrec lhd_sectors ::
  "'h hwcard \<Rightarrow> nat \<Rightarrow> u32 \<Rightarrow> uio \<Rightarrow> umem \<Rightarrow> 'h lhd \<Rightarrow> (errno \<times> uio \<times> umem \<times> 'h lhd) outcome" where
  "lhd_sectors hw 0 sect u m lh = Done (EOK, u, m, lh)"
| "lhd_sectors hw (Suc k) sect u m lh =
     bnd (lhd_sector hw sect u m lh) (\<lambda>(result, u, m, lh).
     if result \<noteq> EOK then Done (result, u, m, lh) else lhd_sectors hw k (sect + 1) u m lh)"

text \<open>The sum of the sector and the length is taken on 32 bits.\<close>

definition lhd_io :: "'h hwcard \<Rightarrow> uio \<Rightarrow> umem \<Rightarrow> 'h lhd \<Rightarrow> (errno \<times> uio \<times> umem \<times> 'h lhd) outcome" where
  "lhd_io hw u m lh =
     (let sector = (word_of_int (uio_offset u sdiv int LHD_SECTSIZE) :: u32);
          sectoff = (word_of_int (uio_offset u smod int LHD_SECTSIZE) :: u32);
          len = uio_resid u div LHD_SECTSIZE;
          lenoff = uio_resid u mod LHD_SECTSIZE
      in if sectoff \<noteq> 0 \<or> lenoff \<noteq> 0 then Done (EINVAL, u, m, lh)
         else if sector + of_nat len > lh_blocks lh then Done (EINVAL, u, m, lh)
         else lhd_sectors hw len sector u m lh)"

section \<open>Disks of blocks\<close>

text \<open>
  What the file system relies on of a disk with \<open>n\<close> blocks that has no media errors: a transfer of one
  block moves that block between the disk and the addresses of the \<open>uio\<close>, and touches no other.
\<close>

definition block_uio :: "nat \<Rightarrow> nat \<Rightarrow> umem \<Rightarrow> uio \<Rightarrow> bool" where
  "block_uio n b m u \<longleftrightarrow> uio_ready m u \<and> uio_resid u = 512 \<and> uio_offset u = int (512 * b) \<and> b < n"

locale block_disk =
  fixes io :: "uio \<Rightarrow> umem \<Rightarrow> 'd \<Rightarrow> (errno \<times> uio \<times> umem \<times> 'd) outcome"
    and good :: "'d \<Rightarrow> bool"
    and blk :: "'d \<Rightarrow> nat \<Rightarrow> u8 list"
    and n :: nat
  assumes blk_len: "good d \<Longrightarrow> b < n \<Longrightarrow> length (blk d b) = 512"
    and rd: "good d \<Longrightarrow> block_uio n b m u \<Longrightarrow> uio_dir u = UIO_READ \<Longrightarrow>
      \<exists>u' m' d'. io u m d = Done (EOK, u', m', d') \<and> uio_moved 512 u u' \<and> mem_env m' = mem_env m
        \<and> um_byte m' = um_byte (mem_scatter (uio_addrs u) (blk d b) m) \<and> good d' \<and> (\<forall>j < n. blk d' j = blk d j)"
    and wr: "good d \<Longrightarrow> block_uio n b m u \<Longrightarrow> uio_dir u = UIO_WRITE \<Longrightarrow>
      \<exists>u' m' d'. io u m d = Done (EOK, u', m', d') \<and> uio_moved 512 u u' \<and> mem_env m' = mem_env m
        \<and> um_byte m' = um_byte m \<and> good d'
        \<and> (\<forall>j < n. blk d' j = (if j = b then map (um_byte m) (uio_addrs u) else blk d j))"

text \<open>A card whose medium holds a list of sectors and never fails.\<close>

definition sound_card :: "(u8 list list) hwcard" where
  "sound_card sect iswrite buf disk =
     (if unat sect < length disk
      then if iswrite then (LHD_OK OR 2, buf, disk[unat sect := buf]) else (LHD_OK, disk ! unat sect, disk)
      else (LHD_INVSECT, buf, disk))"

definition lhd_good :: "nat \<Rightarrow> u8 list list lhd \<Rightarrow> bool" where
  "lhd_good n lh \<longleftrightarrow> n < 2 ^ 32 \<and> lh_blocks lh = of_nat n \<and> length (lh_disk lh) = n \<and> (\<forall>s \<in> set (lh_disk lh). length s = 512)
     \<and> length (lh_buf lh) = 512 \<and> lh_clear lh = 1 \<and> lh_done lh = 0"

lemma lhd_io_block:
  assumes good: "lhd_good n lh" and u: "block_uio n b m u"
  shows "lhd_io hw u m lh = lhd_sector hw (of_nat b) u m lh"
proof -
  have b: "b < n" "n < 2 ^ 32" and off: "uio_offset u = int (512 * b)" and r: "uio_resid u = 512"
    using good u by (simp_all add: lhd_good_def block_uio_def)
  have s: "uio_offset u sdiv 512 = int b" "uio_offset u smod 512 = 0"
    by (simp_all add: off signed_divide_int_def signed_modulo_int_def sgn_if abs_if)
  have "unat (of_nat b + 1 :: u32) = b + 1" using b by (simp add: unat_word_ariths unat_of_nat)
  then have "\<not> of_nat b + 1 > lh_blocks lh"
    using good b by (simp add: lhd_good_def not_less word_le_nat_alt unat_of_nat)
  moreover have "bnd x (\<lambda>(result, u, m, lh). if result \<noteq> EOK then Done (result, u, m, lh) else lhd_sectors hw 0 s u m lh) = x"
    for x and s :: u32 by (cases x) (auto split: prod.splits)
  ultimately show ?thesis by (simp add: lhd_io_def s r Let_def)
qed

lemma addrs_512: "uio_ready m u \<Longrightarrow> uio_resid u = 512 \<Longrightarrow> length (uio_addrs u) = 512"
  by (simp add: uio_ready_def uio_ok_addrs)

lemma lhd_read_block:
  assumes good: "lhd_good n lh" and u: "block_uio n b m u" and dir: "uio_dir u = UIO_READ"
  shows "\<exists>u' m' lh'. lhd_io sound_card u m lh = Done (EOK, u', m', lh') \<and> uio_moved 512 u u' \<and> mem_env m' = mem_env m
    \<and> um_byte m' = um_byte (mem_scatter (uio_addrs u) (lh_disk lh ! b) m) \<and> lhd_good n lh' \<and> lh_disk lh' = lh_disk lh"
proof -
  have b: "unat (of_nat b :: u32) = b" "b < length (lh_disk lh)" and ready: "uio_ready m u" "uio_resid u = 512"
    and len: "length (lh_disk lh ! b) = 512" and sem: "lh_clear lh = Suc 0" "lh_done lh = 0"
    using good u by (simp_all add: lhd_good_def block_uio_def unat_of_nat)
  obtain u' m' where mv: "uiomove (lh_disk lh ! b) 512 u m = Done (EOK, lh_disk lh ! b, u', m')" "uio_moved 512 u u'"
    "mem_env m' = mem_env m" "um_byte m' = um_byte (mem_scatter (uio_addrs u) (lh_disk lh ! b) m)"
    using uiomove_read [OF ready(1) dir, of 512 "lh_disk lh ! b"] addrs_512 [OF ready] len ready(2) by auto
  have "lhd_io sound_card u m lh = Done (EOK, u', m', lh\<lparr>lh_buf := lh_disk lh ! b, lh_result := EOK\<rparr>)"
    by (simp add: lhd_io_block [OF good u] lhd_sector_def dir sem sem_P_def sound_card_def b lhd_irq_def lhd_iodone_def
        lhd_code_to_errno_def mv(1))
  moreover have "lhd_good n (lh\<lparr>lh_buf := lh_disk lh ! b, lh_result := EOK\<rparr>)" using good len by (simp add: lhd_good_def)
  ultimately show ?thesis using mv(2-4) by - (intro exI conjI, assumption, simp_all)
qed

lemma lhd_write_block:
  assumes good: "lhd_good n lh" and u: "block_uio n b m u" and dir: "uio_dir u = UIO_WRITE"
  shows "\<exists>u' m' lh'. lhd_io sound_card u m lh = Done (EOK, u', m', lh') \<and> uio_moved 512 u u' \<and> mem_env m' = mem_env m
    \<and> um_byte m' = um_byte m \<and> lhd_good n lh' \<and> lh_disk lh' = (lh_disk lh)[b := map (um_byte m) (uio_addrs u)]"
proof -
  let ?bs = "map (um_byte m) (uio_addrs u)"
  have b: "unat (of_nat b :: u32) = b" "b < length (lh_disk lh)" and ready: "uio_ready m u" "uio_resid u = 512"
    and len: "length (lh_buf lh) = 512" and sem: "lh_clear lh = Suc 0" "lh_done lh = 0"
    using good u by (simp_all add: lhd_good_def block_uio_def unat_of_nat)
  obtain u' m' where mv: "uiomove (lh_buf lh) 512 u m = Done (EOK, ?bs, u', m')" "uio_moved 512 u u'"
    "mem_env m' = mem_env m" "um_byte m' = um_byte m"
    using uiomove_write [OF ready(1) dir, of 512 "lh_buf lh"] addrs_512 [OF ready] len ready(2) by auto
  have dir': "uio_dir u' = UIO_WRITE" using mv(2) dir by (simp add: uio_moved_def)
  have "lhd_io sound_card u m lh = Done (EOK, u', m', lh\<lparr>lh_buf := ?bs, lh_disk := (lh_disk lh)[b := ?bs], lh_result := EOK\<rparr>)"
    by (simp add: lhd_io_block [OF good u] lhd_sector_def dir dir' sem sem_P_def sound_card_def b lhd_irq_def lhd_iodone_def
        lhd_code_to_errno_def mv(1))
  moreover have "lhd_good n (lh\<lparr>lh_buf := ?bs, lh_disk := (lh_disk lh)[b := ?bs], lh_result := EOK\<rparr>)"
    using good addrs_512 [OF ready] by (auto simp: lhd_good_def dest!: subsetD [OF set_update_subset_insert])
  ultimately show ?thesis using mv(2-4) by - (intro exI conjI, assumption, simp_all)
qed

interpretation lhd: block_disk "lhd_io sound_card" "lhd_good n" "\<lambda>lh b. lh_disk lh ! b" n for n
proof unfold_locales
  fix lh :: "u8 list list lhd" and b m u
  show "length (lh_disk lh ! b) = 512" if "lhd_good n lh" "b < n" using that by (simp add: lhd_good_def)
  show "\<exists>u' m' d'. lhd_io sound_card u m lh = Done (EOK, u', m', d') \<and> uio_moved 512 u u' \<and> mem_env m' = mem_env m
      \<and> um_byte m' = um_byte (mem_scatter (uio_addrs u) (lh_disk lh ! b) m) \<and> lhd_good n d'
      \<and> (\<forall>j < n. lh_disk d' ! j = lh_disk lh ! j)"
    if "lhd_good n lh" "block_uio n b m u" "uio_dir u = UIO_READ"
    using lhd_read_block [OF that] by metis
  show "\<exists>u' m' d'. lhd_io sound_card u m lh = Done (EOK, u', m', d') \<and> uio_moved 512 u u' \<and> mem_env m' = mem_env m
      \<and> um_byte m' = um_byte m \<and> lhd_good n d'
      \<and> (\<forall>j < n. lh_disk d' ! j = (if j = b then map (um_byte m) (uio_addrs u) else lh_disk lh ! j))"
    if that': "lhd_good n lh" "block_uio n b m u" "uio_dir u = UIO_WRITE"
  proof -
    obtain u' m' d' where "lhd_io sound_card u m lh = Done (EOK, u', m', d')" "uio_moved 512 u u'" "mem_env m' = mem_env m"
      "um_byte m' = um_byte m" "lhd_good n d'" "lh_disk d' = (lh_disk lh)[b := map (um_byte m) (uio_addrs u)]"
      using lhd_write_block [OF that'] by (elim exE conjE) (rule that)
    moreover from this have "\<forall>j < n. lh_disk d' ! j = (if j = b then map (um_byte m) (uio_addrs u) else lh_disk lh ! j)"
      using that'(1) by (simp add: lhd_good_def nth_list_update)
    ultimately show ?thesis by (intro exI conjI)
  qed
qed

section \<open>Kernel buffers\<close>

text \<open>The transfers of one block to and from a buffer of the kernel.\<close>

definition kbuf_addrs :: "u32 \<Rightarrow> u32 list" where
  "kbuf_addrs a = map (\<lambda>i. a + of_nat i) [0..<512]"

lemma length_kbuf_addrs [simp]: "length (kbuf_addrs a) = 512"
  by (simp add: kbuf_addrs_def)

lemma nth_kbuf_addrs: "i < 512 \<Longrightarrow> kbuf_addrs a ! i = a + of_nat i"
  by (simp add: kbuf_addrs_def)

lemma distinct_kbuf_addrs: "distinct (kbuf_addrs a)"
proof -
  have "i = j" if "i < 512" "j < 512" "(of_nat i :: u32) = of_nat j" for i j
  proof -
    from that(3) have "unat (of_nat i :: u32) = unat (of_nat j :: u32)" by simp
    then show ?thesis using that(1,2) by (simp add: of_nat_u32)
  qed
  then show ?thesis by (auto simp: kbuf_addrs_def distinct_map inj_on_def)
qed

lemma kinit_block:
  assumes "b < n"
  shows "block_uio n b m (uio_kinit a 512 (int (512 * b)) rw)" and "uio_addrs (uio_kinit a 512 off rw) = kbuf_addrs a"
    and "uio_dir (uio_kinit a 512 off rw) = rw"
  using assms by (simp_all add: block_uio_def uio_ready_def uio_ok_def uio_usable_def uio_kinit_def uio_addrs_def kbuf_addrs_def)

lemma block_scatter:
  assumes "length bs = 512"
  shows "map (um_byte (mem_scatter (kbuf_addrs a) bs m)) (kbuf_addrs a) = bs"
  using assms mem_scatter_at [OF _ distinct_kbuf_addrs, of a bs] by (intro nth_equalityI) simp_all

section \<open>Properties\<close>

text \<open>
  C19: A block written to a disk with no media errors and read back into another buffer comes back
  unchanged, and both transfers succeed; the other blocks of the disk are what they were.
\<close>

theorem lhd_write_read:
  assumes "lhd_good n lh" and "b < n"
  shows "\<exists>u1 m1 lh1 u2 m2 lh2.
      lhd_io sound_card (uio_kinit a 512 (int (512 * b)) UIO_WRITE) m lh = Done (EOK, u1, m1, lh1)
    \<and> lhd_io sound_card (uio_kinit a' 512 (int (512 * b)) UIO_READ) m1 lh1 = Done (EOK, u2, m2, lh2)
    \<and> map (um_byte m2) (kbuf_addrs a') = map (um_byte m) (kbuf_addrs a)
    \<and> lhd_good n lh2 \<and> (\<forall>j < n. j \<noteq> b \<longrightarrow> lh_disk lh2 ! j = lh_disk lh ! j)"
proof -
  note k = kinit_block [OF assms(2)]
  obtain u1 m1 lh1 where w: "lhd_io sound_card (uio_kinit a 512 (int (512 * b)) UIO_WRITE) m lh = Done (EOK, u1, m1, lh1)"
    "lhd_good n lh1" "\<forall>j < n. lh_disk lh1 ! j = (if j = b then map (um_byte m) (kbuf_addrs a) else lh_disk lh ! j)"
    using lhd.wr [OF assms(1) k(1) k(3), of a m] unfolding k(2) by (elim exE conjE) (rule that)
  obtain u2 m2 lh2 where r: "lhd_io sound_card (uio_kinit a' 512 (int (512 * b)) UIO_READ) m1 lh1 = Done (EOK, u2, m2, lh2)"
    "um_byte m2 = um_byte (mem_scatter (kbuf_addrs a') (lh_disk lh1 ! b) m1)" "lhd_good n lh2"
    "\<forall>j < n. lh_disk lh2 ! j = lh_disk lh1 ! j"
    using lhd.rd [OF w(2) k(1) k(3), of a' m1] unfolding k(2) by (elim exE conjE) (rule that)
  have "map (um_byte m2) (kbuf_addrs a') = map (um_byte m) (kbuf_addrs a)"
    unfolding r(2) using w(3) assms(2) by (simp add: block_scatter del: map_eq_conv)
  then show ?thesis using w r by - (intro exI conjI, assumption, assumption, simp_all)
qed

theorem lhd_write_read_witness:
  "\<exists>u1 m1 lh1 u2 m2 lh2.
      lhd_io sound_card (uio_kinit 0x80001000 512 512 UIO_WRITE) flat_mem
        \<lparr>lh_blocks = 2, lh_buf = replicate 512 0, lh_result = EOK, lh_clear = 1, lh_done = 0, lh_disk = replicate 2 (replicate 512 7)\<rparr>
        = Done (EOK, u1, m1, lh1)
    \<and> lhd_io sound_card (uio_kinit 0x80002000 512 512 UIO_READ) m1 lh1 = Done (EOK, u2, m2, lh2)
    \<and> map (um_byte m2) (kbuf_addrs 0x80002000) = map (um_byte flat_mem) (kbuf_addrs 0x80001000)"
proof -
  let ?lh = "\<lparr>lh_blocks = 2, lh_buf = replicate 512 0, lh_result = EOK, lh_clear = 1, lh_done = 0, lh_disk = replicate 2 (replicate 512 7)\<rparr>"
  have "lhd_good 2 ?lh" by (simp add: lhd_good_def)
  from lhd_write_read [OF this, of 1 "0x80001000" flat_mem "0x80002000"] show ?thesis
    by (simp del: map_eq_conv) blast
qed

end
