(* ===== verification/Kern_Sfs.thy ===== *)
theory Kern_Sfs
  imports Kern_Lhd Kern_Bitmap
begin

text \<open>
  Blocks of the simple file system: \<^verbatim>\<open>kern/fs/sfs/sfs_balloc.c\<close>, \<^verbatim>\<open>sfs_bmap.c\<close> and \<^verbatim>\<open>sfs_io.c\<close>, with the
  structures of \<^verbatim>\<open>kern/include/kern/sfs.h\<close> and \<^verbatim>\<open>kern/include/sfs.h\<close>.

  The state has the free map, the memory, the device below (\<open>DEVOP_IO\<close> is a component of the
  environment) and the depth of the big lock, which the running thread holds exactly when the depth is
  not 0. The static buffers are at kernel addresses, also components of the environment. A buffer of block
  numbers is taken as the list of its words (big-endian, as on the machine) when it was filled, and is put
  back in memory before it is written; a change of the words that is not followed by a write is not put
  back, since every use of these buffers fills them first.
\<close>

record sfs_dinode =
  sfi_size :: u32
  sfi_type :: nat
  sfi_linkcount :: nat
  sfi_direct :: "u32 list"
  sfi_indirect :: u32

record sfs_vnode =
  sv_i :: sfs_dinode
  sv_ino :: u32
  sv_dirty :: bool

record 'd sfs_fs =
  sb_nblocks :: u32
  sfs_freemap :: bitmap
  sfs_freemapdirty :: bool
  sfs_mem :: umem
  sfs_dev :: 'd
  biglock_depth :: nat

record 'd sfs_env =
  DEVOP_IO :: "uio \<Rightarrow> umem \<Rightarrow> 'd \<Rightarrow> (errno \<times> uio \<times> umem \<times> 'd) outcome"
  zeros_buf :: u32
  bmap_buf :: u32
  itrunc_buf :: u32
  partial_buf :: u32
  meta_buf :: u32

definition SFS_BLOCKSIZE :: nat where "SFS_BLOCKSIZE = 512"
definition SFS_NDIRECT :: nat where "SFS_NDIRECT = 15"
definition SFS_NINDIRECT :: nat where "SFS_NINDIRECT = 1"
definition SFS_DBPERIDB :: nat where "SFS_DBPERIDB = 128"

section \<open>The big lock\<close>

definition vfs_biglock_acquire :: "'d sfs_fs \<Rightarrow> 'd sfs_fs" where
  "vfs_biglock_acquire s = s\<lparr>biglock_depth := Suc (biglock_depth s)\<rparr>"

definition vfs_biglock_release :: "'d sfs_fs \<Rightarrow> 'd sfs_fs outcome" where
  "vfs_biglock_release s = kassert (0 < biglock_depth s) (Done (s\<lparr>biglock_depth := biglock_depth s - 1\<rparr>))"

definition vfs_biglock_do_i_hold :: "'d sfs_fs \<Rightarrow> bool" where
  "vfs_biglock_do_i_hold s \<longleftrightarrow> 0 < biglock_depth s"

section \<open>Block input and output\<close>

text \<open>The \<open>goto retry\<close>: up to ten more tries after an \<open>EIO\<close>.\<close>

function sfs_retry ::
  "'d sfs_env \<Rightarrow> nat \<Rightarrow> uio \<Rightarrow> 'd sfs_fs \<Rightarrow> (errno \<times> uio \<times> 'd sfs_fs) outcome" where
  "sfs_retry E tries u s =
     bnd (DEVOP_IO E u (sfs_mem s) (sfs_dev s)) (\<lambda>(result, u, m, d).
     let s = s\<lparr>sfs_mem := m, sfs_dev := d\<rparr> in
     if result = EINVAL then Panic
     else if result = EIO \<and> tries < 10 then sfs_retry E (Suc tries) u s
     else Done (result, u, s))"
  by pat_completeness auto
termination
  by (relation "measure (\<lambda>(E, tries, u, s). 10 - tries)") auto

declare sfs_retry.simps [simp del]

definition sfs_rwblock :: "'d sfs_env \<Rightarrow> uio \<Rightarrow> 'd sfs_fs \<Rightarrow> (errno \<times> uio \<times> 'd sfs_fs) outcome" where
  "sfs_rwblock E u s = kassert (vfs_biglock_do_i_hold s) (sfs_retry E 0 u s)"

definition SFSUIO :: "u32 \<Rightarrow> u32 \<Rightarrow> uio_rw \<Rightarrow> uio" where
  "SFSUIO ptr block rw = uio_kinit ptr SFS_BLOCKSIZE (uint block * int SFS_BLOCKSIZE) rw"

definition sfs_readblock :: "'d sfs_env \<Rightarrow> u32 \<Rightarrow> u32 \<Rightarrow> nat \<Rightarrow> 'd sfs_fs \<Rightarrow> (errno \<times> 'd sfs_fs) outcome" where
  "sfs_readblock E block data len s =
     kassert (len = SFS_BLOCKSIZE)
       (bnd (sfs_rwblock E (SFSUIO data block UIO_READ) s) (\<lambda>(result, u, s). Done (result, s)))"

definition sfs_writeblock :: "'d sfs_env \<Rightarrow> u32 \<Rightarrow> u32 \<Rightarrow> nat \<Rightarrow> 'd sfs_fs \<Rightarrow> (errno \<times> 'd sfs_fs) outcome" where
  "sfs_writeblock E block data len s =
     kassert (len = SFS_BLOCKSIZE)
       (bnd (sfs_rwblock E (SFSUIO data block UIO_WRITE) s) (\<lambda>(result, u, s). Done (result, s)))"

section \<open>Allocation\<close>

definition sfs_clearblock :: "'d sfs_env \<Rightarrow> u32 \<Rightarrow> 'd sfs_fs \<Rightarrow> (errno \<times> 'd sfs_fs) outcome" where
  "sfs_clearblock E block s = sfs_writeblock E block (zeros_buf E) SFS_BLOCKSIZE s"

definition sfs_balloc :: "'d sfs_env \<Rightarrow> 'd sfs_fs \<Rightarrow> (errno \<times> u32 option \<times> 'd sfs_fs) outcome" where
  "sfs_balloc E s =
     bnd (bitmap_alloc (sfs_freemap s)) (\<lambda>(result, k, map).
     let s = s\<lparr>sfs_freemap := map\<rparr> in
     if result \<noteq> EOK then Done (result, None, s)
     else bnd (deref k) (\<lambda>k.
       let diskblock = (of_nat k :: u32); s = s\<lparr>sfs_freemapdirty := True\<rparr> in
       if diskblock \<ge> sb_nblocks s then Panic
       else bnd (sfs_clearblock E diskblock s) (\<lambda>(result, s).
         if result \<noteq> EOK
         then bnd (bitmap_unmark (sfs_freemap s) (unat diskblock)) (\<lambda>map.
              Done (result, Some diskblock, s\<lparr>sfs_freemap := map\<rparr>))
         else Done (result, Some diskblock, s))))"

definition sfs_bfree :: "u32 \<Rightarrow> 'd sfs_fs \<Rightarrow> 'd sfs_fs outcome" where
  "sfs_bfree diskblock s =
     bnd (bitmap_unmark (sfs_freemap s) (unat diskblock)) (\<lambda>map.
     Done (s\<lparr>sfs_freemap := map, sfs_freemapdirty := True\<rparr>))"

definition sfs_bused :: "u32 \<Rightarrow> 'd sfs_fs \<Rightarrow> bool outcome" where
  "sfs_bused diskblock s =
     (if diskblock \<ge> sb_nblocks s then Panic
      else bnd (bitmap_isset (sfs_freemap s) (unat diskblock)) (\<lambda>w. Done (w \<noteq> 0)))"

section \<open>Block maps\<close>

text \<open>
  \<open>sfs_bmap\<close>: the check on the block that is handed back is shared by its two ends. Result: the code, what was
  stored through \<open>diskblock\<close>, the vnode and the file system.
\<close>

definition bmap_hand_back ::
  "u32 \<Rightarrow> sfs_vnode \<Rightarrow> 'd sfs_fs \<Rightarrow> (errno \<times> u32 option \<times> sfs_vnode \<times> 'd sfs_fs) outcome" where
  "bmap_hand_back block sv s =
     (if block \<noteq> 0
      then bnd (sfs_bused block s) (\<lambda>used. if \<not> used then Panic else Done (EOK, Some block, sv, s))
      else Done (EOK, Some block, sv, s))"

definition bmap_direct ::
  "'d sfs_env \<Rightarrow> sfs_vnode \<Rightarrow> nat \<Rightarrow> bool \<Rightarrow> 'd sfs_fs \<Rightarrow> (errno \<times> u32 option \<times> sfs_vnode \<times> 'd sfs_fs) outcome" where
  "bmap_direct E sv fileblock doalloc s =
     bnd (arr_get (sfi_direct (sv_i sv)) fileblock) (\<lambda>block.
     if block = 0 \<and> doalloc
     then bnd (sfs_balloc E s) (\<lambda>(result, k, s).
          if result \<noteq> EOK then Done (result, None, sv, s)
          else bnd (deref k) (\<lambda>block.
            bmap_hand_back block
              (sv\<lparr>sv_i := (sv_i sv)\<lparr>sfi_direct := (sfi_direct (sv_i sv))[fileblock := block]\<rparr>, sv_dirty := True\<rparr>) s))
     else bmap_hand_back block sv s)"

text \<open>The part of \<open>sfs_bmap\<close> after the words \<open>idbuf\<close> of the indirect block are in the buffer.\<close>

definition bmap_in_buffer ::
  "'d sfs_env \<Rightarrow> sfs_vnode \<Rightarrow> u32 \<Rightarrow> u32 list \<Rightarrow> nat \<Rightarrow> bool \<Rightarrow> 'd sfs_fs
     \<Rightarrow> (errno \<times> u32 option \<times> sfs_vnode \<times> 'd sfs_fs) outcome" where
  "bmap_in_buffer E sv idblock idbuf idoff doalloc s =
     bnd (arr_get idbuf idoff) (\<lambda>block.
     if block = 0 \<and> doalloc
     then bnd (sfs_balloc E s) (\<lambda>(result, k, s).
          if result \<noteq> EOK then Done (result, None, sv, s)
          else bnd (deref k) (\<lambda>block.
            let s = s\<lparr>sfs_mem := kmem_write (be_bytes (idbuf[idoff := block])) (bmap_buf E) (sfs_mem s)\<rparr> in
            bnd (sfs_writeblock E idblock (bmap_buf E) SFS_BLOCKSIZE s) (\<lambda>(result, s).
            if result \<noteq> EOK then Done (result, None, sv, s)
            else bmap_hand_back block sv s)))
     else bmap_hand_back block sv s)"

definition sfs_bmap ::
  "'d sfs_env \<Rightarrow> sfs_vnode \<Rightarrow> u32 \<Rightarrow> bool \<Rightarrow> 'd sfs_fs \<Rightarrow> (errno \<times> u32 option \<times> sfs_vnode \<times> 'd sfs_fs) outcome" where
  "sfs_bmap E sv fileblock doalloc s =
     kassert (vfs_biglock_do_i_hold s)
     (if unat fileblock < SFS_NDIRECT then bmap_direct E sv (unat fileblock) doalloc s
      else
        let fileblock = unat fileblock - SFS_NDIRECT;
            idnum = fileblock div SFS_DBPERIDB; idoff = fileblock mod SFS_DBPERIDB;
            idblock = sfi_indirect (sv_i sv)
        in if idnum \<ge> SFS_NINDIRECT then Done (EFBIG, None, sv, s)
           else if idblock = 0 \<and> \<not> doalloc then Done (EOK, Some 0, sv, s)
           else if idblock = 0
           then bnd (sfs_balloc E s) (\<lambda>(result, k, s).
                if result \<noteq> EOK then Done (result, None, sv, s)
                else bnd (deref k) (\<lambda>idblock.
                  bmap_in_buffer E (sv\<lparr>sv_i := (sv_i sv)\<lparr>sfi_indirect := idblock\<rparr>, sv_dirty := True\<rparr>)
                    idblock (replicate SFS_DBPERIDB 0) idoff doalloc s))
           else bnd (sfs_readblock E idblock (bmap_buf E) SFS_BLOCKSIZE s) (\<lambda>(result, s).
                if result \<noteq> EOK then Done (result, None, sv, s)
                else bmap_in_buffer E sv idblock (be_words (mem_block (sfs_mem s) (bmap_buf E) SFS_BLOCKSIZE)) idoff doalloc s))"

section \<open>Truncation\<close>

text \<open>The loop over the direct blocks, from slot \<open>i\<close> on.\<close>

function itrunc_direct :: "u32 \<Rightarrow> nat \<Rightarrow> sfs_vnode \<Rightarrow> 'd sfs_fs \<Rightarrow> (sfs_vnode \<times> 'd sfs_fs) outcome" where
  "itrunc_direct blocklen i sv s =
     (if i < SFS_NDIRECT
      then bnd (arr_get (sfi_direct (sv_i sv)) i) (\<lambda>block.
           if unat blocklen \<le> i \<and> block \<noteq> 0
           then bnd (sfs_bfree block s) (\<lambda>s.
                itrunc_direct blocklen (Suc i)
                  (sv\<lparr>sv_i := (sv_i sv)\<lparr>sfi_direct := (sfi_direct (sv_i sv))[i := 0]\<rparr>, sv_dirty := True\<rparr>) s)
           else itrunc_direct blocklen (Suc i) sv s)
      else Done (sv, s))"
  by pat_completeness auto
termination
  by (relation "measure (\<lambda>(blocklen, i, sv, s). SFS_NDIRECT - i)") auto

declare itrunc_direct.simps [simp del]

text \<open>The loop over the indirect block, from word \<open>j\<close> on: the words, \<open>hasnonzero\<close> and \<open>iddirty\<close>.\<close>

function itrunc_words ::
  "u32 \<Rightarrow> nat \<Rightarrow> u32 list \<Rightarrow> bool \<Rightarrow> bool \<Rightarrow> 'd sfs_fs \<Rightarrow> (u32 list \<times> bool \<times> bool \<times> 'd sfs_fs) outcome" where
  "itrunc_words blocklen j idbuf hasnonzero iddirty s =
     (if j < SFS_DBPERIDB
      then bnd (arr_get idbuf j) (\<lambda>w.
           if unat blocklen < SFS_NDIRECT + j \<and> w \<noteq> 0
           then bnd (sfs_bfree w s) (\<lambda>s. itrunc_words blocklen (Suc j) (idbuf[j := 0]) hasnonzero True s)
           else itrunc_words blocklen (Suc j) idbuf (hasnonzero \<or> w \<noteq> 0) iddirty s)
      else Done (idbuf, hasnonzero, iddirty, s))"
  by pat_completeness auto
termination
  by (relation "measure (\<lambda>(blocklen, j, idbuf, h, d, s). SFS_DBPERIDB - j)") auto

declare itrunc_words.simps [simp del]

text \<open>The part for the indirect block; a result other than \<open>EOK\<close> is an early return of \<open>sfs_itrunc\<close>.\<close>

definition itrunc_indirect ::
  "'d sfs_env \<Rightarrow> u32 \<Rightarrow> sfs_vnode \<Rightarrow> 'd sfs_fs \<Rightarrow> (errno \<times> sfs_vnode \<times> 'd sfs_fs) outcome" where
  "itrunc_indirect E blocklen sv s =
     (let idblock = sfi_indirect (sv_i sv);
          highblock = SFS_NDIRECT + SFS_DBPERIDB - 1
      in if unat blocklen < highblock \<and> idblock \<noteq> 0
         then bnd (sfs_readblock E idblock (itrunc_buf E) SFS_BLOCKSIZE s) (\<lambda>(result, s).
              if result \<noteq> EOK then Done (result, sv, s)
              else bnd (itrunc_words blocklen 0 (be_words (mem_block (sfs_mem s) (itrunc_buf E) SFS_BLOCKSIZE)) False False s)
                (\<lambda>(idbuf, hasnonzero, iddirty, s).
                if \<not> hasnonzero
                then bnd (sfs_bfree idblock s) (\<lambda>s.
                     Done (EOK, sv\<lparr>sv_i := (sv_i sv)\<lparr>sfi_indirect := 0\<rparr>, sv_dirty := True\<rparr>, s))
                else if iddirty
                then let s = s\<lparr>sfs_mem := kmem_write (be_bytes idbuf) (itrunc_buf E) (sfs_mem s)\<rparr> in
                     bnd (sfs_writeblock E idblock (itrunc_buf E) SFS_BLOCKSIZE s) (\<lambda>(result, s). Done (result, sv, s))
                else Done (EOK, sv, s)))
         else Done (EOK, sv, s))"

definition sfs_itrunc :: "'d sfs_env \<Rightarrow> sfs_vnode \<Rightarrow> int \<Rightarrow> 'd sfs_fs \<Rightarrow> (errno \<times> sfs_vnode \<times> 'd sfs_fs) outcome" where
  "sfs_itrunc E sv len s =
     (let blocklen = (word_of_int ((len + int SFS_BLOCKSIZE - 1) sdiv int SFS_BLOCKSIZE) :: u32);
          s = vfs_biglock_acquire s
      in bnd (itrunc_direct blocklen 0 sv s) (\<lambda>(sv, s).
         bnd (itrunc_indirect E blocklen sv s) (\<lambda>(result, sv, s).
         if result \<noteq> EOK then bnd (vfs_biglock_release s) (\<lambda>s. Done (result, sv, s))
         else let sv = sv\<lparr>sv_i := (sv_i sv)\<lparr>sfi_size := word_of_int len\<rparr>, sv_dirty := True\<rparr>
              in bnd (vfs_biglock_release s) (\<lambda>s. Done (EOK, sv, s)))))"

section \<open>File input and output\<close>

text \<open>The buffer given to \<open>uiomove\<close> is the part of the static buffer from \<open>skipstart\<close> on.\<close>

definition sfs_partialio ::
  "'d sfs_env \<Rightarrow> sfs_vnode \<Rightarrow> uio \<Rightarrow> nat \<Rightarrow> nat \<Rightarrow> 'd sfs_fs \<Rightarrow> (errno \<times> uio \<times> sfs_vnode \<times> 'd sfs_fs) outcome" where
  "sfs_partialio E sv u skipstart len s =
     (let doalloc = (uio_dir u = UIO_WRITE) in
      kassert (skipstart + len \<le> SFS_BLOCKSIZE) (
      kassert (vfs_biglock_do_i_hold s) (
      bnd (sfs_bmap E sv (word_of_int (uio_offset u sdiv int SFS_BLOCKSIZE)) doalloc s) (\<lambda>(result, diskblock, sv, s).
      if result \<noteq> EOK then Done (result, u, sv, s)
      else bnd (deref diskblock) (\<lambda>diskblock.
      bnd (if diskblock = 0
           then kassert (uio_dir u = UIO_READ)
                  (Done (EOK, s\<lparr>sfs_mem := kmem_write (replicate SFS_BLOCKSIZE 0) (partial_buf E) (sfs_mem s)\<rparr>))
           else sfs_readblock E diskblock (partial_buf E) SFS_BLOCKSIZE s) (\<lambda>(result, s).
      if result \<noteq> EOK then Done (result, u, sv, s)
      else
        let ptr = partial_buf E + of_nat skipstart in
        bnd (uiomove (mem_block (sfs_mem s) ptr (SFS_BLOCKSIZE - skipstart)) len u (sfs_mem s)) (\<lambda>(result, buf, u, m).
        let s = s\<lparr>sfs_mem := kmem_write buf ptr m\<rparr> in
        if result \<noteq> EOK then Done (result, u, sv, s)
        else if uio_dir u = UIO_WRITE
        then bnd (sfs_writeblock E diskblock (partial_buf E) SFS_BLOCKSIZE s) (\<lambda>(result, s).
             if result \<noteq> EOK then Done (result, u, sv, s) else Done (EOK, u, sv, s))
        else Done (EOK, u, sv, s))))))))"

text \<open>
  \<open>sfs_blockio\<close> gives the device the caller's \<open>uio\<close>. The product \<open>diskblock * SFS_BLOCKSIZE\<close> is one of two
  32-bit numbers, and what is stored back in \<open>uio_resid\<close> is cut to 32 bits.
\<close>

definition sfs_blockio ::
  "'d sfs_env \<Rightarrow> sfs_vnode \<Rightarrow> uio \<Rightarrow> 'd sfs_fs \<Rightarrow> (errno \<times> uio \<times> sfs_vnode \<times> 'd sfs_fs) outcome" where
  "sfs_blockio E sv u s =
     (let doalloc = (uio_dir u = UIO_WRITE) in
      bnd (sfs_bmap E sv (word_of_int (uio_offset u sdiv int SFS_BLOCKSIZE)) doalloc s) (\<lambda>(result, diskblock, sv, s).
      if result \<noteq> EOK then Done (result, u, sv, s)
      else bnd (deref diskblock) (\<lambda>diskblock.
      if diskblock = 0
      then kassert (uio_dir u = UIO_READ)
             (bnd (uiomovezeros SFS_BLOCKSIZE u (sfs_mem s)) (\<lambda>(result, u, m). Done (result, u, sv, s\<lparr>sfs_mem := m\<rparr>)))
      else
        let saveoff = uio_offset u; diskoff = uint (diskblock * of_nat SFS_BLOCKSIZE) in
        kassert (uio_resid u \<ge> SFS_BLOCKSIZE)
          (let saveres = int (uio_resid u); diskres = int SFS_BLOCKSIZE in
           bnd (sfs_rwblock E (u\<lparr>uio_offset := diskoff, uio_resid := SFS_BLOCKSIZE\<rparr>) s) (\<lambda>(result, u, s).
           Done (result, u\<lparr>uio_offset := (uio_offset u - diskoff) + saveoff,
                            uio_resid := nat (((int (uio_resid u) - diskres) + saveres) mod 2 ^ 32)\<rparr>, sv, s))))))"

text \<open>The loop over the whole blocks.\<close>

primrec sfs_blocks ::
  "'d sfs_env \<Rightarrow> nat \<Rightarrow> sfs_vnode \<Rightarrow> uio \<Rightarrow> 'd sfs_fs \<Rightarrow> (errno \<times> uio \<times> sfs_vnode \<times> 'd sfs_fs) outcome" where
  "sfs_blocks E 0 sv u s = Done (EOK, u, sv, s)"
| "sfs_blocks E (Suc n) sv u s =
     bnd (sfs_blockio E sv u s) (\<lambda>(result, u, sv, s).
     if result \<noteq> EOK then Done (result, u, sv, s) else sfs_blocks E n sv u s)"

text \<open>From the first partial block to the label \<open>out\<close>.\<close>

definition sfs_io_body ::
  "'d sfs_env \<Rightarrow> sfs_vnode \<Rightarrow> uio \<Rightarrow> 'd sfs_fs \<Rightarrow> (errno \<times> uio \<times> sfs_vnode \<times> 'd sfs_fs) outcome" where
  "sfs_io_body E sv u s =
     (let blkoff = nat (uio_offset u smod int SFS_BLOCKSIZE mod 2 ^ 32) in
      bnd (if blkoff \<noteq> 0
           then let len = SFS_BLOCKSIZE - blkoff;
                    len = (if len > uio_resid u then uio_resid u else len)
                in sfs_partialio E sv u blkoff len s
           else Done (EOK, u, sv, s)) (\<lambda>(result, u, sv, s).
      if result \<noteq> EOK then Done (result, u, sv, s)
      else if uio_resid u = 0 then Done (EOK, u, sv, s)
      else kassert (uio_offset u smod int SFS_BLOCKSIZE = 0)
        (bnd (sfs_blocks E (uio_resid u div SFS_BLOCKSIZE) sv u s) (\<lambda>(result, u, sv, s).
         if result \<noteq> EOK then Done (result, u, sv, s)
         else kassert (uio_resid u < SFS_BLOCKSIZE)
           (if uio_resid u > 0 then sfs_partialio E sv u 0 (uio_resid u) s else Done (EOK, u, sv, s))))))"

definition sfs_io ::
  "'d sfs_env \<Rightarrow> sfs_vnode \<Rightarrow> uio \<Rightarrow> 'd sfs_fs \<Rightarrow> (errno \<times> uio \<times> sfs_vnode \<times> 'd sfs_fs) outcome" where
  "sfs_io E sv u s =
     (let origresid = uio_resid u; size = uint (sfi_size (sv_i sv)); endpos = uio_offset u + int (uio_resid u) in
      if uio_dir u = UIO_READ \<and> uio_offset u \<ge> size then Done (EOK, u, sv, s)
      else
        let extraresid = (if uio_dir u = UIO_READ \<and> endpos > size then nat ((endpos - size) mod 2 ^ 32) else 0) in
        kassert (\<not> (uio_dir u = UIO_READ \<and> endpos > size) \<or> uio_resid u > extraresid)
        (bnd (sfs_io_body E sv (u\<lparr>uio_resid := uio_resid u - extraresid\<rparr>) s) (\<lambda>(result, u, sv, s).
         let sv = (if uio_resid u \<noteq> origresid \<and> uio_dir u = UIO_WRITE \<and> uio_offset u > uint (sfi_size (sv_i sv))
                   then sv\<lparr>sv_i := (sv_i sv)\<lparr>sfi_size := word_of_int (uio_offset u)\<rparr>, sv_dirty := True\<rparr>
                   else sv)
         in Done (result, u\<lparr>uio_resid := (uio_resid u + extraresid) mod 2 ^ 32\<rparr>, sv, s))))"

text \<open>\<open>data\<close> is the caller's object, of \<open>len\<close> bytes; it is handed back as the call left it.\<close>

definition sfs_metaio ::
  "'d sfs_env \<Rightarrow> sfs_vnode \<Rightarrow> int \<Rightarrow> u8 list \<Rightarrow> uio_rw \<Rightarrow> 'd sfs_fs \<Rightarrow> (errno \<times> u8 list \<times> sfs_vnode \<times> 'd sfs_fs) outcome" where
  "sfs_metaio E sv actualpos data rw s =
     kassert (vfs_biglock_do_i_hold s)
     (let vnblock = (word_of_int (actualpos sdiv int SFS_BLOCKSIZE) :: u32);
          blockoffset = nat (actualpos smod int SFS_BLOCKSIZE mod 2 ^ 32);
          len = length data
      in bnd (sfs_bmap E sv vnblock (rw = UIO_WRITE) s) (\<lambda>(result, diskblock, sv, s).
      if result \<noteq> EOK then Done (result, data, sv, s)
      else bnd (deref diskblock) (\<lambda>diskblock.
      if diskblock = 0 then kassert (rw = UIO_READ) (Done (EOK, replicate len 0, sv, s))
      else bnd (sfs_readblock E diskblock (meta_buf E) SFS_BLOCKSIZE s) (\<lambda>(result, s).
      if result \<noteq> EOK then Done (result, data, sv, s)
      else if SFS_BLOCKSIZE < blockoffset + len then Fault
      else if rw = UIO_READ
      then Done (EOK, mem_block (sfs_mem s) (meta_buf E + of_nat blockoffset) len, sv, s)
      else
        let s = s\<lparr>sfs_mem := kmem_write data (meta_buf E + of_nat blockoffset) (sfs_mem s)\<rparr> in
        bnd (sfs_writeblock E diskblock (meta_buf E) SFS_BLOCKSIZE s) (\<lambda>(result, s).
        if result \<noteq> EOK then Done (result, data, sv, s)
        else
          let endpos = actualpos + int len;
              sv = (if endpos > uint (sfi_size (sv_i sv))
                    then sv\<lparr>sv_i := (sv_i sv)\<lparr>sfi_size := word_of_int endpos\<rparr>, sv_dirty := True\<rparr> else sv)
          in Done (EOK, data, sv, s))))))"

section \<open>Volumes\<close>

text \<open>
  A volume in use: the free map covers it, the blocks past its end and block 0 are marked, the big lock is
  held, the device works and the static \<open>zeros\<close> are zero.
\<close>

definition vol_ok :: "('d \<Rightarrow> bool) \<Rightarrow> nat \<Rightarrow> 'd sfs_env \<Rightarrow> 'd sfs_fs \<Rightarrow> bool" where
  "vol_ok good n E s \<longleftrightarrow> bitmap_ok (sfs_freemap s) \<and> good (sfs_dev s) \<and> 0 < biglock_depth s \<and> n < 2 ^ 32
     \<and> unat (sb_nblocks s) = n \<and> n \<le> nbits (sfs_freemap s) \<and> nbits (sfs_freemap s) < 2 ^ 32
     \<and> (\<forall>i. n \<le> i \<and> i < nbits (sfs_freemap s) \<longrightarrow> bm_bit (sfs_freemap s) i) \<and> bm_bit (sfs_freemap s) 0
     \<and> map (um_byte (sfs_mem s)) (kbuf_addrs (zeros_buf E)) = replicate 512 0"

definition buf_apart :: "'d sfs_env \<Rightarrow> u32 \<Rightarrow> bool" where
  "buf_apart E a \<longleftrightarrow> set (kbuf_addrs a) \<inter> set (kbuf_addrs (zeros_buf E)) = {}"

definition bufs_ok :: "'d sfs_env \<Rightarrow> bool" where
  "bufs_ok E \<longleftrightarrow> buf_apart E (bmap_buf E) \<and> buf_apart E (itrunc_buf E) \<and> buf_apart E (partial_buf E) \<and> buf_apart E (meta_buf E)"

lemma vol_map: "vol_ok good n E s \<Longrightarrow> bitmap_ok (sfs_freemap s)"
  by (simp add: vol_ok_def)

lemma mem_block_kbuf: "mem_block m a 512 = map (um_byte m) (kbuf_addrs a)"
  by (simp add: mem_block_def kbuf_addrs_def)

lemma kmem_write_kbuf: "length bs = 512 \<Longrightarrow> kmem_write bs a m = mem_scatter (kbuf_addrs a) bs m"
  using kmem_write_scatter [of bs a m] by (simp add: kbuf_addrs_def)

lemma scatter_apart:
  "buf_apart E a \<Longrightarrow> map (um_byte (mem_scatter (kbuf_addrs a) bs m)) (kbuf_addrs (zeros_buf E)) = map (um_byte m) (kbuf_addrs (zeros_buf E))"
  by (auto simp: buf_apart_def intro!: mem_scatter_other)

locale sfs_volume = block_disk io good blk n
  for io :: "uio \<Rightarrow> umem \<Rightarrow> 'd \<Rightarrow> (errno \<times> uio \<times> umem \<times> 'd) outcome" and good blk n +
  fixes E :: "'d sfs_env"
  assumes env_io: "DEVOP_IO E = io" and bufs: "bufs_ok E"
begin

lemma bufs_apart:
  "buf_apart E (bmap_buf E)" "buf_apart E (itrunc_buf E)" "buf_apart E (partial_buf E)" "buf_apart E (meta_buf E)"
  using bufs by (simp_all add: bufs_ok_def)

lemma kinit_SFSUIO: "unat b < n \<Longrightarrow> SFSUIO a b rw = uio_kinit a 512 (int (512 * unat b)) rw"
  by (simp add: SFSUIO_def SFS_BLOCKSIZE_def mult.commute)

lemma readblock_ok:
  assumes ok: "vol_ok good n E s" and b: "unat b < n" and a: "buf_apart E a"
  shows "\<exists>m d. sfs_readblock E b a SFS_BLOCKSIZE s = Done (EOK, s\<lparr>sfs_mem := m, sfs_dev := d\<rparr>)
    \<and> vol_ok good n E (s\<lparr>sfs_mem := m, sfs_dev := d\<rparr>)
    \<and> mem_block m a SFS_BLOCKSIZE = blk (sfs_dev s) (unat b) \<and> (\<forall>j < n. blk d j = blk (sfs_dev s) j)"
proof -
  have good: "good (sfs_dev s)" and held: "0 < biglock_depth s" using ok by (simp_all add: vol_ok_def)
  note k = kinit_block [OF b]
  obtain u m d where r: "io (uio_kinit a 512 (int (512 * unat b)) UIO_READ) (sfs_mem s) (sfs_dev s) = Done (EOK, u, m, d)"
    "um_byte m = um_byte (mem_scatter (kbuf_addrs a) (blk (sfs_dev s) (unat b)) (sfs_mem s))" "good d"
    "\<forall>j < n. blk d j = blk (sfs_dev s) j"
    using rd [OF good k(1) k(3), of a "sfs_mem s"] unfolding k(2) by (elim exE conjE) (rule that)
  have "sfs_readblock E b a SFS_BLOCKSIZE s = Done (EOK, s\<lparr>sfs_mem := m, sfs_dev := d\<rparr>)"
    using held r(1) by (simp add: sfs_readblock_def sfs_rwblock_def kassert_def vfs_biglock_do_i_hold_def sfs_retry.simps [of E 0]
        kinit_SFSUIO [OF b] env_io)
  moreover have "mem_block m a SFS_BLOCKSIZE = blk (sfs_dev s) (unat b)"
    unfolding mem_block_kbuf SFS_BLOCKSIZE_def r(2) using blk_len [OF good b] by (simp add: block_scatter del: map_eq_conv)
  moreover have "vol_ok good n E (s\<lparr>sfs_mem := m, sfs_dev := d\<rparr>)"
    using ok r(3) scatter_apart [OF a] unfolding vol_ok_def by (simp add: r(2) del: map_eq_conv)
  ultimately show ?thesis using r(4) by (intro exI conjI)
qed

lemma writeblock_ok:
  assumes ok: "vol_ok good n E s" and b: "unat b < n"
  shows "\<exists>m d. sfs_writeblock E b a SFS_BLOCKSIZE s = Done (EOK, s\<lparr>sfs_mem := m, sfs_dev := d\<rparr>)
    \<and> vol_ok good n E (s\<lparr>sfs_mem := m, sfs_dev := d\<rparr>)
    \<and> (\<forall>j < n. blk d j = (if j = unat b then mem_block (sfs_mem s) a SFS_BLOCKSIZE else blk (sfs_dev s) j))"
proof -
  have good: "good (sfs_dev s)" and held: "0 < biglock_depth s" using ok by (simp_all add: vol_ok_def)
  note k = kinit_block [OF b]
  obtain u m d where r: "io (uio_kinit a 512 (int (512 * unat b)) UIO_WRITE) (sfs_mem s) (sfs_dev s) = Done (EOK, u, m, d)"
    "um_byte m = um_byte (sfs_mem s)" "good d"
    "\<forall>j < n. blk d j = (if j = unat b then map (um_byte (sfs_mem s)) (kbuf_addrs a) else blk (sfs_dev s) j)"
    using wr [OF good k(1) k(3), of a "sfs_mem s"] unfolding k(2) by (elim exE conjE) (rule that)
  have "sfs_writeblock E b a SFS_BLOCKSIZE s = Done (EOK, s\<lparr>sfs_mem := m, sfs_dev := d\<rparr>)"
    using held r(1) by (simp add: sfs_writeblock_def sfs_rwblock_def kassert_def vfs_biglock_do_i_hold_def sfs_retry.simps [of E 0]
        kinit_SFSUIO [OF b] env_io)
  moreover have "vol_ok good n E (s\<lparr>sfs_mem := m, sfs_dev := d\<rparr>)"
    using ok r(3) unfolding vol_ok_def by (simp add: r(2) del: map_eq_conv)
  moreover have "\<forall>j < n. blk d j = (if j = unat b then mem_block (sfs_mem s) a SFS_BLOCKSIZE else blk (sfs_dev s) j)"
    using r(4) by (simp only: SFS_BLOCKSIZE_def mem_block_kbuf)
  ultimately show ?thesis by (intro exI conjI)
qed

end

section \<open>Files as maps of blocks\<close>

text \<open>The disk block that holds block \<open>i\<close> of a file, 0 where there is none.\<close>

definition file_block :: "('d \<Rightarrow> nat \<Rightarrow> u8 list) \<Rightarrow> sfs_vnode \<Rightarrow> 'd sfs_fs \<Rightarrow> nat \<Rightarrow> u32" where
  "file_block blk sv s i =
     (if i < 15 then sfi_direct (sv_i sv) ! i
      else if sfi_indirect (sv_i sv) = 0 then 0
      else be_words (blk (sfs_dev s) (unat (sfi_indirect (sv_i sv)))) ! (i - 15))"

definition MAXBLOCKS :: nat where "MAXBLOCKS = 143"

text \<open>
  A sound inode: its blocks and its indirect block are blocks of the volume in use, each of them used once.
\<close>

definition inode_ok :: "('d \<Rightarrow> nat \<Rightarrow> u8 list) \<Rightarrow> nat \<Rightarrow> sfs_vnode \<Rightarrow> 'd sfs_fs \<Rightarrow> bool" where
  "inode_ok blk n sv s \<longleftrightarrow> length (sfi_direct (sv_i sv)) = 15
     \<and> (\<forall>i < MAXBLOCKS. file_block blk sv s i \<noteq> 0 \<longrightarrow> unat (file_block blk sv s i) < n
          \<and> bm_bit (sfs_freemap s) (unat (file_block blk sv s i)) \<and> file_block blk sv s i \<noteq> sfi_indirect (sv_i sv))
     \<and> (sfi_indirect (sv_i sv) \<noteq> 0 \<longrightarrow> unat (sfi_indirect (sv_i sv)) < n
          \<and> bm_bit (sfs_freemap s) (unat (sfi_indirect (sv_i sv))))
     \<and> (\<forall>i < MAXBLOCKS. \<forall>j < MAXBLOCKS. file_block blk sv s i \<noteq> 0 \<and> file_block blk sv s i = file_block blk sv s j \<longrightarrow> i = j)"

text \<open>
  One block (or none, when \<open>k\<close> is 0) and perhaps the indirect block were allocated.
\<close>

lemma inode_ok_step:
  assumes ok: "inode_ok blk n sv s" and len: "length (sfi_direct (sv_i sv')) = 15" and i: "i < MAXBLOCKS"
    and fb: "\<And>j. j < MAXBLOCKS \<Longrightarrow> file_block blk sv' s' j = (if j = i then k else file_block blk sv s j)"
    and grow: "\<And>b. bm_bit (sfs_freemap s) b \<Longrightarrow> bm_bit (sfs_freemap s') b"
    and k: "k = 0 \<or> unat k < n \<and> \<not> bm_bit (sfs_freemap s) (unat k) \<and> bm_bit (sfs_freemap s') (unat k) \<and> k \<noteq> sfi_indirect (sv_i sv')"
    and ind: "sfi_indirect (sv_i sv') = sfi_indirect (sv_i sv) \<or>
      unat (sfi_indirect (sv_i sv')) < n \<and> \<not> bm_bit (sfs_freemap s) (unat (sfi_indirect (sv_i sv')))
        \<and> bm_bit (sfs_freemap s') (unat (sfi_indirect (sv_i sv')))"
  shows "inode_ok blk n sv' s'"
proof -
  let ?f = "file_block blk sv s" and ?f' = "file_block blk sv' s'"
  have old: "unat (?f j) < n \<and> bm_bit (sfs_freemap s) (unat (?f j)) \<and> ?f j \<noteq> sfi_indirect (sv_i sv)"
    if "j < MAXBLOCKS" "?f j \<noteq> 0" for j using ok that by (simp add: inode_ok_def)
  have new: "unat (?f' j) < n \<and> bm_bit (sfs_freemap s') (unat (?f' j)) \<and> ?f' j \<noteq> sfi_indirect (sv_i sv')"
    if j: "j < MAXBLOCKS" and nz: "?f' j \<noteq> 0" for j
  proof (cases "j = i")
    case False
    then have f: "?f' j = ?f j" "?f j \<noteq> 0" using fb [OF j] nz by simp_all
    from old [OF j f(2)] show ?thesis unfolding f(1) using ind grow by auto
  qed (use fb [OF j] nz k in auto)
  have inj: "j = l" if "j < MAXBLOCKS" "l < MAXBLOCKS" "?f' j \<noteq> 0" "?f' j = ?f' l" for j l
  proof -
    have "?f j \<noteq> k" "?f l \<noteq> k" if "k \<noteq> 0"
      using old [OF \<open>j < MAXBLOCKS\<close>] old [OF \<open>l < MAXBLOCKS\<close>] k that by auto
    moreover have "?f j \<noteq> 0 \<and> ?f j = ?f l \<Longrightarrow> j = l" using ok that(1,2) unfolding inode_ok_def by metis
    ultimately show ?thesis using that fb by (auto split: if_splits)
  qed
  have "sfi_indirect (sv_i sv') \<noteq> 0 \<longrightarrow> unat (sfi_indirect (sv_i sv')) < n \<and> bm_bit (sfs_freemap s') (unat (sfi_indirect (sv_i sv')))"
    using ind grow ok by (auto simp: inode_ok_def)
  then show ?thesis unfolding inode_ok_def using len new inj by blast
qed

text \<open>
  What an allocating \<open>sfs_bmap\<close> of block \<open>i\<close> promises: either there is no space and the file has the blocks it had,
  or the file has one more block, which was free and is zero. Blocks in use keep their contents, except
  for the indirect block of this file.
\<close>

definition bmap_allocates ::
  "('d \<Rightarrow> bool) \<Rightarrow> ('d \<Rightarrow> nat \<Rightarrow> u8 list) \<Rightarrow> nat \<Rightarrow> 'd sfs_env \<Rightarrow> sfs_vnode \<Rightarrow> nat \<Rightarrow> 'd sfs_fs
     \<Rightarrow> errno \<Rightarrow> u32 option \<Rightarrow> sfs_vnode \<Rightarrow> 'd sfs_fs \<Rightarrow> bool" where
  "bmap_allocates good blk n E sv i s e r sv' s' \<longleftrightarrow> vol_ok good n E s' \<and> inode_ok blk n sv' s'
     \<and> biglock_depth s' = biglock_depth s
     \<and> (\<forall>j. bm_bit (sfs_freemap s) j \<longrightarrow> bm_bit (sfs_freemap s') j)
     \<and> (\<forall>j < n. bm_bit (sfs_freemap s) j \<and> j \<noteq> unat (sfi_indirect (sv_i sv)) \<longrightarrow> blk (sfs_dev s') j = blk (sfs_dev s) j)
     \<and> (case r of
          None \<Rightarrow> e = ENOSPC \<and> (\<forall>j < MAXBLOCKS. file_block blk sv' s' j = file_block blk sv s j)
        | Some k \<Rightarrow> e = EOK \<and> k \<noteq> 0 \<and> unat k < n \<and> \<not> bm_bit (sfs_freemap s) (unat k)
            \<and> blk (sfs_dev s') (unat k) = replicate 512 0
            \<and> (\<forall>j < MAXBLOCKS. file_block blk sv' s' j = (if j = i then k else file_block blk sv s j)))"

context sfs_volume
begin

lemma balloc_ok:
  assumes ok: "vol_ok good n E s"
  shows "(\<forall>i < n. bm_bit (sfs_freemap s) i) \<and> sfs_balloc E s = Done (ENOSPC, None, s) \<or>
    (\<exists>k s'. sfs_balloc E s = Done (EOK, Some k, s') \<and> vol_ok good n E s' \<and> k \<noteq> 0 \<and> unat k < n
       \<and> \<not> bm_bit (sfs_freemap s) (unat k) \<and> (\<forall>j. bm_bit (sfs_freemap s') j \<longleftrightarrow> bm_bit (sfs_freemap s) j \<or> j = unat k)
       \<and> biglock_depth s' = biglock_depth s
       \<and> (\<forall>j < n. blk (sfs_dev s') j = (if j = unat k then replicate 512 0 else blk (sfs_dev s) j)))"
  using bmp.alloc_cases [OF vol_map [OF ok]]
proof (elim disjE conjE exE)
  assume full: "\<forall>i < nbits (sfs_freemap s). bm_bit (sfs_freemap s) i" "bitmap_alloc (sfs_freemap s) = Done (ENOSPC, None, sfs_freemap s)"
  then have "\<forall>i < n. bm_bit (sfs_freemap s) i" using ok by (auto simp: vol_ok_def)
  moreover have "sfs_balloc E s = Done (ENOSPC, None, s)" using full(2) by (simp add: sfs_balloc_def)
  ultimately show ?thesis by simp
next
  fix k map assume al: "bitmap_alloc (sfs_freemap s) = Done (EOK, Some k, map)" "bitmap_ok map" "nbits map = nbits (sfs_freemap s)"
    "k < nbits (sfs_freemap s)" "\<not> bm_bit (sfs_freemap s) k" "\<forall>j. bm_bit map j \<longleftrightarrow> bm_bit (sfs_freemap s) j \<or> j = k"
  have k: "k < n" "k \<noteq> 0" "k < 2 ^ 32" using ok al(4,5) by (auto simp: vol_ok_def not_less)
  then have uk: "unat (of_nat k :: u32) = k" by (intro of_nat_u32)
  then have lt: "unat (of_nat k :: u32) < n" using k(1) by simp
  let ?s = "s\<lparr>sfs_freemap := map, sfs_freemapdirty := True\<rparr>"
  have ok': "vol_ok good n E ?s" using ok al by (simp add: vol_ok_def)
  obtain m d where w: "sfs_writeblock E (of_nat k) (zeros_buf E) SFS_BLOCKSIZE ?s = Done (EOK, ?s\<lparr>sfs_mem := m, sfs_dev := d\<rparr>)"
    "vol_ok good n E (?s\<lparr>sfs_mem := m, sfs_dev := d\<rparr>)"
    "\<forall>j < n. blk d j = (if j = k then mem_block (sfs_mem ?s) (zeros_buf E) SFS_BLOCKSIZE else blk (sfs_dev ?s) j)"
    using writeblock_ok [OF ok' lt, of "zeros_buf E"] unfolding uk by (elim exE conjE) (rule that)
  have z: "mem_block (sfs_mem s) (zeros_buf E) SFS_BLOCKSIZE = replicate 512 0"
    using ok by (simp only: SFS_BLOCKSIZE_def mem_block_kbuf vol_ok_def)
  have "\<not> sb_nblocks s \<le> of_nat k" using ok k uk by (simp add: vol_ok_def word_le_nat_alt)
  then have "sfs_balloc E s = Done (EOK, Some (of_nat k), ?s\<lparr>sfs_mem := m, sfs_dev := d\<rparr>)"
    using al(1) w(1) by (simp add: sfs_balloc_def sfs_clearblock_def)
  moreover have "(of_nat k :: u32) \<noteq> 0" using uk k(2) by (metis unat_0)
  ultimately show ?thesis using w(2,3) al(5,6) k(1) uk z
    by (intro disjI2 exI [of _ "of_nat k"] exI [of _ "?s\<lparr>sfs_mem := m, sfs_dev := d\<rparr>"]) simp
qed

lemma bused_ok:
  assumes "vol_ok good n E s" and "unat b < n" and "bm_bit (sfs_freemap s) (unat b)"
  shows "bmap_hand_back b sv s = Done (EOK, Some b, sv, s)"
proof -
  have "bitmap_ok (sfs_freemap s)" "unat b < nbits (sfs_freemap s)" "\<not> sb_nblocks s \<le> b"
    using assms(1,2) by (auto simp: vol_ok_def word_le_nat_alt)
  then show ?thesis using bitmap_isset_iff [of "sfs_freemap s" "unat b"] assms(3) by (auto simp: bmap_hand_back_def sfs_bused_def)
qed

lemma blk_same_file_block:
  assumes "inode_ok blk n sv s" and "\<And>j. j < n \<Longrightarrow> bm_bit (sfs_freemap s) j \<Longrightarrow> blk (sfs_dev s') j = blk (sfs_dev s) j"
  shows "file_block blk sv s' = file_block blk sv s"
  using assms by (auto simp: file_block_def inode_ok_def fun_eq_iff)

lemma bmap_lookup:
  assumes ok: "vol_ok good n E s" and ino: "inode_ok blk n sv s" and i: "unat fb < MAXBLOCKS"
    and look: "file_block blk sv s (unat fb) \<noteq> 0 \<or> \<not> doalloc"
  shows "\<exists>m d. sfs_bmap E sv fb doalloc s = Done (EOK, Some (file_block blk sv s (unat fb)), sv, s\<lparr>sfs_mem := m, sfs_dev := d\<rparr>)
    \<and> vol_ok good n E (s\<lparr>sfs_mem := m, sfs_dev := d\<rparr>) \<and> (\<forall>j < n. blk d j = blk (sfs_dev s) j)"
proof -
  let ?b = "file_block blk sv s (unat fb)" and ?ind = "sfi_indirect (sv_i sv)"
  have held: "vfs_biglock_do_i_hold s" using ok by (simp add: vol_ok_def vfs_biglock_do_i_hold_def)
  have give: "bmap_hand_back ?b sv t = Done (EOK, Some ?b, sv, t)"
    if "vol_ok good n E t" "sfs_freemap t = sfs_freemap s" for t
    using bused_ok [OF that(1), of ?b sv] ino i that(2) by (cases "?b = 0") (auto simp: bmap_hand_back_def inode_ok_def)
  have nop: "s\<lparr>sfs_mem := sfs_mem s, sfs_dev := sfs_dev s\<rparr> = s" by simp
  consider (dir) "unat fb < 15" | (none) "\<not> unat fb < 15" "?ind = 0" | (ind) "\<not> unat fb < 15" "?ind \<noteq> 0" by blast
  then show ?thesis
  proof cases
    case dir
    have "length (sfi_direct (sv_i sv)) = 15" using ino by (simp add: inode_ok_def)
    then have "sfs_bmap E sv fb doalloc s = Done (EOK, Some ?b, sv, s)"
      using dir held look give [OF ok] by (auto simp: sfs_bmap_def bmap_direct_def kassert_def SFS_NDIRECT_def arr_get_def file_block_def)
    then show ?thesis using ok by (intro exI [of _ "sfs_mem s"] exI [of _ "sfs_dev s"]) (simp add: nop)
  next
    case none
    then have "sfs_bmap E sv fb doalloc s = Done (EOK, Some ?b, sv, s)"
      using held look i by (auto simp: sfs_bmap_def kassert_def SFS_NDIRECT_def SFS_NINDIRECT_def SFS_DBPERIDB_def file_block_def MAXBLOCKS_def Let_def)
    then show ?thesis using ok by (intro exI [of _ "sfs_mem s"] exI [of _ "sfs_dev s"]) (simp add: nop)
  next
    case ind
    have lt: "unat ?ind < n" using ino ind(2) by (simp add: inode_ok_def)
    obtain m d where r: "sfs_readblock E ?ind (bmap_buf E) SFS_BLOCKSIZE s = Done (EOK, s\<lparr>sfs_mem := m, sfs_dev := d\<rparr>)"
      "vol_ok good n E (s\<lparr>sfs_mem := m, sfs_dev := d\<rparr>)" "mem_block m (bmap_buf E) SFS_BLOCKSIZE = blk (sfs_dev s) (unat ?ind)"
      "\<forall>j < n. blk d j = blk (sfs_dev s) j"
      using readblock_ok [OF ok lt bufs_apart(1)] by (elim exE conjE) (rule that)
    have off: "unat fb - 15 < 128" using i by (simp add: MAXBLOCKS_def)
    have "length (be_words (blk (sfs_dev s) (unat ?ind))) = 128"
      using blk_len [of "sfs_dev s" "unat ?ind"] ok lt by (simp add: length_be_words vol_ok_def)
    then have "bmap_in_buffer E sv ?ind (be_words (blk (sfs_dev s) (unat ?ind))) (unat fb - 15) doalloc (s\<lparr>sfs_mem := m, sfs_dev := d\<rparr>)
        = Done (EOK, Some ?b, sv, s\<lparr>sfs_mem := m, sfs_dev := d\<rparr>)"
      using off look ind give [OF r(2)] by (auto simp: bmap_in_buffer_def arr_get_def file_block_def)
    then have "sfs_bmap E sv fb doalloc s = Done (EOK, Some ?b, sv, s\<lparr>sfs_mem := m, sfs_dev := d\<rparr>)"
      using held ind off r(1,3) by (simp add: sfs_bmap_def kassert_def SFS_NDIRECT_def SFS_NINDIRECT_def SFS_DBPERIDB_def Let_def)
    then show ?thesis using r(2,4) by (intro exI conjI)
  qed
qed

text \<open>A new data block goes into the indirect block, which is written back.\<close>

lemma bmap_in_buffer_alloc:
  assumes ok: "vol_ok good n E s" and idf: "idb \<noteq> 0" "unat idb < n" "bm_bit (sfs_freemap s) (unat idb)"
    and off: "off < 128" and zero: "be_words (blk (sfs_dev s) (unat idb)) ! off = 0"
  shows "bmap_in_buffer E sv idb (be_words (blk (sfs_dev s) (unat idb))) off True s = Done (ENOSPC, None, sv, s) \<or>
    (\<exists>k s'. bmap_in_buffer E sv idb (be_words (blk (sfs_dev s) (unat idb))) off True s = Done (EOK, Some k, sv, s') \<and> vol_ok good n E s'
       \<and> k \<noteq> 0 \<and> unat k < n \<and> \<not> bm_bit (sfs_freemap s) (unat k) \<and> biglock_depth s' = biglock_depth s
       \<and> (\<forall>j. bm_bit (sfs_freemap s') j \<longleftrightarrow> bm_bit (sfs_freemap s) j \<or> j = unat k)
       \<and> blk (sfs_dev s') (unat k) = replicate 512 0
       \<and> be_words (blk (sfs_dev s') (unat idb)) = (be_words (blk (sfs_dev s) (unat idb)))[off := k]
       \<and> (\<forall>j < n. j \<noteq> unat k \<and> j \<noteq> unat idb \<longrightarrow> blk (sfs_dev s') j = blk (sfs_dev s) j))"
proof -
  let ?ws = "be_words (blk (sfs_dev s) (unat idb))"
  have len: "length ?ws = 128" using blk_len [of "sfs_dev s" "unat idb"] ok idf by (simp add: length_be_words vol_ok_def)
  from balloc_ok [OF ok] consider (full) "sfs_balloc E s = Done (ENOSPC, None, s)"
    | (got) k s1 where "sfs_balloc E s = Done (EOK, Some k, s1)" "vol_ok good n E s1" "k \<noteq> 0" "unat k < n"
      "\<not> bm_bit (sfs_freemap s) (unat k)" "\<forall>j. bm_bit (sfs_freemap s1) j \<longleftrightarrow> bm_bit (sfs_freemap s) j \<or> j = unat k"
      "biglock_depth s1 = biglock_depth s"
      "\<forall>j < n. blk (sfs_dev s1) j = (if j = unat k then replicate 512 0 else blk (sfs_dev s) j)" by metis
  then show ?thesis
  proof cases
    case full
    then show ?thesis using len off zero by (simp add: bmap_in_buffer_def arr_get_def)
  next
    case got
    have kid: "unat k \<noteq> unat idb" using got(5) idf(3) by metis
    let ?bs = "be_bytes (?ws[off := k])"
    let ?s2 = "s1\<lparr>sfs_mem := kmem_write ?bs (bmap_buf E) (sfs_mem s1)\<rparr>"
    have bs: "length ?bs = 512" using len by simp
    have "vol_ok good n E ?s2"
      using got(2) scatter_apart [OF bufs_apart(1)] unfolding vol_ok_def kmem_write_kbuf [OF bs] by (simp del: map_eq_conv)
    from writeblock_ok [OF this idf(2), of "bmap_buf E"] obtain m d where
      w: "sfs_writeblock E idb (bmap_buf E) SFS_BLOCKSIZE ?s2 = Done (EOK, ?s2\<lparr>sfs_mem := m, sfs_dev := d\<rparr>)"
      "vol_ok good n E (?s2\<lparr>sfs_mem := m, sfs_dev := d\<rparr>)"
      "\<forall>j < n. blk d j = (if j = unat idb then mem_block (sfs_mem ?s2) (bmap_buf E) SFS_BLOCKSIZE else blk (sfs_dev ?s2) j)"
      by (elim exE conjE) (rule that)
    let ?s' = "?s2\<lparr>sfs_mem := m, sfs_dev := d\<rparr>"
    have mb: "mem_block (sfs_mem ?s2) (bmap_buf E) SFS_BLOCKSIZE = ?bs"
      using block_scatter [OF bs] by (simp only: SFS_BLOCKSIZE_def mem_block_kbuf kmem_write_kbuf [OF bs]) simp
    have "bmap_in_buffer E sv idb ?ws off True s = Done (EOK, Some k, sv, ?s')"
      using len off zero got(1) w(1) bused_ok [OF w(2) got(4)] got(6)
      by (simp add: bmap_in_buffer_def arr_get_def del: map_eq_conv)
    moreover have "be_words (blk d (unat idb)) = ?ws[off := k]" using w(3) idf(2) mb by (simp add: be_words_bytes)
    moreover have "\<forall>j < n. j \<noteq> unat k \<and> j \<noteq> unat idb \<longrightarrow> blk d j = blk (sfs_dev s) j" using w(3) got(8) by simp
    moreover have "blk d (unat k) = replicate 512 0" using w(3) got(4,8) kid by simp
    ultimately show ?thesis using w(2) got(3-7)
      by (intro disjI2 exI [of _ k] exI [of _ ?s']) simp
  qed
qed

lemma allocates_none: "vol_ok good n E s \<Longrightarrow> inode_ok blk n sv s \<Longrightarrow> bmap_allocates good blk n E sv i s ENOSPC None sv s"
  by (simp add: bmap_allocates_def)

lemma bmap_alloc_direct:
  assumes ok: "vol_ok good n E s" and ino: "inode_ok blk n sv s" and i: "i < 15" and zero: "file_block blk sv s i = 0"
  shows "\<exists>e r sv' s'. bmap_direct E sv i True s = Done (e, r, sv', s') \<and> bmap_allocates good blk n E sv i s e r sv' s'"
proof -
  have len: "length (sfi_direct (sv_i sv)) = 15" using ino by (simp add: inode_ok_def)
  have z: "sfi_direct (sv_i sv) ! i = 0" using zero i by (simp add: file_block_def)
  from balloc_ok [OF ok] consider (full) "sfs_balloc E s = Done (ENOSPC, None, s)"
    | (got) k s1 where "sfs_balloc E s = Done (EOK, Some k, s1)" "vol_ok good n E s1" "k \<noteq> 0" "unat k < n"
      "\<not> bm_bit (sfs_freemap s) (unat k)" "\<forall>j. bm_bit (sfs_freemap s1) j \<longleftrightarrow> bm_bit (sfs_freemap s) j \<or> j = unat k"
      "biglock_depth s1 = biglock_depth s"
      "\<forall>j < n. blk (sfs_dev s1) j = (if j = unat k then replicate 512 0 else blk (sfs_dev s) j)" by metis
  then show ?thesis
  proof cases
    case full
    then have "bmap_direct E sv i True s = Done (ENOSPC, None, sv, s)" using len i z by (simp add: bmap_direct_def arr_get_def)
    then show ?thesis using allocates_none [OF ok ino] by (intro exI conjI)
  next
    case got
    let ?sv = "sv\<lparr>sv_i := (sv_i sv)\<lparr>sfi_direct := (sfi_direct (sv_i sv))[i := k]\<rparr>, sv_dirty := True\<rparr>"
    have keep: "blk (sfs_dev s1) j = blk (sfs_dev s) j" if "j < n" "bm_bit (sfs_freemap s) j" for j using got(5,8) that by auto
    have fb: "file_block blk ?sv s1 j = (if j = i then k else file_block blk sv s j)" if "j < MAXBLOCKS" for j
      using blk_same_file_block [OF ino, of s1] keep len i by (auto simp: file_block_def nth_list_update dest: fun_cong [of _ _ j])
    have kind: "k \<noteq> sfi_indirect (sv_i sv)" using ino got(3,5) by (auto simp: inode_ok_def)
    have "inode_ok blk n ?sv s1"
      using i got(3-6) kind by (intro inode_ok_step [OF ino _ _ fb]) (simp_all add: len MAXBLOCKS_def)
    moreover have "bmap_direct E sv i True s = Done (EOK, Some k, ?sv, s1)"
      using len i z got(1) bused_ok [OF got(2,4)] got(6) by (simp add: bmap_direct_def arr_get_def)
    ultimately show ?thesis using got(2-8) keep fb by (intro exI conjI) (assumption, simp add: bmap_allocates_def)
  qed
qed

text \<open>The indirect block is there and its words are in the buffer.\<close>

lemma bmap_alloc_indirect:
  assumes ok: "vol_ok good n E s" and ino: "inode_ok blk n sv s" and ind: "sfi_indirect (sv_i sv) \<noteq> 0"
    and off: "off < 128" and zero: "file_block blk sv s (15 + off) = 0"
  shows "\<exists>e r sv' s'. bmap_in_buffer E sv (sfi_indirect (sv_i sv)) (be_words (blk (sfs_dev s) (unat (sfi_indirect (sv_i sv))))) off True s
      = Done (e, r, sv', s') \<and> bmap_allocates good blk n E sv (15 + off) s e r sv' s'"
proof -
  let ?id = "sfi_indirect (sv_i sv)" and ?ws = "be_words (blk (sfs_dev s) (unat (sfi_indirect (sv_i sv))))"
  have id_ok: "unat ?id < n" "bm_bit (sfs_freemap s) (unat ?id)" and len: "length (sfi_direct (sv_i sv)) = 15"
    using ino ind by (simp_all add: inode_ok_def)
  have lenw: "length ?ws = 128" using blk_len [of "sfs_dev s" "unat ?id"] ok id_ok by (simp add: length_be_words vol_ok_def)
  have z: "?ws ! off = 0" using zero ind by (simp add: file_block_def)
  from bmap_in_buffer_alloc [OF ok ind id_ok off z, of sv] show ?thesis
  proof (elim disjE exE conjE)
    assume "bmap_in_buffer E sv ?id ?ws off True s = Done (ENOSPC, None, sv, s)"
    then show ?thesis using allocates_none [OF ok ino] by (intro exI conjI)
  next
    fix k s'
    assume run: "bmap_in_buffer E sv ?id ?ws off True s = Done (EOK, Some k, sv, s')" and ok': "vol_ok good n E s'"
      and k: "k \<noteq> 0" "unat k < n" "\<not> bm_bit (sfs_freemap s) (unat k)" and depth: "biglock_depth s' = biglock_depth s"
      and bits: "\<forall>j. bm_bit (sfs_freemap s') j \<longleftrightarrow> bm_bit (sfs_freemap s) j \<or> j = unat k"
      and zk: "blk (sfs_dev s') (unat k) = replicate 512 0"
      and ws: "be_words (blk (sfs_dev s') (unat ?id)) = ?ws[off := k]"
      and rest: "\<forall>j < n. j \<noteq> unat k \<and> j \<noteq> unat ?id \<longrightarrow> blk (sfs_dev s') j = blk (sfs_dev s) j"
    have fb: "file_block blk sv s' j = (if j = 15 + off then k else file_block blk sv s j)" if "j < MAXBLOCKS" for j
    proof (cases "j < 15")
      case False
      then have "j - 15 < 128" "j = 15 + off \<longleftrightarrow> j - 15 = off" using that by (auto simp: MAXBLOCKS_def)
      then show ?thesis using False ind lenw by (auto simp: file_block_def ws nth_list_update)
    qed (simp add: file_block_def)
    have "k \<noteq> ?id" using k(3) id_ok(2) by auto
    then have "inode_ok blk n sv s'"
      using off k bits by (intro inode_ok_step [OF ino len _ fb]) (simp_all add: MAXBLOCKS_def)
    moreover have "blk (sfs_dev s') j = blk (sfs_dev s) j" if "j < n" "bm_bit (sfs_freemap s) j" "j \<noteq> unat ?id" for j
      using rest k(3) that by auto
    ultimately have "bmap_allocates good blk n E sv (15 + off) s EOK (Some k) sv s'"
      using ok' depth k bits zk fb by (simp add: bmap_allocates_def)
    then show ?thesis using run by (intro exI conjI)
  qed
qed

lemma allocates_trans:
  assumes al: "bmap_allocates good blk n E sv1 i s1 e r sv' s'" and depth: "biglock_depth s1 = biglock_depth s"
    and grow: "\<And>j. bm_bit (sfs_freemap s) j \<Longrightarrow> bm_bit (sfs_freemap s1) j"
    and keep: "\<And>j. j < n \<Longrightarrow> bm_bit (sfs_freemap s) j \<Longrightarrow> blk (sfs_dev s1) j = blk (sfs_dev s) j"
    and ind: "\<And>j. bm_bit (sfs_freemap s) j \<Longrightarrow> j \<noteq> unat (sfi_indirect (sv_i sv)) \<Longrightarrow> j \<noteq> unat (sfi_indirect (sv_i sv1))"
    and fb: "\<And>j. j < MAXBLOCKS \<Longrightarrow> file_block blk sv1 s1 j = file_block blk sv s j"
  shows "bmap_allocates good blk n E sv i s e r sv' s'"
proof -
  have blks: "blk (sfs_dev s') j = blk (sfs_dev s) j" if "j < n" "bm_bit (sfs_freemap s) j" "j \<noteq> unat (sfi_indirect (sv_i sv))" for j
    using al keep [OF that(1,2)] grow [OF that(2)] ind [OF that(2,3)] that(1) by (simp add: bmap_allocates_def)
  have "\<not> bm_bit (sfs_freemap s1) k \<Longrightarrow> \<not> bm_bit (sfs_freemap s) k" for k using grow by blast
  then show ?thesis using al depth grow blks fb by (simp add: bmap_allocates_def split: option.splits)
qed

text \<open>The first block beyond the direct ones: the indirect block is allocated as well.\<close>

lemma bmap_alloc_first:
  assumes ok: "vol_ok good n E s" and ino: "inode_ok blk n sv s" and i: "\<not> unat fb < 15" "sfi_indirect (sv_i sv) = 0" "unat fb < MAXBLOCKS"
  shows "\<exists>e r sv' s'. sfs_bmap E sv fb True s = Done (e, r, sv', s') \<and> bmap_allocates good blk n E sv (unat fb) s e r sv' s'"
proof -
  let ?off = "unat fb - 15"
  have held: "vfs_biglock_do_i_hold s" using ok by (simp add: vol_ok_def vfs_biglock_do_i_hold_def)
  have off: "?off < 128" "15 + ?off = unat fb" using i by (auto simp: MAXBLOCKS_def)
  note defs = sfs_bmap_def kassert_def SFS_NDIRECT_def SFS_NINDIRECT_def SFS_DBPERIDB_def Let_def
  from balloc_ok [OF ok] consider (full) "sfs_balloc E s = Done (ENOSPC, None, s)"
    | (got) k s1 where "sfs_balloc E s = Done (EOK, Some k, s1)" "vol_ok good n E s1" "k \<noteq> 0" "unat k < n"
      "\<not> bm_bit (sfs_freemap s) (unat k)" "\<forall>j. bm_bit (sfs_freemap s1) j \<longleftrightarrow> bm_bit (sfs_freemap s) j \<or> j = unat k"
      "biglock_depth s1 = biglock_depth s"
      "\<forall>j < n. blk (sfs_dev s1) j = (if j = unat k then replicate 512 0 else blk (sfs_dev s) j)" by metis
  then show ?thesis
  proof cases
    case full
    then have "sfs_bmap E sv fb True s = Done (ENOSPC, None, sv, s)" using held i off(1) by (simp add: defs)
    then show ?thesis using allocates_none [OF ok ino] by (intro exI conjI)
  next
    case got
    let ?sv = "sv\<lparr>sv_i := (sv_i sv)\<lparr>sfi_indirect := k\<rparr>, sv_dirty := True\<rparr>"
    have words: "be_words (blk (sfs_dev s1) (unat k)) = replicate 128 0" using got(4,8) be_words_zero [of 128] by simp
    have fb: "file_block blk ?sv s1 j = file_block blk sv s j" if "j < MAXBLOCKS" for j
      using that i(2) by (auto simp: file_block_def words MAXBLOCKS_def)
    have "inode_ok blk n ?sv s1"
    proof (rule inode_ok_step [OF ino _ i(3), where k = 0])
      show "file_block blk ?sv s1 j = (if j = unat fb then 0 else file_block blk sv s j)" if "j < MAXBLOCKS" for j
        using fb [OF that] i(1,2) by (simp add: file_block_def)
    qed (use ino got(4-6) in \<open>simp_all add: inode_ok_def\<close>)
    from bmap_alloc_indirect [OF got(2) this _ off(1)] obtain e r sv' s' where
      run: "bmap_in_buffer E ?sv k (replicate 128 0) ?off True s1 = Done (e, r, sv', s')"
      "bmap_allocates good blk n E ?sv (unat fb) s1 e r sv' s'"
      using fb [OF i(3)] i(1,2) got(3) unfolding off(2) by (auto simp: words file_block_def)
    have "sfs_bmap E sv fb True s = Done (e, r, sv', s')" using held i off(1) got(1) run(1) by (simp add: defs)
    moreover have "bmap_allocates good blk n E sv (unat fb) s e r sv' s'"
      using got(5-8) fb by (intro allocates_trans [OF run(2)]) auto
    ultimately show ?thesis by (intro exI conjI)
  qed
qed

lemma bmap_alloc:
  assumes ok: "vol_ok good n E s" and ino: "inode_ok blk n sv s" and i: "unat fb < MAXBLOCKS"
    and zero: "file_block blk sv s (unat fb) = 0"
  shows "\<exists>e r sv' s'. sfs_bmap E sv fb True s = Done (e, r, sv', s') \<and> bmap_allocates good blk n E sv (unat fb) s e r sv' s'"
proof -
  let ?ind = "sfi_indirect (sv_i sv)" and ?off = "unat fb - 15"
  have held: "vfs_biglock_do_i_hold s" using ok by (simp add: vol_ok_def vfs_biglock_do_i_hold_def)
  note defs = sfs_bmap_def kassert_def SFS_NDIRECT_def SFS_NINDIRECT_def SFS_DBPERIDB_def Let_def
  consider (dir) "unat fb < 15" | (none) "\<not> unat fb < 15" "?ind = 0" | (ind) "\<not> unat fb < 15" "?ind \<noteq> 0" by blast
  then show ?thesis
  proof cases
    case dir
    then show ?thesis using bmap_alloc_direct [OF ok ino dir zero] held by (simp add: sfs_bmap_def kassert_def SFS_NDIRECT_def)
  next
    case ind
    then have off: "?off < 128" "15 + ?off = unat fb" using i by (auto simp: MAXBLOCKS_def)
    have lt: "unat ?ind < n" using ino ind(2) by (simp add: inode_ok_def)
    obtain m d where r: "sfs_readblock E ?ind (bmap_buf E) SFS_BLOCKSIZE s = Done (EOK, s\<lparr>sfs_mem := m, sfs_dev := d\<rparr>)"
      "vol_ok good n E (s\<lparr>sfs_mem := m, sfs_dev := d\<rparr>)" "mem_block m (bmap_buf E) SFS_BLOCKSIZE = blk (sfs_dev s) (unat ?ind)"
      "\<forall>j < n. blk d j = blk (sfs_dev s) j"
      using readblock_ok [OF ok lt bufs_apart(1)] by (elim exE conjE) (rule that)
    let ?s = "s\<lparr>sfs_mem := m, sfs_dev := d\<rparr>"
    have fb: "file_block blk sv ?s = file_block blk sv s" using r(4) by (intro blk_same_file_block [OF ino]) simp
    have ino': "inode_ok blk n sv ?s" using ino by (simp add: inode_ok_def fb) (elim conjE, assumption)
    obtain e r' sv' s' where run: "bmap_in_buffer E sv ?ind (be_words (blk d (unat ?ind))) ?off True ?s = Done (e, r', sv', s')"
      "bmap_allocates good blk n E sv (unat fb) ?s e r' sv' s'"
      using bmap_alloc_indirect [OF r(2) ino' ind(2) off(1)] zero unfolding off(2) fb by auto
    have "sfs_bmap E sv fb True s = Done (e, r', sv', s')"
      using held ind off(1) r(1,3,4) lt run(1) by (simp add: defs)
    moreover have "bmap_allocates good blk n E sv (unat fb) s e r' sv' s'"
      using r(4) fb by (intro allocates_trans [OF run(2)]) simp_all
    ultimately show ?thesis by (intro exI conjI)
  next
    case none
    show ?thesis using bmap_alloc_first [OF ok ino none i] held by simp
  qed
qed

end

section \<open>The volume on the disk\<close>

lemma kbuf_far:
  fixes a b :: u32
  assumes ab: "unat b + 512 \<le> unat a" and a: "unat a + 512 < 2 ^ 32"
  shows "set (kbuf_addrs a) \<inter> set (kbuf_addrs b) = {}"
proof -
  have "a + of_nat i \<noteq> b + of_nat j" if ij: "i < 512" "j < 512" for i j
  proof
    assume "a + of_nat i = b + of_nat j"
    moreover have "unat (a + of_nat i) = unat a + i" using a ij by (simp add: unat_word_ariths unat_of_nat)
    moreover have "unat (b + of_nat j) = unat b + j" using a ab ij by (simp add: unat_word_ariths unat_of_nat)
    ultimately show False using ab ij by simp
  qed
  moreover have "set (kbuf_addrs c) = (\<lambda>i. c + of_nat i) ` {0..<512}" for c :: u32
    unfolding kbuf_addrs_def set_map set_upt ..
  ultimately show ?thesis by force
qed

definition lhd_env :: "u8 list list lhd sfs_env" where
  "lhd_env = \<lparr>DEVOP_IO = lhd_io sound_card, zeros_buf = 0x80010000, bmap_buf = 0x80011000, itrunc_buf = 0x80012000,
     partial_buf = 0x80013000, meta_buf = 0x80014000\<rparr>"

abbreviation (input) lhd_blk :: "u8 list list lhd \<Rightarrow> nat \<Rightarrow> u8 list" where
  "lhd_blk \<equiv> \<lambda>lh b. lh_disk lh ! b"

interpretation sfs_lhd: sfs_volume "lhd_io sound_card" "lhd_good n" lhd_blk n lhd_env for n
  by unfold_locales (simp_all add: lhd_env_def bufs_ok_def buf_apart_def kbuf_far)

text \<open>A small volume: 8 blocks of zeros, of which 0 and 1 are in use, and an empty file.\<close>

definition demo_vol :: "u8 list list lhd sfs_fs" where
  "demo_vol = \<lparr>sb_nblocks = 8, sfs_freemap = \<lparr>nbits = 8, bm_v = [3]\<rparr>, sfs_freemapdirty = False, sfs_mem = flat_mem,
     sfs_dev = \<lparr>lh_blocks = 8, lh_buf = replicate 512 0, lh_result = EOK, lh_clear = 1, lh_done = 0,
                lh_disk = replicate 8 (replicate 512 0)\<rparr>, biglock_depth = 1\<rparr>"

definition demo_file :: sfs_vnode where
  "demo_file = \<lparr>sv_i = \<lparr>sfi_size = 0, sfi_type = 1, sfi_linkcount = 1, sfi_direct = replicate 15 0, sfi_indirect = 0\<rparr>,
     sv_ino = 1, sv_dirty = False\<rparr>"

lemma demo_vol_ok: "vol_ok (lhd_good 8) 8 lhd_env demo_vol"
proof -
  have "map (um_byte flat_mem) (kbuf_addrs a) = replicate 512 0" for a
    by (rule nth_equalityI) (simp_all add: flat_mem_def)
  moreover have "bitmap_ok \<lparr>nbits = 8, bm_v = [3]\<rparr>" by (auto simp: bitmap_ok_def)
  moreover have "bm_bit \<lparr>nbits = 8, bm_v = [3]\<rparr> 0" by (simp add: bm_bit_def)
  ultimately show ?thesis by (auto simp: vol_ok_def demo_vol_def lhd_good_def simp del: map_eq_conv)
qed

lemma demo_file_ok: "inode_ok lhd_blk 8 demo_file demo_vol"
proof -
  have "file_block lhd_blk demo_file demo_vol i = 0" if "i < MAXBLOCKS" for i
    by (simp add: file_block_def demo_file_def)
  then show ?thesis by (simp add: inode_ok_def) (simp add: demo_file_def)
qed

section \<open>Properties\<close>

text \<open>
  C35: \<open>sfs_bmap\<close> that only looks up a block, on a sound inode of a volume whose disk has no errors:
  it hands back the block that the inode and its indirect block record (0 where there is none) and changes
  neither the inode nor the free map nor any block of the disk.
\<close>

theorem sfs_bmap_lookup:
  assumes "vol_ok (lhd_good n) n lhd_env s" and "inode_ok lhd_blk n sv s" and "unat fb < MAXBLOCKS"
    and "file_block lhd_blk sv s (unat fb) \<noteq> 0 \<or> \<not> doalloc"
  shows "\<exists>m d. sfs_bmap lhd_env sv fb doalloc s
      = Done (EOK, Some (file_block lhd_blk sv s (unat fb)), sv, s\<lparr>sfs_mem := m, sfs_dev := d\<rparr>)
    \<and> vol_ok (lhd_good n) n lhd_env (s\<lparr>sfs_mem := m, sfs_dev := d\<rparr>) \<and> (\<forall>j < n. lh_disk d ! j = lh_disk (sfs_dev s) ! j)"
  using sfs_lhd.bmap_lookup [OF assms] by simp

theorem sfs_bmap_lookup_witness:
  "\<exists>m d. sfs_bmap lhd_env demo_file 20 False demo_vol = Done (EOK, Some 0, demo_file, demo_vol\<lparr>sfs_mem := m, sfs_dev := d\<rparr>)"
proof -
  have "file_block lhd_blk demo_file demo_vol 20 = 0" by (simp add: file_block_def demo_file_def)
  then show ?thesis
    using sfs_bmap_lookup [OF demo_vol_ok demo_file_ok, of 20 False] by (auto simp: MAXBLOCKS_def)
qed

text \<open>
  C3: \<open>sfs_bmap\<close> that allocates, for a block the file does not have. Either the volume is full and the file
  keeps the blocks it had, or one block that was free becomes block \<open>i\<close> of the file, is zero on the disk and is
  marked in use, and every other block of the file stays where it was. The inode stays sound: no
  block is used twice. Blocks in use keep their contents, the indirect block of this file apart.
\<close>

theorem sfs_bmap_allocates:
  assumes "vol_ok (lhd_good n) n lhd_env s" and "inode_ok lhd_blk n sv s" and "unat fb < MAXBLOCKS"
    and "file_block lhd_blk sv s (unat fb) = 0"
  shows "\<exists>e r sv' s'. sfs_bmap lhd_env sv fb True s = Done (e, r, sv', s')
    \<and> bmap_allocates (lhd_good n) lhd_blk n lhd_env sv (unat fb) s e r sv' s'"
  by (rule sfs_lhd.bmap_alloc [OF assms])

theorem sfs_bmap_allocates_witness:
  "\<exists>e r sv' s'. sfs_bmap lhd_env demo_file 20 True demo_vol = Done (e, r, sv', s') \<and> inode_ok lhd_blk 8 sv' s'"
proof -
  have "file_block lhd_blk demo_file demo_vol (unat (20 :: u32)) = 0" by (simp add: file_block_def demo_file_def)
  then show ?thesis
    using sfs_bmap_allocates [OF demo_vol_ok demo_file_ok, of 20] by (auto simp: MAXBLOCKS_def bmap_allocates_def)
qed

end
