(* ===== verification/Kern_Sfs_Trunc.thy ===== *)
theory Kern_Sfs_Trunc
  imports Kern_Sfs
begin

text \<open>
  Truncation of files of the simple file system: what \<open>sfs_itrunc\<close> of \<^verbatim>\<open>kern/fs/sfs/sfs_bmap.c\<close> frees. The definitions are
  in \<open>Kern_Sfs\<close>; here the two loops are related to the block map of the file and to the free map.
\<close>

section \<open>Freeing blocks\<close>

text \<open>The part of \<open>inode_ok\<close> that speaks of the block map alone.\<close>

definition fmap_ok :: "nat \<Rightarrow> (nat \<Rightarrow> u32) \<Rightarrow> u32 \<Rightarrow> (nat \<Rightarrow> bool) \<Rightarrow> bool" where
  "fmap_ok n f ind B \<longleftrightarrow>
     (\<forall>i < MAXBLOCKS. f i \<noteq> 0 \<longrightarrow> unat (f i) < n \<and> B (unat (f i)) \<and> f i \<noteq> ind)
     \<and> (ind \<noteq> 0 \<longrightarrow> unat ind < n \<and> B (unat ind))
     \<and> (\<forall>i < MAXBLOCKS. \<forall>j < MAXBLOCKS. f i \<noteq> 0 \<and> f i = f j \<longrightarrow> i = j)"

lemma inode_ok_fmap:
  "inode_ok blk n sv s \<longleftrightarrow> length (sfi_direct (sv_i sv)) = 15
     \<and> fmap_ok n (file_block blk sv s) (sfi_indirect (sv_i sv)) (bm_bit (sfs_freemap s))"
  unfolding inode_ok_def fmap_ok_def by blast

lemma fmap_ok_cong:
  assumes "fmap_ok n f ind B" and "\<And>i. i < MAXBLOCKS \<Longrightarrow> g i = f i" and "\<And>b. B' b = B b"
  shows "fmap_ok n g ind B'"
  using assms unfolding fmap_ok_def by simp metis

definition fcut :: "(nat \<Rightarrow> bool) \<Rightarrow> (nat \<Rightarrow> u32) \<Rightarrow> nat \<Rightarrow> u32" where
  "fcut P f j = (if P j then 0 else f j)"

definition freed :: "(nat \<Rightarrow> bool) \<Rightarrow> (nat \<Rightarrow> u32) \<Rightarrow> nat set" where
  "freed P f = {unat (f j) |j. j < MAXBLOCKS \<and> P j \<and> f j \<noteq> 0}"

lemma fmap_inj: "fmap_ok n f ind B \<Longrightarrow> i < MAXBLOCKS \<Longrightarrow> j < MAXBLOCKS \<Longrightarrow> f i \<noteq> 0 \<Longrightarrow> f i = f j \<Longrightarrow> i = j"
  unfolding fmap_ok_def by blast

lemma fmap_block: "fmap_ok n f ind B \<Longrightarrow> i < MAXBLOCKS \<Longrightarrow> f i \<noteq> 0 \<Longrightarrow> unat (f i) < n \<and> B (unat (f i)) \<and> f i \<noteq> ind"
  unfolding fmap_ok_def by blast

lemma fmap_free:
  assumes ok: "fmap_ok n f ind B" and i: "i < MAXBLOCKS" "f i \<noteq> 0"
  shows "fmap_ok n (f(i := 0)) ind (\<lambda>b. B b \<and> b \<noteq> unat (f i))"
proof -
  have ne: "unat (f j) \<noteq> unat (f i)" if "j < MAXBLOCKS" "f j \<noteq> 0" "j \<noteq> i" for j
    using ok i that unfolding fmap_ok_def by (metis word_unat_eq_iff)
  have ind: "ind \<noteq> 0 \<Longrightarrow> unat ind \<noteq> unat (f i)" using ok i unfolding fmap_ok_def by (metis word_unat_eq_iff)
  have "unat ((f(i := 0)) j) < n \<and> (B (unat ((f(i := 0)) j)) \<and> unat ((f(i := 0)) j) \<noteq> unat (f i)) \<and> (f(i := 0)) j \<noteq> ind"
    if "j < MAXBLOCKS" "(f(i := 0)) j \<noteq> 0" for j
    using that ok ne [of j] unfolding fmap_ok_def by (cases "j = i") simp_all
  moreover have "j = l" if "j < MAXBLOCKS" "l < MAXBLOCKS" "(f(i := 0)) j \<noteq> 0" "(f(i := 0)) j = (f(i := 0)) l" for j l
  proof -
    have "j \<noteq> i" using that(3) by auto
    moreover from this have "l \<noteq> i" using that(3,4) by auto
    ultimately show ?thesis using fmap_inj [OF ok that(1,2)] that(3,4) by simp
  qed
  moreover have "ind \<noteq> 0 \<longrightarrow> unat ind < n \<and> B (unat ind)" using ok unfolding fmap_ok_def by blast
  ultimately show ?thesis unfolding fmap_ok_def using ind by blast
qed

lemma bfree_ok:
  assumes ok: "vol_ok good n E s" and b: "b \<noteq> 0" "unat b < n" "bm_bit (sfs_freemap s) (unat b)"
  shows "\<exists>map. sfs_bfree b s = Done (s\<lparr>sfs_freemap := map, sfs_freemapdirty := True\<rparr>)
    \<and> vol_ok good n E (s\<lparr>sfs_freemap := map, sfs_freemapdirty := True\<rparr>)
    \<and> (\<forall>j. bm_bit map j \<longleftrightarrow> bm_bit (sfs_freemap s) j \<and> j \<noteq> unat b)"
proof -
  have "bitmap_ok (sfs_freemap s)" "unat b < nbits (sfs_freemap s)" using ok b(2) by (simp_all add: vol_ok_def)
  from bitmap_unmark_spec [OF this] obtain map where
    m: "bitmap_unmark (sfs_freemap s) (unat b) = Done map" "bitmap_ok map" "nbits map = nbits (sfs_freemap s)"
    "\<forall>j. bm_bit map j \<longleftrightarrow> bm_bit (sfs_freemap s) j \<and> j \<noteq> unat b"
    unfolding if_P [OF b(3)] by (elim exE conjE) (rule that)
  have "vol_ok good n E (s\<lparr>sfs_freemap := map, sfs_freemapdirty := True\<rparr>)"
    using ok m(2-4) b(1,2) by (auto simp: vol_ok_def unat_eq_zero)
  moreover have "sfs_bfree b s = Done (s\<lparr>sfs_freemap := map, sfs_freemapdirty := True\<rparr>)" using m(1) by (simp add: sfs_bfree_def)
  ultimately show ?thesis using m(4) by (intro exI conjI)
qed

text \<open>
  States that differ in the free map alone, and what freeing the blocks of \<open>f\<close> that \<open>P\<close> selects does.
\<close>

definition frees ::
  "('d \<Rightarrow> bool) \<Rightarrow> nat \<Rightarrow> 'd sfs_env \<Rightarrow> (nat \<Rightarrow> bool) \<Rightarrow> (nat \<Rightarrow> u32) \<Rightarrow> u32 \<Rightarrow> 'd sfs_fs \<Rightarrow> 'd sfs_fs \<Rightarrow> bool" where
  "frees good n E P f ind s s' \<longleftrightarrow> vol_ok good n E s' \<and> sfs_mem s' = sfs_mem s \<and> sfs_dev s' = sfs_dev s
     \<and> biglock_depth s' = biglock_depth s \<and> fmap_ok n (fcut P f) ind (bm_bit (sfs_freemap s'))
     \<and> (\<forall>b. bm_bit (sfs_freemap s') b \<longleftrightarrow> bm_bit (sfs_freemap s) b \<and> b \<notin> freed P f)"

lemma frees_fmap: "frees good n E P f ind s s' \<Longrightarrow> fmap_ok n (fcut P f) ind (bm_bit (sfs_freemap s'))"
  unfolding frees_def by blast

lemma frees_none:
  assumes "vol_ok good n E s" "fmap_ok n f ind (bm_bit (sfs_freemap s))" "\<And>j. j < MAXBLOCKS \<Longrightarrow> P j \<Longrightarrow> f j = 0"
  shows "frees good n E P f ind s s"
proof -
  have "fmap_ok n (fcut P f) ind (bm_bit (sfs_freemap s))"
    using assms(3) by (intro fmap_ok_cong [OF assms(2)]) (auto simp: fcut_def)
  then show ?thesis using assms by (auto simp: frees_def freed_def)
qed

text \<open>Freeing one block and then the others.\<close>

lemma frees_step:
  assumes ok: "vol_ok good n E s" and f: "fmap_ok n f ind (bm_bit (sfs_freemap s))" and i: "i < MAXBLOCKS" "P i" "f i \<noteq> 0"
    and P: "\<And>j. j < MAXBLOCKS \<Longrightarrow> P j \<longleftrightarrow> j = i \<or> Q j"
  shows "\<exists>s1. sfs_bfree (f i) s = Done s1 \<and> vol_ok good n E s1 \<and> sfs_mem s1 = sfs_mem s \<and> sfs_dev s1 = sfs_dev s
    \<and> fmap_ok n (f(i := 0)) ind (bm_bit (sfs_freemap s1))
    \<and> (\<forall>s'. frees good n E Q (f(i := 0)) ind s1 s' \<longrightarrow> frees good n E P f ind s s')"
proof -
  note blk = fmap_block [OF f i(1,3)]
  obtain map where m: "sfs_bfree (f i) s = Done (s\<lparr>sfs_freemap := map, sfs_freemapdirty := True\<rparr>)"
    "vol_ok good n E (s\<lparr>sfs_freemap := map, sfs_freemapdirty := True\<rparr>)"
    "\<forall>j. bm_bit map j \<longleftrightarrow> bm_bit (sfs_freemap s) j \<and> j \<noteq> unat (f i)"
    using bfree_ok [OF ok i(3) conjunct1 [OF blk] conjunct1 [OF conjunct2 [OF blk]]] by (elim exE conjE) (rule that)
  have cuts: "fcut Q (f(i := 0)) j = fcut P f j" if "j < MAXBLOCKS" for j using P [OF that] by (auto simp: fcut_def)
  have bits: "b \<in> freed P f \<longleftrightarrow> b = unat (f i) \<or> b \<in> freed Q (f(i := 0))" for b
  proof
    assume "b \<in> freed P f"
    then obtain j where j: "b = unat (f j)" "j < MAXBLOCKS" "P j" "f j \<noteq> 0" by (auto simp: freed_def)
    then show "b = unat (f i) \<or> b \<in> freed Q (f(i := 0))" using P [OF j(2)]
      by (cases "j = i") (auto simp: freed_def intro!: exI [of _ j])
  next
    assume "b = unat (f i) \<or> b \<in> freed Q (f(i := 0))"
    then show "b \<in> freed P f" using i P by (auto simp: freed_def split: if_splits)
  qed
  let ?s1 = "s\<lparr>sfs_freemap := map, sfs_freemapdirty := True\<rparr>"
  have "fmap_ok n (f(i := 0)) ind (bm_bit map)" using m(3) by (intro fmap_ok_cong [OF fmap_free [OF f i(1,3)]]) auto
  moreover have "frees good n E P f ind s s'" if "frees good n E Q (f(i := 0)) ind ?s1 s'" for s'
  proof -
    have "fmap_ok n (fcut P f) ind (bm_bit (sfs_freemap s'))"
      by (rule fmap_ok_cong [OF frees_fmap [OF that] cuts [symmetric] refl])
    then show ?thesis using that m(3) bits unfolding frees_def by simp
  qed
  ultimately show ?thesis using m(1,2) by (intro exI [of _ ?s1]) simp
qed

lemma itrunc_direct_ok:
  assumes "vol_ok good n E s" and "length (sfi_direct (sv_i sv)) = 15" and "fmap_ok n f (sfi_indirect (sv_i sv)) (bm_bit (sfs_freemap s))"
    and "\<forall>j < 15. sfi_direct (sv_i sv) ! j = f j" and "i \<le> 15"
  shows "\<exists>sv' s'. itrunc_direct bl i sv s = Done (sv', s') \<and> length (sfi_direct (sv_i sv')) = 15
    \<and> sfi_indirect (sv_i sv') = sfi_indirect (sv_i sv)
    \<and> (\<forall>j < 15. sfi_direct (sv_i sv') ! j = fcut (\<lambda>j. i \<le> j \<and> j < 15 \<and> unat bl \<le> j) f j)
    \<and> frees good n E (\<lambda>j. i \<le> j \<and> j < 15 \<and> unat bl \<le> j) f (sfi_indirect (sv_i sv)) s s'"
  using assms
proof (induction "15 - i" arbitrary: i sv s f)
  case 0
  then have "itrunc_direct bl i sv s = Done (sv, s)" by (subst itrunc_direct.simps) (simp add: SFS_NDIRECT_def)
  moreover have "frees good n E (\<lambda>j. i \<le> j \<and> j < 15 \<and> unat bl \<le> j) f (sfi_indirect (sv_i sv)) s s"
    using 0 by (intro frees_none) simp_all
  ultimately show ?case using 0 by (intro exI conjI) (assumption, simp_all add: fcut_def)
next
  case (Suc x)
  have i: "i < 15" "x = 15 - Suc i" "i < MAXBLOCKS" using Suc.hyps(2) by (simp_all add: MAXBLOCKS_def)
  have get: "arr_get (sfi_direct (sv_i sv)) i = Done (f i)" using Suc.prems(2,4) i by (simp add: arr_get_def)
  show ?case
  proof (cases "unat bl \<le> i \<and> f i \<noteq> 0")
    case True
    let ?P = "\<lambda>j. i \<le> j \<and> j < 15 \<and> unat bl \<le> j" and ?Q = "\<lambda>j. Suc i \<le> j \<and> j < 15 \<and> unat bl \<le> j"
    let ?sv = "sv\<lparr>sv_i := (sv_i sv)\<lparr>sfi_direct := (sfi_direct (sv_i sv))[i := 0]\<rparr>, sv_dirty := True\<rparr>"
    have PQ: "?P j \<longleftrightarrow> j = i \<or> ?Q j" for j using True i(1) by auto
    have Pi: "?P i" "f i \<noteq> 0" using True i(1) by simp_all
    obtain s1 where
      s1: "sfs_bfree (f i) s = Done s1" "vol_ok good n E s1" "fmap_ok n (f(i := 0)) (sfi_indirect (sv_i sv)) (bm_bit (sfs_freemap s1))"
      "\<forall>s'. frees good n E ?Q (f(i := 0)) (sfi_indirect (sv_i sv)) s1 s' \<longrightarrow> frees good n E ?P f (sfi_indirect (sv_i sv)) s s'"
      using frees_step [OF Suc.prems(1,3) i(3), of ?P ?Q, OF Pi PQ] by (elim exE conjE) (rule that)
    have d: "\<forall>j < 15. sfi_direct (sv_i ?sv) ! j = (f(i := 0)) j" using Suc.prems(2,4) by (simp add: nth_list_update)
    have l: "length (sfi_direct (sv_i ?sv)) = 15" "sfi_indirect (sv_i ?sv) = sfi_indirect (sv_i sv)" "Suc i \<le> 15"
      using Suc.prems(2) i(1) by simp_all
    have fm: "fmap_ok n (f(i := 0)) (sfi_indirect (sv_i ?sv)) (bm_bit (sfs_freemap s1))" using s1(3) by simp
    obtain sv' s' where
      r: "itrunc_direct bl (Suc i) ?sv s1 = Done (sv', s')" "length (sfi_direct (sv_i sv')) = 15"
      "sfi_indirect (sv_i sv') = sfi_indirect (sv_i sv)"
      "\<forall>j < 15. sfi_direct (sv_i sv') ! j = fcut ?Q (f(i := 0)) j" "frees good n E ?Q (f(i := 0)) (sfi_indirect (sv_i sv)) s1 s'"
      using Suc.hyps(1) [OF i(2) s1(2) l(1) fm d l(3)] unfolding l(2) by (elim exE conjE) (rule that)
    have "fcut ?Q (f(i := 0)) j = fcut ?P f j" for j using True i(1) by (auto simp: fcut_def)
    moreover have "itrunc_direct bl i sv s = Done (sv', s')"
      using get True i(1) s1(1) r(1) by (simp add: itrunc_direct.simps [of bl i] SFS_NDIRECT_def)
    ultimately show ?thesis using r s1(4) by (intro exI conjI) (assumption, simp_all)
  next
    case False
    let ?P = "\<lambda>j. i \<le> j \<and> j < 15 \<and> unat bl \<le> j" and ?Q = "\<lambda>j. Suc i \<le> j \<and> j < 15 \<and> unat bl \<le> j"
    have PQ: "?P j \<and> f j \<noteq> 0 \<longleftrightarrow> ?Q j \<and> f j \<noteq> 0" for j using False by (cases "j = i") auto
    have "fcut ?P f j = fcut ?Q f j" for j using PQ [of j] unfolding fcut_def by presburger
    then have "fcut ?P f = fcut ?Q f" by (rule ext)
    moreover have "freed ?P f = freed ?Q f" unfolding freed_def using PQ by (intro Collect_cong ex_cong1) blast
    ultimately have fr: "fcut ?P f = fcut ?Q f" "frees good n E ?P f ind s s' = frees good n E ?Q f ind s s'" for ind s'
      unfolding frees_def by simp_all
    have "itrunc_direct bl i sv s = itrunc_direct bl (Suc i) sv s"
      using get False i(1) by (auto simp: itrunc_direct.simps [of bl i] SFS_NDIRECT_def)
    then show ?thesis using Suc.hyps(1) [OF i(2) Suc.prems(1-4)] i(1) unfolding fr by simp
  qed
qed


lemma itrunc_words_ok:
  assumes "vol_ok good n E s" and "length idbuf = 128" and "fmap_ok n f ind (bm_bit (sfs_freemap s))"
    and "\<forall>k < 128. idbuf ! k = f (15 + k)" and "j \<le> 128"
  shows "\<exists>w h' d' s'. itrunc_words bl j idbuf h d s = Done (w, h', d', s') \<and> length w = 128
    \<and> (\<forall>k < 128. w ! k = fcut (\<lambda>i. 15 + j \<le> i \<and> i < 143 \<and> unat bl < i) f (15 + k))
    \<and> (h' \<longleftrightarrow> h \<or> (\<exists>k. j \<le> k \<and> k < 128 \<and> w ! k \<noteq> 0)) \<and> (d' \<or> \<not> d \<and> w = idbuf)
    \<and> frees good n E (\<lambda>i. 15 + j \<le> i \<and> i < 143 \<and> unat bl < i) f ind s s'"
  using assms
proof (induction "128 - j" arbitrary: j idbuf h d s f)
  case 0
  then have "itrunc_words bl j idbuf h d s = Done (idbuf, h, d, s)" by (subst itrunc_words.simps) (simp add: SFS_DBPERIDB_def)
  moreover have "frees good n E (\<lambda>i. 15 + j \<le> i \<and> i < 143 \<and> unat bl < i) f ind s s"
    using 0 by (intro frees_none) simp_all
  ultimately show ?case using 0 by (intro exI conjI) (assumption, auto simp: fcut_def)
next
  case (Suc x)
  have j: "j < 128" "x = 128 - Suc j" "15 + j < MAXBLOCKS" "Suc j \<le> 128" using Suc.hyps(2) by (simp_all add: MAXBLOCKS_def)
  let ?i = "15 + j"
  let ?P = "\<lambda>i. 15 + j \<le> i \<and> i < 143 \<and> unat bl < i" and ?Q = "\<lambda>i. 15 + Suc j \<le> i \<and> i < 143 \<and> unat bl < i"
  have get: "arr_get idbuf j = Done (f ?i)" using Suc.prems(2,4) j(1) by (simp add: arr_get_def)
  show ?case
  proof (cases "unat bl < ?i \<and> f ?i \<noteq> 0")
    case True
    have PQ: "?P i \<longleftrightarrow> i = ?i \<or> ?Q i" for i using True j(1) by auto
    have Pi: "?P ?i" "f ?i \<noteq> 0" using True j(1) by simp_all
    obtain s1 where
      s1: "sfs_bfree (f ?i) s = Done s1" "vol_ok good n E s1" "fmap_ok n (f(?i := 0)) ind (bm_bit (sfs_freemap s1))"
      "\<forall>s'. frees good n E ?Q (f(?i := 0)) ind s1 s' \<longrightarrow> frees good n E ?P f ind s s'"
      using frees_step [OF Suc.prems(1,3) j(3), of ?P ?Q, OF Pi PQ] by (elim exE conjE) (rule that)
    have l: "length (idbuf[j := 0]) = 128" "\<forall>k < 128. idbuf[j := 0] ! k = (f(?i := 0)) (15 + k)"
      using Suc.prems(2,4) by (simp_all add: nth_list_update)
    obtain w h' d' s' where
      r: "itrunc_words bl (Suc j) (idbuf[j := 0]) h True s1 = Done (w, h', d', s')" "length w = 128"
      "\<forall>k < 128. w ! k = fcut ?Q (f(?i := 0)) (15 + k)"
      "h' \<longleftrightarrow> h \<or> (\<exists>k. Suc j \<le> k \<and> k < 128 \<and> w ! k \<noteq> 0)" "d' \<or> \<not> True \<and> w = idbuf[j := 0]"
      "frees good n E ?Q (f(?i := 0)) ind s1 s'"
      using Suc.hyps(1) [OF j(2) s1(2) l(1) s1(3) l(2) j(4), of h True] by (elim exE conjE) (rule that)
    have c: "fcut ?Q (f(?i := 0)) i = fcut ?P f i" for i using True j(1) by (auto simp: fcut_def)
    have wj: "w ! j = 0" using r(3) j(1) by (simp add: fcut_def)
    have "(\<exists>k. Suc j \<le> k \<and> k < 128 \<and> w ! k \<noteq> 0) \<longleftrightarrow> (\<exists>k. j \<le> k \<and> k < 128 \<and> w ! k \<noteq> 0)"
      using wj by (metis Suc_leD le_antisym not_less_eq_eq)
    moreover have "itrunc_words bl j idbuf h d s = Done (w, h', d', s')"
      using get True j(1) s1(1) r(1) by (subst itrunc_words.simps) (simp add: SFS_DBPERIDB_def SFS_NDIRECT_def)
    ultimately show ?thesis using r(2-5) c s1(4) r(6) by (intro exI conjI) (assumption, simp_all)
  next
    case False
    have PQ: "?P i \<and> f i \<noteq> 0 \<longleftrightarrow> ?Q i \<and> f i \<noteq> 0" for i using False by (cases "i = ?i") auto
    have "fcut ?P f i = fcut ?Q f i" for i using PQ [of i] unfolding fcut_def by presburger
    then have "fcut ?P f = fcut ?Q f" by (rule ext)
    moreover have "freed ?P f = freed ?Q f" unfolding freed_def using PQ by (intro Collect_cong ex_cong1) blast
    ultimately have fr: "fcut ?P f = fcut ?Q f" "frees good n E ?P f ind s s' = frees good n E ?Q f ind s s'" for s'
      unfolding frees_def by simp_all
    obtain w h' d' s' where
      r: "itrunc_words bl (Suc j) idbuf (h \<or> f ?i \<noteq> 0) d s = Done (w, h', d', s')" "length w = 128"
      "\<forall>k < 128. w ! k = fcut ?Q f (15 + k)"
      "h' \<longleftrightarrow> (h \<or> f ?i \<noteq> 0) \<or> (\<exists>k. Suc j \<le> k \<and> k < 128 \<and> w ! k \<noteq> 0)" "d' \<or> \<not> d \<and> w = idbuf"
      "frees good n E ?Q f ind s s'"
      using Suc.hyps(1) [OF j(2) Suc.prems(1-4) j(4), of "h \<or> f ?i \<noteq> 0" d] by (elim exE conjE) (rule that)
    have "w ! j = f ?i" using r(3) j(1) by (simp add: fcut_def)
    then have "h' \<longleftrightarrow> h \<or> (\<exists>k. j \<le> k \<and> k < 128 \<and> w ! k \<noteq> 0)"
      using r(4) j(1) by (metis Suc_leD le_antisym not_less_eq_eq order_refl)
    moreover have "itrunc_words bl j idbuf h d s = Done (w, h', d', s')"
      using get False j(1) r(1) by (subst itrunc_words.simps) (auto simp: SFS_DBPERIDB_def SFS_NDIRECT_def)
    ultimately show ?thesis unfolding fr using r(2,3,5,6) by (intro exI conjI) (assumption, assumption+)
  qed
qed

text \<open>The indirect block itself is freed.\<close>

lemma fmap_drop_ind: "fmap_ok n f ind B \<Longrightarrow> fmap_ok n f 0 (\<lambda>b. B b \<and> b \<noteq> unat ind)"
  unfolding fmap_ok_def by (metis word_unat_eq_iff)

text \<open>The blocks that \<open>sfs_itrunc\<close> discards for a length of \<open>bl\<close> blocks.\<close>

definition itrunc_drops :: "nat \<Rightarrow> nat \<Rightarrow> bool" where
  "itrunc_drops bl i \<longleftrightarrow> (if i < 15 then bl \<le> i else bl < i)"

context sfs_volume
begin

lemma itrunc_indirect_ok:
  assumes ok: "vol_ok good n E s" and ino: "inode_ok blk n sv s"
  shows "\<exists>sv' s'. itrunc_indirect E bl sv s = Done (EOK, sv', s') \<and> vol_ok good n E s' \<and> inode_ok blk n sv' s'
    \<and> biglock_depth s' = biglock_depth s \<and> sfi_direct (sv_i sv') = sfi_direct (sv_i sv)
    \<and> (\<forall>i < MAXBLOCKS. file_block blk sv' s' i = fcut (\<lambda>i. 15 \<le> i \<and> i < 143 \<and> unat bl < i) (file_block blk sv s) i)
    \<and> (\<forall>b. bm_bit (sfs_freemap s') b \<longrightarrow> bm_bit (sfs_freemap s) b)
    \<and> (\<forall>b \<in> freed (\<lambda>i. 15 \<le> i \<and> i < 143 \<and> unat bl < i) (file_block blk sv s). \<not> bm_bit (sfs_freemap s') b)"
proof -
  let ?f = "file_block blk sv s" and ?ind = "sfi_indirect (sv_i sv)" and ?P = "\<lambda>i. 15 \<le> i \<and> i < 143 \<and> unat bl < i"
  have len: "length (sfi_direct (sv_i sv)) = 15" and fm: "fmap_ok n ?f ?ind (bm_bit (sfs_freemap s))"
    using ino by (simp_all add: inode_ok_fmap)
  show ?thesis
  proof (cases "unat bl < 142 \<and> ?ind \<noteq> 0")
    case False
    then have z: "?f i = 0" if "i < MAXBLOCKS" "?P i" for i using that by (auto simp: file_block_def)
    have run: "itrunc_indirect E bl sv s = Done (EOK, sv, s)"
      using False by (auto simp: itrunc_indirect_def SFS_NDIRECT_def SFS_DBPERIDB_def)
    have "\<forall>i < MAXBLOCKS. ?f i = fcut ?P ?f i" using z by (simp add: fcut_def)
    moreover have "freed ?P ?f = {}" using z by (auto simp: freed_def)
    ultimately show ?thesis using run ok ino by (intro exI conjI) (assumption, simp_all)
  next
    case True
    have lt: "unat ?ind < n" "bm_bit (sfs_freemap s) (unat ?ind)" using ino True by (simp_all add: inode_ok_def)
    obtain m d where r: "sfs_readblock E ?ind (itrunc_buf E) SFS_BLOCKSIZE s = Done (EOK, s\<lparr>sfs_mem := m, sfs_dev := d\<rparr>)"
      "vol_ok good n E (s\<lparr>sfs_mem := m, sfs_dev := d\<rparr>)" "mem_block m (itrunc_buf E) SFS_BLOCKSIZE = blk (sfs_dev s) (unat ?ind)"
      "\<forall>j < n. blk d j = blk (sfs_dev s) j"
      using readblock_ok [OF ok lt(1) bufs_apart(2)] by (elim exE conjE) (rule that)
    let ?s = "s\<lparr>sfs_mem := m, sfs_dev := d\<rparr>" and ?ws = "be_words (blk (sfs_dev s) (unat ?ind))"
    have lw: "length ?ws = 128" using blk_len [of "sfs_dev s" "unat ?ind"] ok lt by (simp add: length_be_words vol_ok_def)
    have ws: "\<forall>k < 128. ?ws ! k = ?f (15 + k)" using True by (simp add: file_block_def)
    have fm': "fmap_ok n ?f ?ind (bm_bit (sfs_freemap ?s))" using fm by simp
    obtain w h' d' s1 where w: "itrunc_words bl 0 ?ws False False ?s = Done (w, h', d', s1)" "length w = 128"
      "\<forall>k < 128. w ! k = fcut ?P ?f (15 + k)" "h' \<longleftrightarrow> False \<or> (\<exists>k. 0 \<le> k \<and> k < 128 \<and> w ! k \<noteq> 0)"
      "d' \<or> \<not> False \<and> w = ?ws" "frees good n E ?P ?f ?ind ?s s1"
      using itrunc_words_ok [OF r(2) lw fm' ws, of 0 bl False False] by (simp only: add_0_right) (elim meta_impE exE conjE, simp, rule that)
    have s1: "vol_ok good n E s1" "sfs_dev s1 = d" "biglock_depth s1 = biglock_depth s" "fmap_ok n (fcut ?P ?f) ?ind (bm_bit (sfs_freemap s1))"
      "\<And>b. bm_bit (sfs_freemap s1) b \<longleftrightarrow> bm_bit (sfs_freemap s) b \<and> b \<notin> freed ?P ?f"
      using w(6) by (simp_all only: frees_def) simp_all
    have start: "itrunc_indirect E bl sv s = (if \<not> h' then bnd (sfs_bfree ?ind s1) (\<lambda>s.
           Done (EOK, sv\<lparr>sv_i := (sv_i sv)\<lparr>sfi_indirect := 0\<rparr>, sv_dirty := True\<rparr>, s))
         else if d' then bnd (sfs_writeblock E ?ind (itrunc_buf E) SFS_BLOCKSIZE
              (s1\<lparr>sfs_mem := kmem_write (be_bytes w) (itrunc_buf E) (sfs_mem s1)\<rparr>)) (\<lambda>(result, s). Done (result, sv, s))
         else Done (EOK, sv, s1))"
      using True r(1,3) w(1) by (simp add: itrunc_indirect_def SFS_NDIRECT_def SFS_DBPERIDB_def)
    have finish: ?thesis
      if "itrunc_indirect E bl sv s = Done (EOK, sv', s')" "vol_ok good n E s'" "biglock_depth s' = biglock_depth s"
        "sfi_direct (sv_i sv') = sfi_direct (sv_i sv)" "\<And>i. i < MAXBLOCKS \<Longrightarrow> file_block blk sv' s' i = fcut ?P ?f i"
        "fmap_ok n (fcut ?P ?f) (sfi_indirect (sv_i sv')) (bm_bit (sfs_freemap s'))"
        "\<And>b. bm_bit (sfs_freemap s') b \<Longrightarrow> bm_bit (sfs_freemap s1) b" for sv' s'
    proof -
      have "inode_ok blk n sv' s'" using fmap_ok_cong [OF that(6,5) refl] that(4) len by (simp add: inode_ok_fmap)
      then show ?thesis using that s1(5) by (intro exI [of _ sv'] exI [of _ s'] conjI) auto
    qed
    have words: "be_words (blk (sfs_dev s') (unat ?ind)) = w \<Longrightarrow> i < MAXBLOCKS \<Longrightarrow> file_block blk sv s' i = fcut ?P ?f i" for s' i
      using w(3) True by (auto simp: file_block_def fcut_def MAXBLOCKS_def le_add_diff_inverse dest: spec [of _ "i - 15"])
    consider (empty) "\<not> h'" | (dirty) "h'" "d'" | (clean) "h'" "\<not> d'" by blast
    then show ?thesis
    proof cases
      case empty
      let ?sv = "sv\<lparr>sv_i := (sv_i sv)\<lparr>sfi_indirect := 0\<rparr>, sv_dirty := True\<rparr>"
      have used: "bm_bit (sfs_freemap s1) (unat ?ind)" using s1(4) True unfolding fmap_ok_def by blast
      obtain map where mp: "sfs_bfree ?ind s1 = Done (s1\<lparr>sfs_freemap := map, sfs_freemapdirty := True\<rparr>)"
        "vol_ok good n E (s1\<lparr>sfs_freemap := map, sfs_freemapdirty := True\<rparr>)"
        "\<forall>j. bm_bit map j \<longleftrightarrow> bm_bit (sfs_freemap s1) j \<and> j \<noteq> unat ?ind"
        using bfree_ok [OF s1(1) conjunct2 [OF True] lt(1) used] by (elim exE conjE) (rule that)
      have fmz: "fmap_ok n (fcut ?P ?f) 0 (bm_bit map)" using mp(3) by (intro fmap_ok_cong [OF fmap_drop_ind [OF s1(4)]]) simp_all
      have wz: "w ! k = 0" if "k < 128" for k using w(4) empty that by simp
      have fb: "file_block blk ?sv s' i = fcut ?P ?f i" if "i < MAXBLOCKS" for s' i
        using w(3) wz that by (auto simp: file_block_def fcut_def MAXBLOCKS_def dest: spec [of _ "i - 15"])
      show ?thesis
        by (rule finish [of ?sv "s1\<lparr>sfs_freemap := map, sfs_freemapdirty := True\<rparr>"])
          (use start empty mp s1(3) fb fmz in \<open>simp_all\<close>)
    next
      case dirty
      let ?s2 = "s1\<lparr>sfs_mem := kmem_write (be_bytes w) (itrunc_buf E) (sfs_mem s1)\<rparr>"
      have bs: "length (be_bytes w) = 512" using w(2) by simp
      have "vol_ok good n E ?s2"
        using s1(1) scatter_apart [OF bufs_apart(2)] unfolding vol_ok_def kmem_write_kbuf [OF bs] by (simp del: map_eq_conv)
      from writeblock_ok [OF this lt(1), of "itrunc_buf E"] obtain m2 d2 where
        wr: "sfs_writeblock E ?ind (itrunc_buf E) SFS_BLOCKSIZE ?s2 = Done (EOK, ?s2\<lparr>sfs_mem := m2, sfs_dev := d2\<rparr>)"
        "vol_ok good n E (?s2\<lparr>sfs_mem := m2, sfs_dev := d2\<rparr>)"
        "\<forall>j < n. blk d2 j = (if j = unat ?ind then mem_block (sfs_mem ?s2) (itrunc_buf E) SFS_BLOCKSIZE else blk (sfs_dev ?s2) j)"
        by (elim exE conjE) (rule that)
      have "mem_block (sfs_mem ?s2) (itrunc_buf E) SFS_BLOCKSIZE = be_bytes w"
        using block_scatter [OF bs] by (simp only: SFS_BLOCKSIZE_def mem_block_kbuf kmem_write_kbuf [OF bs]) simp
      then have "be_words (blk d2 (unat ?ind)) = w" using wr(3) lt(1) by (simp add: be_words_bytes)
      then show ?thesis
        by (intro finish [of sv "?s2\<lparr>sfs_mem := m2, sfs_dev := d2\<rparr>"] words)
          (use start dirty wr(1,2) s1(3,4) in \<open>simp_all\<close>)
    next
      case clean
      then have "be_words (blk (sfs_dev s1) (unat ?ind)) = w" using w(5) r(4) lt(1) s1(2) by simp
      then show ?thesis by (intro finish [of sv s1] words) (use start clean s1 in \<open>simp_all\<close>)
    qed
  qed
qed

lemma itrunc_ok:
  assumes ok: "vol_ok good n E (vfs_biglock_acquire s)" and ino: "inode_ok blk n sv s" and len: "0 \<le> len" "len < 2 ^ 32"
    and bl: "bl = nat ((len + 511) div 512)"
  shows "\<exists>sv' s'. sfs_itrunc E sv len s = Done (EOK, sv', s') \<and> vol_ok good n E (vfs_biglock_acquire s') \<and> inode_ok blk n sv' s'
    \<and> biglock_depth s' = biglock_depth s \<and> uint (sfi_size (sv_i sv')) = len
    \<and> (\<forall>i < MAXBLOCKS. file_block blk sv' s' i = (if itrunc_drops bl i then 0 else file_block blk sv s i))
    \<and> (\<forall>b. bm_bit (sfs_freemap s') b \<longrightarrow> bm_bit (sfs_freemap s) b)
    \<and> (\<forall>i < MAXBLOCKS. itrunc_drops bl i \<and> file_block blk sv s i \<noteq> 0 \<longrightarrow> \<not> bm_bit (sfs_freemap s') (unat (file_block blk sv s i)))"
proof -
  let ?b = "word_of_int ((len + 511) div 512) :: u32" and ?s = "vfs_biglock_acquire s" and ?f = "file_block blk sv s"
  let ?P = "\<lambda>j. 0 \<le> j \<and> j < 15 \<and> unat ?b \<le> j" and ?Q = "\<lambda>i. 15 \<le> i \<and> i < 143 \<and> unat ?b < i"
  have ub: "unat ?b = bl" using len bl by (simp add: unat_eq_nat_uint uint_word_of_int)
  have div: "(len + int SFS_BLOCKSIZE - 1) sdiv int SFS_BLOCKSIZE = (len + 511) div 512"
    using len by (simp add: SFS_BLOCKSIZE_def signed_divide_int_def sgn_if abs_if)
  have l15: "length (sfi_direct (sv_i sv)) = 15" and fm: "fmap_ok n ?f (sfi_indirect (sv_i sv)) (bm_bit (sfs_freemap ?s))"
    using ino by (simp_all add: inode_ok_fmap vfs_biglock_acquire_def)
  have dir: "\<forall>j < 15. sfi_direct (sv_i sv) ! j = ?f j" by (simp add: file_block_def)
  obtain sv1 s1 where d: "itrunc_direct ?b 0 sv ?s = Done (sv1, s1)" "length (sfi_direct (sv_i sv1)) = 15"
    "sfi_indirect (sv_i sv1) = sfi_indirect (sv_i sv)" "\<forall>j < 15. sfi_direct (sv_i sv1) ! j = fcut ?P ?f j"
    "frees good n E ?P ?f (sfi_indirect (sv_i sv)) ?s s1"
    using itrunc_direct_ok [OF ok l15 fm dir, of 0 ?b] by (elim meta_impE exE conjE) (simp, rule that)
  have s1: "vol_ok good n E s1" "sfs_dev s1 = sfs_dev s" "biglock_depth s1 = Suc (biglock_depth s)"
    "\<And>b. bm_bit (sfs_freemap s1) b \<longleftrightarrow> bm_bit (sfs_freemap s) b \<and> b \<notin> freed ?P ?f"
    using d(5) by (simp_all only: frees_def) (simp_all add: vfs_biglock_acquire_def)
  have f1: "file_block blk sv1 s1 = fcut ?P ?f" using d(3,4) s1(2) by (auto simp: file_block_def fcut_def fun_eq_iff)
  have "inode_ok blk n sv1 s1" using d(2,3) frees_fmap [OF d(5)] by (simp add: inode_ok_fmap f1)
  from itrunc_indirect_ok [OF s1(1) this, of ?b] obtain sv2 s2 where
    i: "itrunc_indirect E ?b sv1 s1 = Done (EOK, sv2, s2)" "vol_ok good n E s2" "inode_ok blk n sv2 s2"
    "biglock_depth s2 = biglock_depth s1" "\<forall>i < MAXBLOCKS. file_block blk sv2 s2 i = fcut ?Q (fcut ?P ?f) i"
    "\<forall>b. bm_bit (sfs_freemap s2) b \<longrightarrow> bm_bit (sfs_freemap s1) b"
    "\<forall>b \<in> freed ?Q (fcut ?P ?f). \<not> bm_bit (sfs_freemap s2) b"
    unfolding f1 by (elim exE conjE) (rule that)
  let ?sv = "sv2\<lparr>sv_i := (sv_i sv2)\<lparr>sfi_size := word_of_int len\<rparr>, sv_dirty := True\<rparr>"
  let ?t = "s2\<lparr>biglock_depth := biglock_depth s\<rparr>"
  have run: "sfs_itrunc E sv len s = Done (EOK, ?sv, ?t)"
    using d(1) i(1,4) s1(3) by (simp add: sfs_itrunc_def div vfs_biglock_release_def kassert_def)
  have fb: "file_block blk ?sv ?t = file_block blk sv2 s2" by (simp add: file_block_def fun_eq_iff)
  have drops: "itrunc_drops bl i \<longleftrightarrow> ?P i \<or> ?Q i" if "i < MAXBLOCKS" for i
    using that by (auto simp: itrunc_drops_def ub MAXBLOCKS_def)
  have gone: "\<not> bm_bit (sfs_freemap s2) (unat (?f j))" if "j < MAXBLOCKS" "itrunc_drops bl j" "?f j \<noteq> 0" for j
  proof (cases "?P j")
    case True
    then have "unat (?f j) \<in> freed ?P ?f" using that unfolding freed_def by blast
    then show ?thesis using i(6) s1(4) by blast
  next
    case False
    then have eq: "fcut ?P ?f j = ?f j" unfolding fcut_def by (rule if_not_P)
    have "?Q j" using drops [OF that(1)] that(2) False by blast
    then have "unat (?f j) = unat (fcut ?P ?f j)" "?Q j" "fcut ?P ?f j \<noteq> 0" unfolding eq using that(3) by blast+
    then have "unat (?f j) \<in> freed ?Q (fcut ?P ?f)" using that(1) unfolding freed_def by blast
    then show ?thesis using i(7) by blast
  qed
  have "vfs_biglock_acquire ?t = s2" using i(4) s1(3) by (simp add: vfs_biglock_acquire_def)
  moreover have "inode_ok blk n ?sv ?t" using i(3) unfolding inode_ok_fmap fb by simp
  moreover have "file_block blk ?sv ?t j = (if itrunc_drops bl j then 0 else ?f j)" if "j < MAXBLOCKS" for j
    unfolding fb using i(5) that drops [OF that] by (simp add: fcut_def)
  moreover have "uint (sfi_size (sv_i ?sv)) = len" using len by (simp add: uint_word_of_int)
  ultimately show ?thesis using run i(2,6) s1(4) gone
    by (intro exI [of _ ?sv] exI [of _ ?t]) simp
qed

end

section \<open>Properties\<close>

text \<open>
  C16: \<open>sfs_itrunc\<close> to a length of \<open>bl\<close> blocks, on a sound inode of a volume whose disk has no errors. It succeeds, sets
  the size, and keeps the inode sound. A direct block is discarded exactly when its number is \<open>bl\<close> or more; a block of
  the indirect block is discarded exactly when its number is more than \<open>bl\<close>, so that block \<open>bl\<close> itself, which
  is past the new end, is kept. What is discarded is free afterwards, and no block becomes used.
\<close>

theorem sfs_itrunc_blocks:
  assumes "vol_ok (lhd_good n) n lhd_env (vfs_biglock_acquire s)" and "inode_ok lhd_blk n sv s" and "0 \<le> len" and "len < 2 ^ 32"
    and "bl = nat ((len + 511) div 512)"
  shows "\<exists>sv' s'. sfs_itrunc lhd_env sv len s = Done (EOK, sv', s')
    \<and> vol_ok (lhd_good n) n lhd_env (vfs_biglock_acquire s') \<and> inode_ok lhd_blk n sv' s'
    \<and> biglock_depth s' = biglock_depth s \<and> uint (sfi_size (sv_i sv')) = len
    \<and> (\<forall>i < MAXBLOCKS. file_block lhd_blk sv' s' i
          = (if (if i < 15 then bl \<le> i else bl < i) then 0 else file_block lhd_blk sv s i))
    \<and> (\<forall>b. bm_bit (sfs_freemap s') b \<longrightarrow> bm_bit (sfs_freemap s) b)
    \<and> (\<forall>i < MAXBLOCKS. (if i < 15 then bl \<le> i else bl < i) \<and> file_block lhd_blk sv s i \<noteq> 0
          \<longrightarrow> \<not> bm_bit (sfs_freemap s') (unat (file_block lhd_blk sv s i)))"
  using sfs_lhd.itrunc_ok [OF assms] unfolding itrunc_drops_def .

theorem sfs_itrunc_blocks_witness:
  "\<exists>sv' s'. sfs_itrunc lhd_env demo_file 1000 demo_vol = Done (EOK, sv', s') \<and> uint (sfi_size (sv_i sv')) = 1000"
proof -
  have "vol_ok (lhd_good 8) 8 lhd_env (vfs_biglock_acquire demo_vol)"
    using demo_vol_ok by (simp add: vol_ok_def vfs_biglock_acquire_def)
  from sfs_itrunc_blocks [OF this demo_file_ok, of 1000 2] show ?thesis by auto
qed

end
