(* ===== verification/Kern_Vnode.thy ===== *)
theory Kern_Vnode
  imports Kern_Prelude
begin

text \<open>
  Vnodes and their reference counts: \<^verbatim>\<open>kern/vfs/vnode.c\<close> and \<^verbatim>\<open>kern/include/vnode.h\<close>.

  Vnodes live in a heap, since the count of one vnode is changed through many pointers. The spinlock
  of the count is held only over the change of the count, which is one step here. \<open>vnode_decref\<close> calls
  the \<open>reclaim\<close> operation of the vnode, which acts on a larger state: that state, how the vnodes are
  found in it and the operation are arguments.
\<close>

record vnode =
  vn_refcount :: int
  vn_fs :: "nat option"
  vn_data :: "nat option"
  vn_ops :: "nat option"

type_synonym vnode_heap = "nat \<rightharpoonup> vnode"

definition vnode_init ::
  "nat option \<Rightarrow> nat option \<Rightarrow> nat option \<Rightarrow> nat option \<Rightarrow> vnode_heap \<Rightarrow> (errno \<times> vnode_heap) outcome" where
  "vnode_init vn ops fs fsdata h =
     (case vn of
        None \<Rightarrow> Panic
      | Some a \<Rightarrow> kassert (ops \<noteq> None)
          (Done (EOK, h(a \<mapsto> \<lparr>vn_refcount = 1, vn_fs = fs, vn_data = fsdata, vn_ops = ops\<rparr>))))"

definition vnode_cleanup :: "nat \<Rightarrow> vnode_heap \<Rightarrow> vnode_heap outcome" where
  "vnode_cleanup a h =
     bnd (deref (h a)) (\<lambda>v. kassert (vn_refcount v = 1)
       (Done (h(a \<mapsto> \<lparr>vn_refcount = 0, vn_fs = None, vn_data = None, vn_ops = None\<rparr>))))"

text \<open>The count is an \<open>int\<close>: counting up from the largest one is undefined.\<close>

definition vnode_incref :: "nat option \<Rightarrow> vnode_heap \<Rightarrow> vnode_heap outcome" where
  "vnode_incref vn h =
     (case vn of
        None \<Rightarrow> Panic
      | Some a \<Rightarrow> bnd (deref (h a)) (\<lambda>v.
          if vn_refcount v < 2 ^ 31 - 1 then Done (h(a \<mapsto> v\<lparr>vn_refcount := vn_refcount v + 1\<rparr>)) else Fault))"

definition vnode_decref ::
  "('s \<Rightarrow> vnode_heap) \<Rightarrow> ((vnode_heap \<Rightarrow> vnode_heap) \<Rightarrow> 's \<Rightarrow> 's) \<Rightarrow> (nat \<Rightarrow> 's \<Rightarrow> (errno \<times> 's) outcome)
     \<Rightarrow> nat option \<Rightarrow> 's \<Rightarrow> 's outcome" where
  "vnode_decref vns vns_update reclaim vn s =
     (case vn of
        None \<Rightarrow> Panic
      | Some a \<Rightarrow> bnd (deref (vns s a)) (\<lambda>v.
          kassert (vn_refcount v > 0)
            (if vn_refcount v > 1
             then Done (vns_update (\<lambda>h. h(a \<mapsto> v\<lparr>vn_refcount := vn_refcount v - 1\<rparr>)) s)
             else bnd (reclaim a s) (\<lambda>(result, s). Done s))))"

text \<open>
  The checks before every vnode operation. \<open>vop_magic\<close> reads the magic number of a table of operations.
  The big lock is taken before the checks and given back after them.
\<close>

definition VOP_MAGIC :: u32 where "VOP_MAGIC = 0xa2b3c4d5"

definition vnode_check :: "(nat \<Rightarrow> u32) \<Rightarrow> nat option \<Rightarrow> vnode_heap \<Rightarrow> unit outcome" where
  "vnode_check vop_magic vn h =
     (case vn of
        None \<Rightarrow> Panic
      | Some a \<Rightarrow>
          if a = 0xdeadbeef then Panic
          else bnd (deref (h a)) (\<lambda>v.
            case vn_ops v of
              None \<Rightarrow> Panic
            | Some ops \<Rightarrow>
                if ops = 0xdeadbeef then Panic
                else if vop_magic ops \<noteq> VOP_MAGIC then Panic
                else if vn_fs v = Some 0xdeadbeef then Panic
                else if vn_refcount v < 0 then Panic
                else if vn_refcount v = 0 then Panic
                else Done ()))"

lemma vnode_incref_live:
  "h a = Some v \<Longrightarrow> vn_refcount v < 2 ^ 31 - 1 \<Longrightarrow>
     vnode_incref (Some a) h = Done (h(a \<mapsto> v\<lparr>vn_refcount := vn_refcount v + 1\<rparr>))"
  by (simp add: vnode_incref_def)

lemma vnode_decref_shared:
  "vns s a = Some v \<Longrightarrow> 1 < vn_refcount v \<Longrightarrow>
     vnode_decref vns vns_update reclaim (Some a) s
       = Done (vns_update (\<lambda>h. h(a \<mapsto> v\<lparr>vn_refcount := vn_refcount v - 1\<rparr>)) s)"
  by (simp add: vnode_decref_def)

lemma vnode_decref_last:
  "vns s a = Some v \<Longrightarrow> vn_refcount v = 1 \<Longrightarrow>
     vnode_decref vns vns_update reclaim (Some a) s = bnd (reclaim a s) (\<lambda>(result, s). Done s)"
  by (simp add: vnode_decref_def)

end
