(* ===== verification/Kern_Kpages.thy ===== *)
theory Kern_Kpages
  imports Kern_Prelude
begin

text \<open>
  Physical memory: \<^verbatim>\<open>kern/arch/mips/vm/ram.c\<close> and the page table of \<^verbatim>\<open>kern/arch/mips/vm/vm.c\<close>
  that \<open>alloc_kpages\<close> and \<open>free_kpages\<close> work on.

  Addresses are 32-bit words. The static variables of \<^verbatim>\<open>ram.c\<close> are the record \<open>ram\<close>; the table
  the static variable \<open>pt\<close> points to is the record \<open>pageTable\<close> together with the address it is
  at. The pointer \<open>pt->pages[i]\<close> is set once, to the \<open>struct page\<close> number \<open>i\<close> of the array that
  follows the first page of the table, so an entry is \<open>Some\<close> of that \<open>struct page\<close>, and \<open>None\<close>
  where the pointer was never set.

  The table is larger than the page that is put aside for it: its fields \<open>firstFreeIndex\<close> and
  \<open>total_pages\<close> are 16148 and 16152 bytes after its start, and the array of \<open>struct page\<close> starts
  4096 bytes after it. Setting up a \<open>struct page\<close> that overlaps these two fields is a \<open>Fault\<close>.
\<close>

section \<open>Physical memory accounting\<close>

abbreviation PAGE_SIZE :: nat where "PAGE_SIZE \<equiv> 4096"

definition MIPS_KSEG0 :: u32 where "MIPS_KSEG0 = 0x80000000"

definition PADDR_TO_KVADDR :: "u32 \<Rightarrow> u32" where
  "PADDR_TO_KVADDR paddr = paddr + MIPS_KSEG0"

record ram =
  firstpaddr :: u32
  lastpaddr :: u32

text \<open>\<open>mainbus_ramsize ()\<close> and the value \<open>start.S\<close> stores in \<open>firstfree\<close> are arguments.\<close>

definition ram_bootstrap :: "u32 \<Rightarrow> u32 \<Rightarrow> ram" where
  "ram_bootstrap mainbus_ramsize firstfree =
     (let ramsize = (if mainbus_ramsize > 512 * 1024 * 1024 then 512 * 1024 * 1024 else mainbus_ramsize)
      in \<lparr>firstpaddr = firstfree - MIPS_KSEG0, lastpaddr = ramsize\<rparr>)"

definition ram_stealmem :: "ram \<Rightarrow> u32 \<Rightarrow> u32 \<times> ram" where
  "ram_stealmem r npages =
     (let size = npages * 4096 in
      if firstpaddr r + size > lastpaddr r then (0, r)
      else (firstpaddr r, r\<lparr>firstpaddr := firstpaddr r + size\<rparr>))"

definition ram_getsize :: "ram \<Rightarrow> u32" where
  "ram_getsize r = lastpaddr r"

definition ram_getfirstfree :: "ram \<Rightarrow> u32 \<times> ram" where
  "ram_getfirstfree r = (firstpaddr r, r\<lparr>firstpaddr := 0, lastpaddr := 0\<rparr>)"

section \<open>The page table\<close>

definition NUM_PAGES :: nat where "NUM_PAGES = 4037"

definition FIRST_VALID :: nat where "FIRST_VALID = 2"

record page =
  pg_taken :: int
  pg_master_index :: int
  pg_phys_addr :: u32
  pg_virtual_addr :: u32

record pageTable =
  pt_addr :: u32
  pt_pages :: "page option list"
  pt_firstFreeIndex :: int
  pt_total_pages :: nat

text \<open>Where the two fields after the array of pointers are, from the start of the table.\<close>

definition firstFreeIndex_off :: nat where "firstFreeIndex_off = 4 * NUM_PAGES"

definition total_pages_off :: nat where "total_pages_off = 4 * NUM_PAGES + 4"

definition pt_page :: "pageTable \<Rightarrow> nat \<Rightarrow> page outcome" where
  "pt_page pt i = bnd (arr_get (pt_pages pt) i) deref"

definition pt_set :: "pageTable \<Rightarrow> nat \<Rightarrow> page \<Rightarrow> pageTable outcome" where
  "pt_set pt i p = bnd (arr_set (pt_pages pt) i (Some p)) (\<lambda>ps. Done (pt\<lparr>pt_pages := ps\<rparr>))"

text \<open>
  The loop of \<open>vm_bootstrap\<close>. A \<open>struct page\<close> has 16 bytes, and number \<open>i\<close> of the array is
  \<open>4096 + 16 * i\<close> bytes after the start of the table.
\<close>

function boot_pages :: "u32 \<Rightarrow> nat \<Rightarrow> nat \<Rightarrow> pageTable \<Rightarrow> pageTable outcome" where
  "boot_pages first_page i total_pages pt =
     (if i < total_pages
      then if PAGE_SIZE + 16 * i + 16 \<le> firstFreeIndex_off
           then let phys = first_page + of_nat i * 4096;
                    curr = \<lparr>pg_taken = 0, pg_master_index = int i, pg_phys_addr = phys,
                            pg_virtual_addr = PADDR_TO_KVADDR phys\<rparr>
                in bnd (pt_set pt i curr) (boot_pages first_page (Suc i) total_pages)
           else Fault
      else Done pt)"
  by pat_completeness auto
termination
  by (relation "measure (\<lambda>(f, i, n, pt). n - i)") auto

definition vm_bootstrap :: "ram \<Rightarrow> (ram \<times> pageTable) outcome" where
  "vm_bootstrap r =
     (let last_page = ram_getsize r;
          (first_page, r) = ram_stealmem r 0;
          total_pages = unat (last_page - first_page) div PAGE_SIZE;
          (first_page, r) = ram_stealmem r (of_nat total_pages);
          pt = \<lparr>pt_addr = PADDR_TO_KVADDR first_page, pt_pages = replicate NUM_PAGES None,
                pt_firstFreeIndex = int FIRST_VALID, pt_total_pages = total_pages\<rparr>
      in bnd (boot_pages first_page 1 total_pages pt) (\<lambda>pt. Done (r, pt)))"

text \<open>
  \<open>checkRange\<close>. The bound \<open>start + npages\<close> is a signed sum; where it does not fit the behaviour
  is undefined.
\<close>

function checkRange_from :: "pageTable \<Rightarrow> nat \<Rightarrow> int \<Rightarrow> bool outcome" where
  "checkRange_from pt i bound =
     (if int i < bound
      then bnd (pt_page pt i) (\<lambda>p.
             if pg_taken p \<noteq> 0 then Done False else checkRange_from pt (Suc i) bound)
      else Done True)"
  by pat_completeness auto
termination
  by (relation "measure (\<lambda>(pt, i, b). nat (b - int i))") auto

definition checkRange :: "pageTable \<Rightarrow> nat \<Rightarrow> int \<Rightarrow> bool outcome" where
  "checkRange pt start npages =
     (if int start + npages < 2 ^ 31 then checkRange_from pt start (int start + npages) else Fault)"

text \<open>\<open>find_next_free\<close>: \<open>None\<close> is the result \<open>-1\<close>.\<close>

definition find_next_free :: "pageTable \<Rightarrow> nat \<Rightarrow> nat option outcome" where
  "find_next_free pt start =
     search_from (pt_page pt) (\<lambda>p. Done (pg_taken p = 0)) (start + 1) (pt_total_pages pt)"

function make_unavailable_from :: "int \<Rightarrow> pageTable \<Rightarrow> nat \<Rightarrow> int \<Rightarrow> pageTable outcome" where
  "make_unavailable_from master pt i bound =
     (if int i < bound
      then bnd (pt_page pt i) (\<lambda>p.
           bnd (pt_set pt i (p\<lparr>pg_taken := 1, pg_master_index := master\<rparr>)) (\<lambda>pt.
             make_unavailable_from master pt (Suc i) bound))
      else Done pt)"
  by pat_completeness auto
termination
  by (relation "measure (\<lambda>(m, pt, i, b). nat (b - int i))") auto

definition make_unavailable :: "pageTable \<Rightarrow> nat \<Rightarrow> int \<Rightarrow> pageTable outcome" where
  "make_unavailable pt start npages =
     bnd (pt_page pt start) (\<lambda>p.
       make_unavailable_from (pg_master_index p) pt start (int start + npages))"

text \<open>
  The loop of \<open>alloc_kpages\<close>; a loop that never ended would be \<open>None\<close>. The value that is returned
  as an address when there is no room is the number of \<open>ENOMEM\<close>.
\<close>

partial_function (option) alloc_kpages_from ::
  "pageTable \<Rightarrow> nat \<Rightarrow> int \<Rightarrow> (u32 \<times> pageTable) outcome option" where
  "alloc_kpages_from pt i npages =
     (if i < pt_total_pages pt
      then (case checkRange pt i npages of
              Done pages_available \<Rightarrow>
                if pages_available
                then Some (bnd (pt_page pt i) (\<lambda>p.
                           bnd (make_unavailable pt i npages) (\<lambda>pt. Done (pg_virtual_addr p, pt))))
                else (case find_next_free pt i of
                        Done None \<Rightarrow> Some (Done (of_nat (errno_code ENOMEM), pt))
                      | Done (Some j) \<Rightarrow> alloc_kpages_from pt j npages
                      | Panic \<Rightarrow> Some Panic
                      | Fault \<Rightarrow> Some Fault
                      | Stuck \<Rightarrow> Some Stuck)
            | Panic \<Rightarrow> Some Panic
            | Fault \<Rightarrow> Some Fault
            | Stuck \<Rightarrow> Some Stuck)
      else Some (Done (of_nat (errno_code ENOMEM), pt)))"

definition alloc_kpages :: "pageTable \<Rightarrow> u32 \<Rightarrow> (u32 \<times> pageTable) outcome" where
  "alloc_kpages pt npages =
     (case alloc_kpages_from pt FIRST_VALID (sint npages) of None \<Rightarrow> Stuck | Some r \<Rightarrow> r)"

text \<open>
  \<open>free_kpages\<close>. The second loop ends at the first page it frees.
\<close>

definition free_kpages :: "pageTable \<Rightarrow> u32 \<Rightarrow> pageTable outcome" where
  "free_kpages pt addr =
     bnd (search_from (pt_page pt) (\<lambda>p. Done (pg_virtual_addr p = addr)) FIRST_VALID
            (pt_total_pages pt)) (\<lambda>found.
     let master_index = (case found of None \<Rightarrow> 0 | Some i \<Rightarrow> int i) in
     bnd (search_from (pt_page pt) (\<lambda>p. Done (pg_master_index p = master_index)) FIRST_VALID
            (pt_total_pages pt)) (\<lambda>first.
     case first of
       None \<Rightarrow> Done pt
     | Some i \<Rightarrow> bnd (pt_page pt i) (\<lambda>p.
                   pt_set pt i (p\<lparr>pg_taken := 0, pg_master_index := int i\<rparr>))))"

text \<open>\<open>vm_fault\<close> of \<^verbatim>\<open>vm.c\<close> answers every fault with 0 and maps nothing.\<close>

definition vm_fault :: "int \<Rightarrow> u32 \<Rightarrow> int" where
  "vm_fault faulttype faultaddress = (if faulttype \<noteq> 0 then uint (and faultaddress 0) else 0)"

declare boot_pages.simps [simp del] checkRange_from.simps [simp del]
  make_unavailable_from.simps [simp del]

section \<open>Well-formed tables\<close>

text \<open>
  Entries 1 to \<open>total_pages - 1\<close> are set, to pages at consecutive addresses. A free page is the
  master of itself, and no page has a master above it.
\<close>

definition page_ok :: "u32 \<Rightarrow> nat \<Rightarrow> page \<Rightarrow> bool" where
  "page_ok base i p \<longleftrightarrow>
     pg_virtual_addr p = base + of_nat i * 4096 \<and> pg_phys_addr p = base + of_nat i * 4096 - MIPS_KSEG0
     \<and> pg_master_index p \<le> int i \<and> (pg_taken p = 0 \<longrightarrow> pg_master_index p = int i)"

definition pt_ok :: "pageTable \<Rightarrow> bool" where
  "pt_ok pt \<longleftrightarrow>
     length (pt_pages pt) = NUM_PAGES \<and> pt_total_pages pt \<le> 753
     \<and> (\<forall>i < NUM_PAGES.
          if 1 \<le> i \<and> i < pt_total_pages pt
          then \<exists>p. pt_pages pt ! i = Some p \<and> page_ok (pt_addr pt) i p
          else pt_pages pt ! i = None)"

definition pt_free :: "pageTable \<Rightarrow> nat \<Rightarrow> bool" where
  "pt_free pt i \<longleftrightarrow> FIRST_VALID \<le> i \<and> i < pt_total_pages pt \<and> pg_taken (the (pt_pages pt ! i)) = 0"

text \<open>The pages \<open>s\<close> to \<open>s + n - 1\<close> are all free pages of the table.\<close>

definition pt_fits :: "pageTable \<Rightarrow> nat \<Rightarrow> nat \<Rightarrow> bool" where
  "pt_fits pt n s \<longleftrightarrow> (\<forall>i < n. pt_free pt (s + i))"

text \<open>Marking the pages \<open>s\<close> to \<open>s + n - 1\<close> as taken, with the master \<open>m\<close>.\<close>

definition take_pages :: "nat \<Rightarrow> nat \<Rightarrow> nat \<Rightarrow> pageTable \<Rightarrow> pageTable" where
  "take_pages m s n pt = pt\<lparr>pt_pages :=
     map (\<lambda>i. if s \<le> i \<and> i < s + n
              then map_option (\<lambda>p. p\<lparr>pg_taken := 1, pg_master_index := int m\<rparr>) (pt_pages pt ! i)
              else pt_pages pt ! i) [0..<length (pt_pages pt)]\<rparr>"

lemma pt_page_ok:
  assumes "pt_ok pt"
  shows "pt_page pt i = (if 1 \<le> i \<and> i < pt_total_pages pt then Done (the (pt_pages pt ! i)) else Fault)"
proof (cases "i < NUM_PAGES")
  case True
  then show ?thesis using assms unfolding pt_ok_def pt_page_def by (auto split: if_splits)
next
  case False
  then show ?thesis using assms unfolding pt_ok_def pt_page_def by (auto simp: NUM_PAGES_def)
qed

lemma pt_page_entry:
  assumes "pt_ok pt" and "1 \<le> i" and "i < pt_total_pages pt"
  shows "\<exists>p. pt_pages pt ! i = Some p \<and> page_ok (pt_addr pt) i p" and "i < length (pt_pages pt)"
  using assms unfolding pt_ok_def by (auto simp: NUM_PAGES_def)

lemma pt_set_ok:
  assumes "pt_ok pt" and "1 \<le> i" and "i < pt_total_pages pt" and "page_ok (pt_addr pt) i p"
  shows "pt_set pt i p = Done (pt\<lparr>pt_pages := (pt_pages pt)[i := Some p]\<rparr>)"
    and "pt_ok (pt\<lparr>pt_pages := (pt_pages pt)[i := Some p]\<rparr>)"
proof -
  have len: "i < length (pt_pages pt)" using pt_page_entry(2) [OF assms(1-3)] .
  then show "pt_set pt i p = Done (pt\<lparr>pt_pages := (pt_pages pt)[i := Some p]\<rparr>)"
    by (simp add: pt_set_def)
  have "if 1 \<le> j \<and> j < pt_total_pages pt
        then \<exists>q. (pt_pages pt)[i := Some p] ! j = Some q \<and> page_ok (pt_addr pt) j q
        else (pt_pages pt)[i := Some p] ! j = None" if "j < NUM_PAGES" for j
    using assms that len unfolding pt_ok_def by (cases "j = i") simp_all
  then show "pt_ok (pt\<lparr>pt_pages := (pt_pages pt)[i := Some p]\<rparr>)"
    using assms(1) unfolding pt_ok_def by simp
qed

lemma pt_page_free:
  assumes "pt_ok pt" and "FIRST_VALID \<le> i" and "i < pt_total_pages pt"
  obtains p where "pt_page pt i = Done p" and "pt_pages pt ! i = Some p"
    and "page_ok (pt_addr pt) i p" and "pt_free pt i \<longleftrightarrow> pg_taken p = 0"
proof -
  have "1 \<le> i" using assms(2) by (simp add: FIRST_VALID_def)
  then obtain p where "pt_pages pt ! i = Some p" "page_ok (pt_addr pt) i p"
    using pt_page_entry(1) [OF assms(1) _ assms(3)] by blast
  then show ?thesis
    using that [of p] assms \<open>1 \<le> i\<close> by (simp add: pt_page_ok pt_free_def)
qed

section \<open>Allocation\<close>

lemma checkRange_from_step:
  "checkRange_from pt s (int s + int (Suc n)) =
     bnd (pt_page pt s) (\<lambda>p.
       if pg_taken p \<noteq> 0 then Done False else checkRange_from pt (Suc s) (int (Suc s) + int n))"
proof -
  have "int s + int (Suc n) = int (Suc s) + int n" by simp
  moreover have "int s < int (Suc s) + int n" by simp
  ultimately show ?thesis by (subst checkRange_from.simps) (simp only: if_True)
qed

lemma checkRange_from_ok:
  assumes "pt_ok pt" and "FIRST_VALID \<le> s"
  shows "checkRange_from pt s (int s + int n)
    = (if pt_fits pt n s then Done True
       else if \<exists>j < n. s + j < pt_total_pages pt \<and> \<not> pt_free pt (s + j) then Done False else Fault)"
  using assms(2)
proof (induction n arbitrary: s)
  case 0
  then show ?case by (simp add: checkRange_from.simps pt_fits_def)
next
  case (Suc n)
  have fits: "pt_fits pt (Suc n) s \<longleftrightarrow> pt_free pt s \<and> pt_fits pt n (Suc s)"
    unfolding pt_fits_def All_less_Suc2 by simp
  have taken: "(\<exists>j < Suc n. s + j < pt_total_pages pt \<and> \<not> pt_free pt (s + j)) \<longleftrightarrow>
      (s < pt_total_pages pt \<and> \<not> pt_free pt s)
      \<or> (\<exists>j < n. Suc s + j < pt_total_pages pt \<and> \<not> pt_free pt (Suc s + j))"
    unfolding Ex_less_Suc2 by simp
  show ?case
  proof (cases "s < pt_total_pages pt")
    case True
    then obtain p where "pt_page pt s = Done p" "pt_free pt s \<longleftrightarrow> pg_taken p = 0"
      using pt_page_free [OF assms(1) Suc.prems] by metis
    moreover have "FIRST_VALID \<le> Suc s" using Suc.prems by simp
    ultimately show ?thesis
      using Suc.IH [of "Suc s"] True unfolding fits taken checkRange_from_step
      by (cases "pg_taken p = 0") simp_all
  next
    case False
    then have "pt_page pt s = Fault" "\<not> pt_free pt s"
      using assms(1) by (simp_all add: pt_page_ok pt_free_def)
    then show ?thesis using False unfolding fits taken checkRange_from_step by simp
  qed
qed

lemma find_next_free_ok:
  assumes "pt_ok pt" and "FIRST_VALID \<le> s"
  shows "find_next_free pt s = Done r \<Longrightarrow> r = None \<Longrightarrow> s < j \<Longrightarrow> \<not> pt_free pt j"
    and "find_next_free pt s = Done r \<Longrightarrow> r = Some k \<Longrightarrow>
           s < k \<and> pt_free pt k \<and> (\<forall>j. s < j \<longrightarrow> j < k \<longrightarrow> \<not> pt_free pt j)"
    and "\<exists>r. find_next_free pt s = Done r"
proof -
  define xs where "xs = map (\<lambda>i. the (pt_pages pt ! i)) [s + 1..<pt_total_pages pt]"
  define f where "f = find_index (\<lambda>p. pg_taken p = 0) xs"
  have free: "pt_free pt (s + 1 + j) \<longleftrightarrow> pg_taken (xs ! j) = 0" if "j < length xs" for j
    using that assms(2) by (auto simp: xs_def pt_free_def)
  have eq: "find_next_free pt s = Done (map_option (\<lambda>j. s + 1 + j) f)"
  proof (cases "s + 1 \<le> pt_total_pages pt")
    case True
    have "search_from (pt_page pt) (\<lambda>p. Done (pg_taken p = 0)) (s + 1) (s + 1 + length xs)
        = Done (map_option (\<lambda>j. s + 1 + j) f)"
      unfolding f_def
      by (rule search_from_find_index) (simp_all add: pt_page_ok [OF assms(1)] xs_def)
    moreover have "s + 1 + length xs = pt_total_pages pt" using True by (simp add: xs_def)
    ultimately show ?thesis by (simp add: find_next_free_def)
  next
    case False
    then show ?thesis by (simp add: find_next_free_def search_from.simps f_def xs_def)
  qed
  then show "\<exists>r. find_next_free pt s = Done r" by simp
  show "\<not> pt_free pt j" if "find_next_free pt s = Done r" "r = None" "s < j"
  proof
    assume "pt_free pt j"
    moreover from this that(3) have "j - (s + 1) < length xs" "s + 1 + (j - (s + 1)) = j"
      by (auto simp: pt_free_def xs_def)
    ultimately have "pg_taken (xs ! (j - (s + 1))) = 0" using free [of "j - (s + 1)"] by simp
    moreover have "f = None" using that(1,2) eq by simp
    ultimately show False
      using \<open>j - (s + 1) < length xs\<close> by (auto simp: f_def find_index_None)
  qed
  show "s < k \<and> pt_free pt k \<and> (\<forall>j. s < j \<longrightarrow> j < k \<longrightarrow> \<not> pt_free pt j)"
    if r: "find_next_free pt s = Done r" "r = Some k"
  proof -
    obtain m where m: "f = Some m" "k = s + 1 + m" using r eq by auto
    then have *: "m < length xs" "pg_taken (xs ! m) = 0" "\<forall>j < m. pg_taken (xs ! j) \<noteq> 0"
      by (simp_all add: f_def find_index_Some)
    have "\<not> pt_free pt j" if "s < j" "j < k" for j
      using free [of "j - (s + 1)"] *(1,3) m(2) that by simp
    then show ?thesis using free [of m] *(1,2) m(2) by simp
  qed
qed

lemma take_pages_0: "take_pages m s 0 pt = pt"
proof -
  have "map (\<lambda>i. if s \<le> i \<and> i < s + 0 then f i else pt_pages pt ! i) [0..<length (pt_pages pt)]
      = pt_pages pt" for f
    by (rule nth_equalityI) auto
  then show ?thesis unfolding take_pages_def by simp
qed

lemma take_pages_Suc:
  assumes "s < length (pt_pages pt)" and "pt_pages pt ! s = Some p"
  shows "take_pages m (Suc s) n
           (pt\<lparr>pt_pages := (pt_pages pt)[s := Some (p\<lparr>pg_taken := 1, pg_master_index := int m\<rparr>)]\<rparr>)
         = take_pages m s (Suc n) pt"
  using assms by (auto simp: take_pages_def nth_list_update)

lemma make_unavailable_from_ok:
  assumes "pt_ok pt" and "pt_fits pt n s" and "m \<le> s"
  shows "make_unavailable_from (int m) pt s (int s + int n) = Done (take_pages m s n pt)
    \<and> pt_ok (take_pages m s n pt)"
  using assms
proof (induction n arbitrary: s pt)
  case 0
  then show ?case by (simp add: make_unavailable_from.simps take_pages_0)
next
  case (Suc n)
  have s: "pt_free pt s" using Suc.prems(2) by (auto simp: pt_fits_def)
  then have lt: "FIRST_VALID \<le> s" "s < pt_total_pages pt" by (simp_all add: pt_free_def)
  then have "1 \<le> s" by (simp add: FIRST_VALID_def)
  obtain p where p: "pt_page pt s = Done p" "pt_pages pt ! s = Some p" "page_ok (pt_addr pt) s p"
    using pt_page_free [OF Suc.prems(1) lt] by metis
  define q where "q = p\<lparr>pg_taken := 1, pg_master_index := int m\<rparr>"
  define pt' where "pt' = pt\<lparr>pt_pages := (pt_pages pt)[s := Some q]\<rparr>"
  have "page_ok (pt_addr pt) s q" using p(3) Suc.prems(3) by (simp add: page_ok_def q_def)
  note set = pt_set_ok [OF Suc.prems(1) \<open>1 \<le> s\<close> lt(2) this, folded pt'_def]
  have "pt_free pt (Suc s + i)" if "i < n" for i
    using Suc.prems(2) that unfolding pt_fits_def by (metis Suc_less_eq add_Suc_shift)
  then have "pt_fits pt' n (Suc s)" by (simp add: pt_fits_def pt'_def pt_free_def)
  then have "make_unavailable_from (int m) pt' (Suc s) (int (Suc s) + int n)
      = Done (take_pages m (Suc s) n pt') \<and> pt_ok (take_pages m (Suc s) n pt')"
    using Suc.prems(3) by (intro Suc.IH set(2)) simp_all
  moreover have "take_pages m (Suc s) n pt' = take_pages m s (Suc n) pt"
    unfolding pt'_def q_def
    using take_pages_Suc [OF pt_page_entry(2) [OF Suc.prems(1) \<open>1 \<le> s\<close> lt(2)] p(2)] .
  moreover have "int s + int (Suc n) = int (Suc s) + int n" by simp
  moreover have "int s < int s + int (Suc n)" by simp
  ultimately show ?case
    using p(1) set(1) by (subst make_unavailable_from.simps) (simp only: q_def bnd.simps if_True)
qed

text \<open>What a call for \<open>n\<close> pages comes to, as a function of the free pages.\<close>

definition alloc_spec :: "pageTable \<Rightarrow> nat \<Rightarrow> (u32 \<times> pageTable) outcome \<Rightarrow> bool" where
  "alloc_spec pt n r \<longleftrightarrow>
     (\<exists>s. pt_fits pt n s \<and> (\<forall>s' < s. \<not> pt_fits pt n s')
        \<and> r = Done (pt_addr pt + of_nat s * 4096, take_pages s s n pt) \<and> pt_ok (take_pages s s n pt))
     \<or> (\<forall>s. \<not> pt_fits pt n s)
        \<and> r = (if pt_free pt (pt_total_pages pt - 1) then Fault else Done (3, pt))"

lemma alloc_here:
  assumes "pt_ok pt" and "0 < n" and "pt_fits pt n i"
  shows "bnd (pt_page pt i) (\<lambda>p. bnd (make_unavailable pt i (int n)) (\<lambda>pt. Done (pg_virtual_addr p, pt)))
      = Done (pt_addr pt + of_nat i * 4096, take_pages i i n pt)"
    and "pt_ok (take_pages i i n pt)"
proof -
  have i: "pt_free pt i" using assms(2,3) by (auto simp: pt_fits_def)
  then have lt: "FIRST_VALID \<le> i" "i < pt_total_pages pt" by (simp_all add: pt_free_def)
  obtain p where p: "pt_page pt i = Done p" "page_ok (pt_addr pt) i p" "pg_taken p = 0"
    using pt_page_free [OF assms(1) lt] i by metis
  then have "pg_master_index p = int i" "pg_virtual_addr p = pt_addr pt + of_nat i * 4096"
    by (simp_all add: page_ok_def)
  then show "bnd (pt_page pt i) (\<lambda>p. bnd (make_unavailable pt i (int n)) (\<lambda>pt. Done (pg_virtual_addr p, pt)))
      = Done (pt_addr pt + of_nat i * 4096, take_pages i i n pt)"
    and "pt_ok (take_pages i i n pt)"
    using make_unavailable_from_ok [OF assms(1,3) order_refl] p(1)
    by (simp_all add: make_unavailable_def)
qed

lemma pt_fits_free: "pt_fits pt n s \<Longrightarrow> 0 < n \<Longrightarrow> pt_free pt s"
  by (auto simp: pt_fits_def)

text \<open>The run of free pages at the end of the table that is too short for the request.\<close>

lemma short_tail:
  assumes "0 < n" and "i < pt_total_pages pt" and "\<And>s. s < i \<Longrightarrow> \<not> pt_fits pt n s"
    and "\<not> pt_fits pt n i" and "\<not> (\<exists>j < n. i + j < pt_total_pages pt \<and> \<not> pt_free pt (i + j))"
  shows "pt_free pt (pt_total_pages pt - 1)" and "\<not> pt_fits pt n s"
proof -
  have free: "pt_free pt j" if "i \<le> j" "j < pt_total_pages pt" "j < i + n" for j
    using assms(5) that by (auto dest: spec [of _ "j - i"])
  have long: "pt_total_pages pt < i + n"
  proof (rule ccontr)
    assume "\<not> pt_total_pages pt < i + n"
    then have "pt_fits pt n i" using free by (simp add: pt_fits_def)
    then show False using assms(4) by simp
  qed
  then show "pt_free pt (pt_total_pages pt - 1)"
    using free [of "pt_total_pages pt - 1"] assms(2) by simp
  show "\<not> pt_fits pt n s"
  proof (cases "s < i")
    case False
    then have "pt_total_pages pt \<le> s + (n - 1)" using long assms(1) by linarith
    then have "\<not> pt_free pt (s + (n - 1))" by (simp add: pt_free_def)
    then show ?thesis using assms(1) unfolding pt_fits_def by (metis diff_less zero_less_one)
  qed (rule assms(3))
qed

lemma alloc_kpages_from_ok:
  assumes "pt_ok pt" and "0 < n" and "int n < 2 ^ 31 - 753"
    and "FIRST_VALID \<le> i" and "i < pt_total_pages pt" and "\<And>s. s < i \<Longrightarrow> \<not> pt_fits pt n s"
  shows "\<exists>r. alloc_kpages_from pt i (int n) = Some r \<and> alloc_spec pt n r"
  using assms(4-6)
proof (induction "pt_total_pages pt - i" arbitrary: i rule: less_induct)
  case less
  let ?taken = "\<exists>j < n. i + j < pt_total_pages pt \<and> \<not> pt_free pt (i + j)"
  have "pt_total_pages pt \<le> 753" using assms(1) by (simp add: pt_ok_def)
  then have "int i + int n < 2 ^ 31" using assms(3) less.prems(2) by simp
  then have chk: "checkRange pt i (int n)
      = (if pt_fits pt n i then Done True else if ?taken then Done False else Fault)"
    using checkRange_from_ok [OF assms(1) less.prems(1), of n] by (simp add: checkRange_def)
  consider "pt_fits pt n i" | "\<not> pt_fits pt n i" "?taken" | "\<not> pt_fits pt n i" "\<not> ?taken" by blast
  then show ?case
  proof cases
    case 1
    then show ?thesis
      using alloc_here [OF assms(1,2) 1] less.prems chk
      by (subst alloc_kpages_from.simps) (auto simp: alloc_spec_def)
  next
    case 2
    obtain r where r: "find_next_free pt i = Done r"
      using find_next_free_ok(3) [OF assms(1) less.prems(1)] by blast
    show ?thesis
    proof (cases r)
      case None
      note later = find_next_free_ok(1) [OF assms(1) less.prems(1) r None]
      have "\<not> pt_fits pt n s" for s
        using less.prems(3) [of s] 2(1) later [of s] assms(2)
        by (cases "s < i"; cases "s = i") (auto simp: pt_fits_def)
      moreover have "\<not> pt_free pt (pt_total_pages pt - 1)"
      proof (cases "i = pt_total_pages pt - 1")
        case True
        obtain j where j: "i + j < pt_total_pages pt" "\<not> pt_free pt (i + j)" using 2(2) by blast
        then have "j = 0" using True by simp
        then show ?thesis using j(2) True by simp
      next
        case False
        then show ?thesis using later [of "pt_total_pages pt - 1"] less.prems(2) by simp
      qed
      ultimately show ?thesis
        using less.prems(2) chk 2 r None
        by (subst alloc_kpages_from.simps) (simp add: alloc_spec_def)
    next
      case (Some k)
      note k = find_next_free_ok(2) [OF assms(1) less.prems(1) r Some]
      then have "k < pt_total_pages pt" by (simp add: pt_free_def)
      moreover have "\<not> pt_fits pt n s" if "s < k" for s
        using less.prems(3) [of s] 2(1) k that assms(2)
        by (cases "s < i"; cases "s = i") (auto simp: pt_fits_def)
      ultimately have "\<exists>r. alloc_kpages_from pt k (int n) = Some r \<and> alloc_spec pt n r"
        using less.prems(1,2) k by (intro less.hyps) auto
      then show ?thesis
        using less.prems(2) chk 2 r Some by (subst alloc_kpages_from.simps) simp
    qed
  next
    case 3
    have "checkRange pt i (int n) = Fault" by (simp only: chk 3 if_False)
    then show ?thesis
      using less.prems(2) short_tail [OF assms(2) less.prems(2,3) 3]
      by (subst alloc_kpages_from.simps) (simp add: alloc_spec_def)
  qed
qed

lemma alloc_kpages_spec:
  assumes "pt_ok pt" and "0 < n" and "n < 2 ^ 31 - 753"
  shows "alloc_spec pt n (alloc_kpages pt (of_nat n))"
proof -
  have n: "sint (of_nat n :: u32) = int n"
    using assms(3) by (simp add: signed_of_nat signed_take_bit_int_eq_self)
  show ?thesis
  proof (cases "FIRST_VALID < pt_total_pages pt")
    case True
    have "\<not> pt_fits pt n s" if "s < FIRST_VALID" for s
      using pt_fits_free [of pt n s] assms(2) that by (auto simp: pt_free_def)
    then show ?thesis
      using alloc_kpages_from_ok [OF assms(1,2), of FIRST_VALID] assms(3) True n
      by (auto simp: alloc_kpages_def)
  next
    case False
    then have "\<not> pt_free pt s" for s by (simp add: pt_free_def)
    then have "\<not> pt_fits pt n s" for s using pt_fits_free [of pt n s] assms(2) by blast
    then show ?thesis
      using False n \<open>\<And>s. \<not> pt_free pt s\<close>
      by (simp add: alloc_spec_def alloc_kpages_def alloc_kpages_from.simps)
  qed
qed

section \<open>Release\<close>

lemma search_from_bounds:
  "search_from get P i n = Done (Some k) \<Longrightarrow> i \<le> k \<and> k < n"
proof (induction get P i n rule: search_from.induct)
  case (1 get P i n)
  then show ?case
    by (subst (asm) (2) search_from.simps) (fastforce simp: bnd_Done_iff split: if_splits)
qed

lemma search_from_hit:
  assumes "i \<le> k" and "k < n" and "get k = Done y" and "P y = Done True"
    and "\<And>j. i \<le> j \<Longrightarrow> j < k \<Longrightarrow> \<exists>x. get j = Done x \<and> P x = Done False"
  shows "search_from get P i n = Done (Some k)"
  using assms(1,5)
proof (induction "k - i" arbitrary: i)
  case 0
  then show ?case using assms(2-4) by (simp add: search_from.simps)
next
  case (Suc m)
  then have "i < k" by simp
  then obtain x where "get i = Done x" "P x = Done False" using Suc.prems(2) [of i] by auto
  moreover have "search_from get P (Suc i) n = Done (Some k)"
    using Suc.prems(2) \<open>i < k\<close> Suc.hyps(2) by (intro Suc.hyps(1)) simp_all
  ultimately show ?case using \<open>i < k\<close> assms(2) by (simp add: search_from.simps [of get P i])
qed

lemma page_addr_inj:
  assumes "i < 753" and "j < 753" and "base + of_nat i * 4096 = base + of_nat j * (4096 :: u32)"
  shows "i = j"
proof -
  have "(of_nat (i * 4096) :: u32) = of_nat (j * 4096)" using assms(3) by simp
  then have "unat (of_nat (i * 4096) :: u32) = unat (of_nat (j * 4096) :: u32)" by (rule arg_cong)
  then show ?thesis using assms(1,2) by (simp add: unsigned_of_nat take_bit_nat_eq_self del: of_nat_mult)
qed

lemma free_kpages_ok:
  assumes "pt_ok pt" and "FIRST_VALID \<le> s" and "s < pt_total_pages pt"
    and "pt_pages pt ! s = Some p" and "pg_master_index p = int s"
  shows "free_kpages pt (pt_addr pt + of_nat s * 4096)
    = Done (pt\<lparr>pt_pages := (pt_pages pt)[s := Some (p\<lparr>pg_taken := 0\<rparr>)]\<rparr>)"
    and "pt_ok (pt\<lparr>pt_pages := (pt_pages pt)[s := Some (p\<lparr>pg_taken := 0\<rparr>)]\<rparr>)"
proof -
  have s: "pt_page pt s = Done p" "page_ok (pt_addr pt) s p"
    using pt_page_free [OF assms(1-3)] assms(4) by auto
  have below: "\<exists>q. pt_page pt j = Done q \<and> page_ok (pt_addr pt) j q" if "FIRST_VALID \<le> j" "j < s" for j
    using pt_page_free [OF assms(1), of j] that assms(3) by (metis order_less_trans)
  have "pt_total_pages pt \<le> 753" using assms(1) by (simp add: pt_ok_def)
  have "search_from (pt_page pt) (\<lambda>q. Done (pg_virtual_addr q = pt_addr pt + of_nat s * 4096))
      FIRST_VALID (pt_total_pages pt) = Done (Some s)"
  proof (rule search_from_hit [where k = s and y = p])
    fix j assume j: "FIRST_VALID \<le> j" "j < s"
    then obtain q where q: "pt_page pt j = Done q" "page_ok (pt_addr pt) j q" using below by blast
    have "j < 753" "s < 753" using j assms(3) \<open>pt_total_pages pt \<le> 753\<close> by simp_all
    then have "pg_virtual_addr q \<noteq> pt_addr pt + of_nat s * 4096"
      using page_addr_inj [of j s "pt_addr pt"] q(2) j(2) by (auto simp: page_ok_def)
    then show "\<exists>q. pt_page pt j = Done q \<and> Done (pg_virtual_addr q = pt_addr pt + of_nat s * 4096) = Done False"
      using q(1) by simp
  qed (use s assms(2,3) in \<open>simp_all add: page_ok_def\<close>)
  moreover have "search_from (pt_page pt) (\<lambda>q. Done (pg_master_index q = int s))
      FIRST_VALID (pt_total_pages pt) = Done (Some s)"
  proof (rule search_from_hit [where k = s and y = p])
    fix j assume j: "FIRST_VALID \<le> j" "j < s"
    then obtain q where q: "pt_page pt j = Done q" "page_ok (pt_addr pt) j q" using below by blast
    then show "\<exists>q. pt_page pt j = Done q \<and> Done (pg_master_index q = int s) = Done False"
      using j(2) by (auto simp: page_ok_def)
  qed (use s(1) assms(2,3,5) in simp_all)
  moreover have "1 \<le> s" using assms(2) by (simp add: FIRST_VALID_def)
  moreover have "page_ok (pt_addr pt) s (p\<lparr>pg_taken := 0\<rparr>)"
    using s(2) assms(5) by (simp add: page_ok_def)
  note set = pt_set_ok [OF assms(1) \<open>1 \<le> s\<close> assms(3) this]
  have eq: "p\<lparr>pg_taken := 0, pg_master_index := int s\<rparr> = p\<lparr>pg_taken := 0\<rparr>"
    using assms(5) by (cases p) simp
  have "pt_set pt s (p\<lparr>pg_taken := 0, pg_master_index := int s\<rparr>)
      = Done (pt\<lparr>pt_pages := (pt_pages pt)[s := Some (p\<lparr>pg_taken := 0\<rparr>)]\<rparr>)"
    unfolding eq by (rule set(1))
  ultimately show "free_kpages pt (pt_addr pt + of_nat s * 4096)
      = Done (pt\<lparr>pt_pages := (pt_pages pt)[s := Some (p\<lparr>pg_taken := 0\<rparr>)]\<rparr>)"
    using s(1) by (simp add: free_kpages_def)
  show "pt_ok (pt\<lparr>pt_pages := (pt_pages pt)[s := Some (p\<lparr>pg_taken := 0\<rparr>)]\<rparr>)" by (rule set(2))
qed

lemma free_taken_block:
  assumes "pt_ok pt" and "0 < n" and "pt_fits pt n s"
  shows "free_kpages (take_pages s s n pt) (pt_addr pt + of_nat s * 4096)
    = Done (take_pages s (Suc s) (n - 1) pt)"
proof -
  have s: "pt_free pt s" using pt_fits_free [OF assms(3,2)] .
  then have lt: "FIRST_VALID \<le> s" "s < pt_total_pages pt" by (simp_all add: pt_free_def)
  obtain p where p: "pt_pages pt ! s = Some p" "page_ok (pt_addr pt) s p" "pg_taken p = 0"
    using pt_page_free [OF assms(1) lt] s by metis
  have len: "s < length (pt_pages pt)"
    using pt_page_entry(2) [OF assms(1)] lt by (simp add: FIRST_VALID_def)
  let ?pt = "take_pages s s n pt" and ?q = "p\<lparr>pg_taken := 1, pg_master_index := int s\<rparr>"
  have q: "pt_pages ?pt ! s = Some ?q" "pt_addr ?pt = pt_addr pt" "pt_total_pages ?pt = pt_total_pages pt"
    using assms(2) p(1) len by (simp_all add: take_pages_def)
  then have "free_kpages ?pt (pt_addr pt + of_nat s * 4096)
      = Done (?pt\<lparr>pt_pages := (pt_pages ?pt)[s := Some (?q\<lparr>pg_taken := 0\<rparr>)]\<rparr>)"
    using free_kpages_ok(1) [OF alloc_here(2) [OF assms], of s ?q] lt by simp
  also have "?q\<lparr>pg_taken := 0\<rparr> = p" using p(2,3) by (simp add: page_ok_def)
  also have "(pt_pages ?pt)[s := Some p] = pt_pages (take_pages s (Suc s) (n - 1) pt)"
    using assms(2) p(1) len by (intro nth_equalityI) (auto simp: take_pages_def nth_list_update)
  then have "?pt\<lparr>pt_pages := (pt_pages ?pt)[s := Some p]\<rparr> = take_pages s (Suc s) (n - 1) pt"
    by (simp add: take_pages_def)
  finally show ?thesis .
qed

lemma pt_free_take_pages:
  assumes "pt_ok pt"
  shows "pt_free (take_pages m s n pt) j \<longleftrightarrow> pt_free pt j \<and> \<not> (s \<le> j \<and> j < s + n)"
proof (cases "FIRST_VALID \<le> j \<and> j < pt_total_pages pt")
  case True
  then obtain p where "pt_pages pt ! j = Some p" "j < length (pt_pages pt)"
    using pt_page_entry [OF assms, of j] by (auto simp: FIRST_VALID_def)
  then show ?thesis using True by (simp add: take_pages_def pt_free_def)
next
  case False
  then show ?thesis by (auto simp: take_pages_def pt_free_def)
qed

section \<open>Boot\<close>

definition fresh_page :: "u32 \<Rightarrow> nat \<Rightarrow> page" where
  "fresh_page first_page i =
     \<lparr>pg_taken = 0, pg_master_index = int i, pg_phys_addr = first_page + of_nat i * 4096,
      pg_virtual_addr = PADDR_TO_KVADDR (first_page + of_nat i * 4096)\<rparr>"

text \<open>The table after entries 1 to \<open>k - 1\<close> are set.\<close>

definition boot_table :: "u32 \<Rightarrow> nat \<Rightarrow> nat \<Rightarrow> pageTable" where
  "boot_table first_page k n =
     \<lparr>pt_addr = PADDR_TO_KVADDR first_page,
      pt_pages = map (\<lambda>i. if 1 \<le> i \<and> i < k then Some (fresh_page first_page i) else None) [0..<NUM_PAGES],
      pt_firstFreeIndex = int FIRST_VALID, pt_total_pages = n\<rparr>"

lemma boot_pages_ok:
  assumes "n \<le> 753" and "1 \<le> k" and "k \<le> n"
  shows "boot_pages first_page k n (boot_table first_page k n) = Done (boot_table first_page n n)"
  using assms(2,3)
proof (induction "n - k" arbitrary: k)
  case 0
  then show ?case by (simp add: boot_pages.simps)
next
  case (Suc m)
  then have "k < n" by simp
  have len: "k < NUM_PAGES" "PAGE_SIZE + 16 * k + 16 \<le> firstFreeIndex_off"
    using \<open>k < n\<close> assms(1) by (simp_all add: NUM_PAGES_def firstFreeIndex_off_def)
  have "(pt_pages (boot_table first_page k n))[k := Some (fresh_page first_page k)]
      = pt_pages (boot_table first_page (Suc k) n)"
    using Suc.prems(1) len(1) by (intro nth_equalityI) (auto simp: boot_table_def nth_list_update)
  then have "pt_set (boot_table first_page k n) k (fresh_page first_page k)
      = Done (boot_table first_page (Suc k) n)"
    using len(1) by (simp add: pt_set_def boot_table_def)
  moreover have "boot_pages first_page (Suc k) n (boot_table first_page (Suc k) n)
      = Done (boot_table first_page n n)"
    using Suc.hyps(2) \<open>k < n\<close> by (intro Suc.hyps(1)) simp_all
  ultimately show ?case
    using \<open>k < n\<close> len(2) by (subst boot_pages.simps) (simp add: fresh_page_def)
qed

lemma boot_table_ok: "n \<le> 753 \<Longrightarrow> pt_ok (boot_table first_page n n)"
  by (simp add: pt_ok_def boot_table_def page_ok_def fresh_page_def PADDR_TO_KVADDR_def NUM_PAGES_def)

lemma boot_table_free: "n \<le> 753 \<Longrightarrow> pt_free (boot_table first_page n n) i \<longleftrightarrow> 2 \<le> i \<and> i < n"
  by (auto simp: pt_free_def boot_table_def fresh_page_def FIRST_VALID_def NUM_PAGES_def)

lemma boot_table_fits:
  "n \<le> 753 \<Longrightarrow> 0 < k \<Longrightarrow> pt_fits (boot_table first_page n n) k s \<longleftrightarrow> 2 \<le> s \<and> s + k \<le> n"
proof -
  assume n: "n \<le> 753" and k: "0 < k"
  have "pt_fits (boot_table first_page n n) k s \<longleftrightarrow> (\<forall>i < k. 2 \<le> s + i \<and> s + i < n)"
    using n by (simp add: pt_fits_def boot_table_free)
  also have "\<dots> \<longleftrightarrow> 2 \<le> s \<and> s + k \<le> n"
    using k by (auto dest: spec [of _ 0] spec [of _ "k - 1"])
  finally show ?thesis .
qed

lemma boot_table_least:
  assumes "n \<le> 753" and "0 < k" and "pt_fits (boot_table first_page n n) k s"
    and "\<forall>s' < s. \<not> pt_fits (boot_table first_page n n) k s'"
  shows "s = 2"
proof (rule ccontr)
  assume "s \<noteq> 2"
  then have "2 < s" "2 + k \<le> n" using assms(1-3) by (simp_all add: boot_table_fits)
  then show False using assms(1,2,4) by (auto simp: boot_table_fits)
qed

text \<open>The number of pages between the first free address and the end of memory.\<close>

definition ram_pages :: "ram \<Rightarrow> nat" where
  "ram_pages r = unat (lastpaddr r - firstpaddr r) div PAGE_SIZE"

lemma steal_all:
  assumes "firstpaddr r \<le> lastpaddr r"
  shows "unat (firstpaddr r + of_nat (ram_pages r) * 4096) = unat (firstpaddr r) + ram_pages r * 4096"
    and "unat (firstpaddr r) + ram_pages r * 4096 \<le> unat (lastpaddr r)"
    and "unat (lastpaddr r) < unat (firstpaddr r) + ram_pages r * 4096 + 4096"
proof -
  define d where "d = unat (lastpaddr r - firstpaddr r)"
  have d: "unat (lastpaddr r) = unat (firstpaddr r) + d"
    using assms unfolding d_def by (simp add: unat_sub word_le_nat_alt)
  have pages: "ram_pages r * 4096 \<le> d" "d < ram_pages r * 4096 + 4096"
    by (simp_all add: ram_pages_def d_def)
  then show "unat (firstpaddr r) + ram_pages r * 4096 \<le> unat (lastpaddr r)"
    and "unat (lastpaddr r) < unat (firstpaddr r) + ram_pages r * 4096 + 4096"
    using d by simp_all
  have "d < 2 ^ 32" "unat (lastpaddr r) < 2 ^ 32"
    unfolding d_def using unsigned_less [of "lastpaddr r - firstpaddr r"] unsigned_less [of "lastpaddr r"] by simp_all
  then have "unat (of_nat (ram_pages r * 4096) :: u32) = ram_pages r * 4096"
    "unat (firstpaddr r) + ram_pages r * 4096 < 2 ^ 32" using d pages(1)
    by (simp_all add: unsigned_of_nat take_bit_nat_eq_self del: of_nat_mult)
  then show "unat (firstpaddr r + of_nat (ram_pages r) * 4096) = unat (firstpaddr r) + ram_pages r * 4096"
    using unat_word_ariths(1) [of "firstpaddr r" "of_nat (ram_pages r * 4096)"] by simp
qed

lemma steal_rest:
  assumes "firstpaddr r \<le> lastpaddr r" and "lastpaddr r \<le> 0x20000000"
  shows "fst (ram_stealmem (r\<lparr>firstpaddr := firstpaddr r + of_nat (ram_pages r) * 4096\<rparr>) 1) = 0"
proof -
  let ?f = "firstpaddr r + of_nat (ram_pages r) * 4096"
  have "unat ?f \<le> 0x20000000" "unat (lastpaddr r) < unat ?f + 4096"
    using steal_all [OF assms(1)] assms(2) by (simp_all add: word_le_nat_alt)
  then have "lastpaddr r < ?f + 4096" by (simp add: word_less_nat_alt unat_word_ariths)
  then show ?thesis by (simp add: ram_stealmem_def)
qed

lemma vm_bootstrap_table:
  assumes "firstpaddr r \<le> lastpaddr r" and "1 \<le> ram_pages r" and "ram_pages r \<le> 753"
  shows "vm_bootstrap r =
    Done (r\<lparr>firstpaddr := firstpaddr r + of_nat (ram_pages r) * 4096\<rparr>,
          boot_table (firstpaddr r) (ram_pages r) (ram_pages r))"
proof -
  have "replicate NUM_PAGES None = pt_pages (boot_table (firstpaddr r) 1 (ram_pages r))"
    by (intro nth_equalityI) (simp_all add: boot_table_def)
  then have "boot_pages (firstpaddr r) 1 (ram_pages r)
      \<lparr>pt_addr = PADDR_TO_KVADDR (firstpaddr r), pt_pages = replicate NUM_PAGES None,
       pt_firstFreeIndex = int FIRST_VALID, pt_total_pages = ram_pages r\<rparr>
    = Done (boot_table (firstpaddr r) (ram_pages r) (ram_pages r))"
    using boot_pages_ok [OF assms(3), of 1 "firstpaddr r"] assms(2) by (simp add: boot_table_def)
  then show ?thesis
    using assms(1) steal_all(1,2) [OF assms(1)]
    by (simp add: vm_bootstrap_def ram_stealmem_def ram_getsize_def Let_def
        word_less_nat_alt ram_pages_def [symmetric] word_le_nat_alt)
qed

section \<open>Properties\<close>

text \<open>
  C15: \<open>alloc_kpages\<close> is first fit. On a well-formed table a request for \<open>n\<close> pages takes the lowest
  run of \<open>n\<close> free pages, marks exactly these pages, hands back the address of the first one and
  keeps the table well formed. When there is no such run, the last page decides: if it is taken,
  the call hands back 3, the number of \<open>ENOMEM\<close>, as if it were an address, and changes nothing;
  if it is free, \<open>checkRange\<close> runs off the end of the table through a pointer that was never set.
\<close>

theorem alloc_kpages_first_fit:
  assumes "pt_ok pt" and "0 < n" and "n < 2 ^ 31 - 753"
  shows "(\<exists>s. pt_fits pt n s \<and> (\<forall>s' < s. \<not> pt_fits pt n s')
            \<and> alloc_kpages pt (of_nat n) = Done (pt_addr pt + of_nat s * 4096, take_pages s s n pt)
            \<and> pt_ok (take_pages s s n pt))
         \<or> (\<forall>s. \<not> pt_fits pt n s)
            \<and> alloc_kpages pt (of_nat n)
                = (if pt_free pt (pt_total_pages pt - 1) then Fault else Done (3, pt))"
  using alloc_kpages_spec [OF assms] by (simp add: alloc_spec_def)

theorem alloc_kpages_first_fit_witness:
  "(\<exists>pt'. alloc_kpages (boot_table 0x20000 8 8) 3 = Done (0x80022000, pt'))
   \<and> alloc_kpages (boot_table 0x20000 8 8) 7 = Fault"
proof -
  have "pt_addr (boot_table 0x20000 8 8) = 0x80020000"
    by (simp add: boot_table_def PADDR_TO_KVADDR_def MIPS_KSEG0_def)
  moreover have "pt_fits (boot_table 0x20000 8 8) 3 2" by (simp add: boot_table_fits)
  moreover obtain s where "pt_fits (boot_table 0x20000 8 8) 3 s"
      "\<forall>s' < s. \<not> pt_fits (boot_table 0x20000 8 8) 3 s'"
      "alloc_kpages (boot_table 0x20000 8 8) 3
         = Done (pt_addr (boot_table 0x20000 8 8) + of_nat s * 4096, take_pages s s 3 (boot_table 0x20000 8 8))"
    using alloc_kpages_first_fit [of "boot_table 0x20000 8 8" 3] calculation(2) boot_table_ok [of 8 "0x20000"]
    by auto
  moreover from this have "s = 2" using boot_table_least [of 8 3 "0x20000" s] by simp
  moreover have "\<not> pt_fits (boot_table 0x20000 8 8) 7 s" for s by (simp add: boot_table_fits)
  then have "alloc_kpages (boot_table 0x20000 8 8) 7 = Fault"
    using alloc_kpages_first_fit [of "boot_table 0x20000 8 8" 7] boot_table_ok [of 8 "0x20000"]
      boot_table_free [of 8 "0x20000" 7] by (simp add: boot_table_def)
  ultimately show ?thesis by simp
qed

text \<open>
  C37: the loop of \<open>alloc_kpages\<close> ends for every request and every table, also for a request that
  is 0 or negative as a signed number and for a table that is not well formed.
\<close>

theorem alloc_kpages_returns: "\<exists>r. alloc_kpages_from pt i npages = Some r"
proof (induction "pt_total_pages pt - i" arbitrary: i rule: less_induct)
  case less
  have "i < k \<and> k < pt_total_pages pt" if "find_next_free pt i = Done (Some k)" for k
    using search_from_bounds [OF that [unfolded find_next_free_def]] by simp
  then have "\<exists>r. alloc_kpages_from pt k npages = Some r" if "find_next_free pt i = Done (Some k)" for k
    using that by (intro less) (auto intro: diff_less_mono2)
  then show ?case
    by (subst alloc_kpages_from.simps) (auto split: outcome.splits option.splits)
qed

text \<open>
  C34: what freeing a block of pages gives back. A single page that is allocated and freed again
  leaves the table as it was. Of a block of \<open>n\<close> pages only the first comes back: the other
  \<open>n - 1\<close> pages stay taken.
\<close>

theorem free_kpages_first_page:
  assumes "pt_ok pt" and "0 < n" and "n < 2 ^ 31 - 753" and "pt_fits pt n s"
    and "\<forall>s' < s. \<not> pt_fits pt n s'"
  shows "\<exists>pt'. bnd (alloc_kpages pt (of_nat n)) (\<lambda>(addr, pt). free_kpages pt addr) = Done pt'
    \<and> (if n = 1 then pt' = pt
       else \<forall>j. pt_free pt' j = (pt_free pt j \<and> \<not> (Suc s \<le> j \<and> j < s + n)))"
proof -
  obtain s0 where s0: "pt_fits pt n s0" "\<forall>s' < s0. \<not> pt_fits pt n s'"
      "alloc_kpages pt (of_nat n) = Done (pt_addr pt + of_nat s0 * 4096, take_pages s0 s0 n pt)"
    using alloc_kpages_spec [OF assms(1-3)] assms(4) unfolding alloc_spec_def by blast
  have "s0 = s" using s0(1,2) assms(4,5) by (meson linorder_neqE_nat)
  then have "bnd (alloc_kpages pt (of_nat n)) (\<lambda>(addr, pt). free_kpages pt addr)
           = Done (take_pages s (Suc s) (n - 1) pt)"
    using s0(3) free_taken_block [OF assms(1,2,4)] by simp
  moreover have "pt_free (take_pages s (Suc s) (n - 1) pt) j
      = (pt_free pt j \<and> \<not> (Suc s \<le> j \<and> j < Suc s + (n - 1)))" for j
    by (rule pt_free_take_pages [OF assms(1)])
  ultimately show ?thesis using assms(2) by (cases "n = 1") (auto simp: take_pages_0)
qed

theorem free_kpages_first_page_witness:
  "\<exists>pt'. bnd (alloc_kpages (boot_table 0x20000 8 8) 3) (\<lambda>(addr, pt). free_kpages pt addr) = Done pt'
     \<and> pt_free pt' 2 \<and> \<not> pt_free pt' 3 \<and> \<not> pt_free pt' 4 \<and> pt_free pt' 5"
proof -
  have "\<not> pt_fits (boot_table 0x20000 8 8) 3 s'" if "s' < 2" for s'
    using that by (simp add: boot_table_fits)
  then show ?thesis
    using free_kpages_first_page [of "boot_table 0x20000 8 8" 3 2]
    by (auto simp: boot_table_ok boot_table_fits boot_table_free)
qed

text \<open>
  C33: booting on a memory of at most 753 pages gives a well-formed table in which every page from
  the third on is free, and it takes all of the memory from \<open>ram.c\<close>. With at least four pages
  the first block of two pages that is handed out covers the field \<open>total_pages\<close> of the table
  itself: the table does not fit into the two pages that are put aside.
\<close>

theorem vm_bootstrap_overlap:
  assumes "firstpaddr r \<le> lastpaddr r" and "lastpaddr r \<le> 0x20000000"
    and "4 \<le> ram_pages r" and "ram_pages r \<le> 753"
  shows "\<exists>r' pt. vm_bootstrap r = Done (r', pt) \<and> pt_ok pt \<and> pt_total_pages pt = ram_pages r
    \<and> (\<forall>i. pt_free pt i = (2 \<le> i \<and> i < ram_pages r))
    \<and> fst (ram_stealmem r' 1) = 0
    \<and> (\<exists>addr pt'. alloc_kpages pt 2 = Done (addr, pt')
          \<and> unat addr \<le> unat (pt_addr pt) + total_pages_off
          \<and> unat (pt_addr pt) + total_pages_off + 4 \<le> unat addr + 2 * PAGE_SIZE)"
proof -
  define pt where "pt = boot_table (firstpaddr r) (ram_pages r) (ram_pages r)"
  define r' where "r' = r\<lparr>firstpaddr := firstpaddr r + of_nat (ram_pages r) * 4096\<rparr>"
  have boot: "vm_bootstrap r = Done (r', pt)"
    using vm_bootstrap_table [OF assms(1) _ assms(4)] assms(3) by (simp add: pt_def r'_def)
  have ok: "pt_ok pt" "pt_total_pages pt = ram_pages r" "pt_addr pt = PADDR_TO_KVADDR (firstpaddr r)"
    using boot_table_ok [OF assms(4)] by (simp_all add: pt_def boot_table_def)
  have free: "\<forall>i. pt_free pt i = (2 \<le> i \<and> i < ram_pages r)"
    using boot_table_free [OF assms(4)] by (simp add: pt_def)
  have fits: "pt_fits pt 2 s \<longleftrightarrow> 2 \<le> s \<and> s + 2 \<le> ram_pages r" for s
    using boot_table_fits [OF assms(4), of 2] by (simp add: pt_def)
  have "alloc_kpages pt 2 = Done (pt_addr pt + 2 * 4096, take_pages 2 2 2 pt)"
  proof -
    have "alloc_spec pt 2 (alloc_kpages pt (of_nat 2))"
      using alloc_kpages_spec [OF ok(1), of 2] by simp
    then obtain s where s: "pt_fits pt 2 s" "\<forall>s' < s. \<not> pt_fits pt 2 s'"
      "alloc_kpages pt 2 = Done (pt_addr pt + of_nat s * 4096, take_pages s s 2 pt)"
      using fits [of 2] assms(3) by (auto simp: alloc_spec_def)
    then have "s = 2" using boot_table_least [OF assms(4), of 2] assms(3) by (simp add: pt_def)
    then show ?thesis using s(3) by simp
  qed
  moreover have "unat (pt_addr pt + 2 * 4096) = unat (pt_addr pt) + 8192"
  proof -
    have "unat (firstpaddr r) \<le> 0x20000000"
      using assms(1,2) by (simp add: word_le_nat_alt)
    then show ?thesis by (simp add: ok(3) PADDR_TO_KVADDR_def MIPS_KSEG0_def unat_word_ariths)
  qed
  moreover have "fst (ram_stealmem r' 1) = 0"
    using steal_rest [OF assms(1,2)] by (simp add: r'_def)
  ultimately show ?thesis
    using boot ok(1,2) free
    by (intro exI [of _ r'] exI [of _ pt] conjI exI [of _ "pt_addr pt + 2 * 4096"]
        exI [of _ "take_pages 2 2 2 pt"]) (simp_all add: total_pages_off_def NUM_PAGES_def)
qed

theorem vm_bootstrap_overlap_witness:
  "\<exists>r' pt addr pt'. vm_bootstrap (ram_bootstrap 0x80000 0x80020000) = Done (r', pt)
     \<and> alloc_kpages pt 2 = Done (addr, pt')
     \<and> unat addr \<le> unat (pt_addr pt) + total_pages_off
     \<and> unat (pt_addr pt) + total_pages_off + 4 \<le> unat addr + 2 * PAGE_SIZE"
  using vm_bootstrap_overlap [of "ram_bootstrap 0x80000 0x80020000"]
  by (auto simp: ram_bootstrap_def MIPS_KSEG0_def ram_pages_def)

end
