(* ===== verification/Kern_Proc.thy ===== *)
theory Kern_Proc
  imports Kern_Filetable Kern_Array Kern_Vnode
begin

text \<open>
  Processes and the table of process numbers: \<^verbatim>\<open>kern/proc/proc.c\<close> and \<^verbatim>\<open>kern/include/proc.h\<close>.

  Processes live in a heap: the table, the arrays of children and \<open>curproc\<close> all point to them. The
  array of children and the file table of a process belong to it alone and are part of its record; an
  array of children that could not be created is \<open>None\<close>. The lock and the condition variable of the table are
  addresses in the heaps of locks and of condition variables. The spinlock \<open>p_lock\<close> of a process and the
  interrupt level are held over single steps and are not part of the state.

  Memory that \<open>kmalloc\<close> hands out is an argument of the functions that ask for it (\<open>palloc\<close>): a new
  \<open>struct proc\<close> comes with whatever the memory held, since \<open>proc_create\<close> does not set all of its fields.
  The copying of an address space is an argument as well, with its state \<open>'m\<close>: the kernel is built with
  either of two implementations.

  A run is one thread (\<open>ft_me\<close>), in the process \<open>curproc\<close>. In it \<open>proc_waitpid\<close> on a child that has not
  exited sleeps forever, which is \<open>Stuck\<close>; the section at the end lets all processes act.
\<close>

section \<open>State\<close>

abbreviation (input) AVAILABLE :: int where "AVAILABLE \<equiv> 1"
abbreviation (input) EXITED :: int where "EXITED \<equiv> 2"
abbreviation (input) ORPHAN :: int where "ORPHAN \<equiv> 3"
abbreviation (input) ZOMBIE :: int where "ZOMBIE \<equiv> 4"
abbreviation (input) RUNNING :: int where "RUNNING \<equiv> 5"

definition PID_MAX :: nat where "PID_MAX = 32767"

record proc =
  p_name :: string
  p_threads :: "nat array"
  p_addrspace :: "nat option"
  p_cwd :: "nat option"
  p_ft :: ftable
  p_children :: "nat array option"
  p_pid :: int
  p_status :: int
  p_exitCode :: int

record pid_table =
  firstFreePid :: int
  pid_procs :: "nat option list"
  plock :: "nat option"
  pcv :: "nat option"

record 'm pstate =
  ps_procs :: "nat \<rightharpoonup> proc"
  ps_kproc :: "nat option"
  ps_curproc :: "nat option"
  ps_table :: "pid_table option"
  ps_ft :: ftstate
  ps_cvs :: "nat \<rightharpoonup> cv"
  ps_vnodes :: vnode_heap
  ps_threads :: "nat \<rightharpoonup> nat option"
  ps_vm :: 'm

record palloc =
  a_proc :: "(nat \<times> proc) option"
  a_name :: bool
  a_children :: bool
  a_ft :: bool
  a_fte :: "nat \<Rightarrow> nat option"
  a_lk :: "nat \<Rightarrow> nat option"

text \<open>Reading and writing through a pointer to a process, and the lock of the table.\<close>

definition proc_get :: "'m pstate \<Rightarrow> nat option \<Rightarrow> proc outcome" where
  "proc_get s p = bnd (deref p) (\<lambda>a. deref (ps_procs s a))"

definition proc_upd :: "(proc \<Rightarrow> proc) \<Rightarrow> nat option \<Rightarrow> 'm pstate \<Rightarrow> 'm pstate outcome" where
  "proc_upd f p s =
     bnd (deref p) (\<lambda>a. bnd (deref (ps_procs s a)) (\<lambda>q. Done (s\<lparr>ps_procs := (ps_procs s)(a \<mapsto> f q)\<rparr>)))"

definition plock_acquire :: "'m pstate \<Rightarrow> 'm pstate outcome" where
  "plock_acquire s = bnd (deref (ps_table s)) (\<lambda>t.
     bnd (lock_acquire (ft_me (ps_ft s)) (plock t) (ft_locks (ps_ft s))) (\<lambda>h.
     Done (s\<lparr>ps_ft := (ps_ft s)\<lparr>ft_locks := h\<rparr>\<rparr>)))"

definition plock_release :: "'m pstate \<Rightarrow> 'm pstate outcome" where
  "plock_release s = bnd (deref (ps_table s)) (\<lambda>t.
     bnd (lock_release (plock t) (ft_locks (ps_ft s))) (\<lambda>h.
     Done (s\<lparr>ps_ft := (ps_ft s)\<lparr>ft_locks := h\<rparr>\<rparr>)))"

section \<open>Creating and destroying processes\<close>

definition proc_create :: "palloc \<Rightarrow> string \<Rightarrow> 'm pstate \<Rightarrow> (nat option \<times> 'm pstate) outcome" where
  "proc_create A name s =
     (case a_proc A of
        None \<Rightarrow> Done (None, s)
      | Some (a, garbage) \<Rightarrow>
          if \<not> a_name A then Done (None, s)
          else bnd (ft_init (a_ft A) (a_fte A) (a_lk A) (ps_ft s)) (\<lambda>(ft, fs).
            Done (Some a, s\<lparr>ps_ft := fs, ps_procs := (ps_procs s)(a \<mapsto>
              garbage\<lparr>p_name := name, p_children := array_create (a_children A), p_status := RUNNING,
                      p_ft := ft, p_threads := array_init, p_addrspace := None, p_cwd := None\<rparr>)\<rparr>)))"

definition proc_creator :: "palloc \<Rightarrow> string \<Rightarrow> 'm pstate \<Rightarrow> (nat option \<times> 'm pstate) outcome" where
  "proc_creator A name s = proc_create A name s"

definition proc_bootstrap :: "palloc \<Rightarrow> 'm pstate \<Rightarrow> 'm pstate outcome" where
  "proc_bootstrap A s =
     bnd (proc_create A ''[kernel]'' s) (\<lambda>(p, s).
     let s = s\<lparr>ps_kproc := p\<rparr> in if p = None then Panic else Done s)"

text \<open>
  The loop of \<open>pid_table_init\<close> starts at 2, so slot 0 keeps what the memory held; \<open>garbage0\<close> is that.
\<close>

definition pid_table_init :: "bool \<Rightarrow> nat option \<Rightarrow> nat option \<Rightarrow> nat option \<Rightarrow> 'm pstate \<Rightarrow> 'm pstate outcome" where
  "pid_table_init got lk_at cv_at garbage0 s =
     (if \<not> got then Fault
      else
        let s = (case lk_at of None \<Rightarrow> s
                 | Some a \<Rightarrow> s\<lparr>ps_ft := (ps_ft s)\<lparr>ft_locks := (ft_locks (ps_ft s))(a \<mapsto> lock_idle)\<rparr>\<rparr>);
            s = (case cv_at of None \<Rightarrow> s | Some a \<Rightarrow> s\<lparr>ps_cvs := (ps_cvs s)(a \<mapsto> \<lparr>cv_wchan = []\<rparr>)\<rparr>);
            t = \<lparr>firstFreePid = 2, pid_procs = garbage0 # ps_kproc s # replicate (PID_MAX - 1) None,
                 plock = lk_at, pcv = cv_at\<rparr>
        in proc_upd (\<lambda>q. q\<lparr>p_pid := 1\<rparr>) (ps_kproc s) (s\<lparr>ps_table := Some t\<rparr>))"

text \<open>
  \<open>findFirstFreePid\<close> looks at the slots from 2 to \<open>PID_MAX - 1\<close>.
\<close>

definition pid_slot_free :: "'m pstate \<Rightarrow> nat option \<Rightarrow> bool outcome" where
  "pid_slot_free s p =
     (case p of None \<Rightarrow> Done True | Some a \<Rightarrow> bnd (deref (ps_procs s a)) (\<lambda>q. Done (p_status q = AVAILABLE)))"

definition findFirstFreePid :: "'m pstate \<Rightarrow> 'm pstate outcome" where
  "findFirstFreePid s =
     bnd (deref (ps_table s)) (\<lambda>t.
     bnd (search_from (arr_get (pid_procs t)) (pid_slot_free s) 2 PID_MAX) (\<lambda>r.
     Done (s\<lparr>ps_table := Some (t\<lparr>firstFreePid := (case r of None \<Rightarrow> - 1 | Some i \<Rightarrow> int i)\<rparr>)\<rparr>)))"

text \<open>The result of \<open>array_add\<close> is not looked at.\<close>

definition add_child :: "(nat \<Rightarrow> nat list option) \<Rightarrow> nat option \<Rightarrow> nat \<Rightarrow> 'm pstate \<Rightarrow> (errno \<times> 'm pstate) outcome" where
  "add_child kmalloc parent c s =
     bnd (proc_get s parent) (\<lambda>q.
     bnd (deref (p_children q)) (\<lambda>arr.
     bnd (array_add kmalloc arr c) (\<lambda>(ret, index, arr).
     bnd (proc_upd (\<lambda>q. q\<lparr>p_children := Some arr\<rparr>) parent s) (\<lambda>s. Done (ret, s)))))"

definition addPidEntry :: "(nat \<Rightarrow> nat list option) \<Rightarrow> nat option \<Rightarrow> 'm pstate \<Rightarrow> (errno \<times> 'm pstate) outcome" where
  "addPidEntry kmalloc child s =
     bnd (plock_acquire s) (\<lambda>s.
     bnd (deref (ps_table s)) (\<lambda>t.
     if firstFreePid t = - 1 then bnd (plock_release s) (\<lambda>s. Done (ENPROC, s))
     else if firstFreePid t < 0 then Fault
     else bnd (arr_set (pid_procs t) (nat (firstFreePid t)) child) (\<lambda>v.
       let s = s\<lparr>ps_table := Some (t\<lparr>pid_procs := v\<rparr>)\<rparr> in
       bnd (proc_upd (\<lambda>q. q\<lparr>p_pid := firstFreePid t, p_status := RUNNING, p_exitCode := 0\<rparr>) child s) (\<lambda>s.
       bnd (deref child) (\<lambda>c.
       bnd (add_child kmalloc (ps_curproc s) c s) (\<lambda>(ret, s).
       bnd (findFirstFreePid s) (\<lambda>s.
       bnd (plock_release s) (\<lambda>s. Done (EOK, s)))))))))"

text \<open>
  The current directory of the process is handed on: its reference count goes up.
\<close>

definition inherit_cwd :: "nat option \<Rightarrow> 'm pstate \<Rightarrow> 'm pstate outcome" where
  "inherit_cwd newproc s =
     bnd (proc_get s (ps_curproc s)) (\<lambda>cur.
     case p_cwd cur of
       None \<Rightarrow> Done s
     | Some v \<Rightarrow> bnd (vnode_incref (Some v) (ps_vnodes s)) (\<lambda>h.
         proc_upd (\<lambda>q. q\<lparr>p_cwd := Some v\<rparr>) newproc (s\<lparr>ps_vnodes := h\<rparr>)))"

definition proc_create_runprogram ::
  "(string option \<Rightarrow> nat \<Rightarrow> 'v \<Rightarrow> (errno \<times> nat \<times> 'v) outcome) \<Rightarrow> (string \<Rightarrow> string option)
     \<Rightarrow> palloc \<Rightarrow> (nat \<Rightarrow> nat list option) \<Rightarrow> string \<Rightarrow> 'm pstate \<Rightarrow> 'v
     \<Rightarrow> (nat option \<times> 'm pstate \<times> 'v) outcome" where
  "proc_create_runprogram vfs_open kstrdup A kmalloc name s v =
     bnd (proc_create A name s) (\<lambda>(newproc, s).
     if newproc = None then Done (None, s, v)
     else bnd (proc_upd (\<lambda>q. q\<lparr>p_addrspace := None\<rparr>) newproc s) (\<lambda>s.
     bnd (proc_get s newproc) (\<lambda>q.
     bnd (stdio_init vfs_open kstrdup (p_ft q) (ps_ft s) v) (\<lambda>(retval, ft, fs, v).
     bnd (proc_upd (\<lambda>q. q\<lparr>p_ft := ft\<rparr>) newproc (s\<lparr>ps_ft := fs\<rparr>)) (\<lambda>s.
     if retval \<noteq> EOK then Done (None, s, v)
     else bnd (addPidEntry kmalloc newproc s) (\<lambda>(err, s).
     if err \<noteq> EOK then Done (None, s, v)
     else bnd (inherit_cwd newproc s) (\<lambda>s. Done (newproc, s, v))))))))"

section \<open>Threads and address spaces of a process\<close>

definition proc_addthread :: "(nat \<Rightarrow> nat list option) \<Rightarrow> nat option \<Rightarrow> nat \<Rightarrow> 'm pstate \<Rightarrow> (errno \<times> 'm pstate) outcome" where
  "proc_addthread kmalloc p t s =
     bnd (deref (ps_threads s t)) (\<lambda>t_proc.
     kassert (t_proc = None) (
     bnd (proc_get s p) (\<lambda>q.
     bnd (array_add kmalloc (p_threads q) t) (\<lambda>(result, index, arr).
     bnd (proc_upd (\<lambda>q. q\<lparr>p_threads := arr\<rparr>) p s) (\<lambda>s.
     if result \<noteq> EOK then Done (result, s)
     else Done (EOK, s\<lparr>ps_threads := (ps_threads s)(t \<mapsto> p)\<rparr>))))))"

definition proc_remthread :: "nat \<Rightarrow> 'm pstate \<Rightarrow> 'm pstate outcome" where
  "proc_remthread t s =
     bnd (deref (ps_threads s t)) (\<lambda>p.
     kassert (p \<noteq> None) (
     bnd (proc_get s p) (\<lambda>q.
     bnd (search_from (array_get (p_threads q)) (\<lambda>x. Done (x = t)) 0 (array_num (p_threads q))) (\<lambda>r.
     case r of
       None \<Rightarrow> Panic
     | Some i \<Rightarrow> bnd (array_remove (p_threads q) i) (\<lambda>arr.
         bnd (proc_upd (\<lambda>q. q\<lparr>p_threads := arr\<rparr>) p s) (\<lambda>s.
         Done (s\<lparr>ps_threads := (ps_threads s)(t \<mapsto> None)\<rparr>)))))))"

definition proc_getas :: "'m pstate \<Rightarrow> nat option outcome" where
  "proc_getas s =
     (if ps_curproc s = None then Done None
      else bnd (proc_get s (ps_curproc s)) (\<lambda>q. Done (p_addrspace q)))"

definition proc_setas :: "nat option \<Rightarrow> 'm pstate \<Rightarrow> (nat option \<times> 'm pstate) outcome" where
  "proc_setas newas s =
     kassert (ps_curproc s \<noteq> None) (
     bnd (proc_get s (ps_curproc s)) (\<lambda>q.
     bnd (proc_upd (\<lambda>q. q\<lparr>p_addrspace := newas\<rparr>) (ps_curproc s) s) (\<lambda>s.
     Done (p_addrspace q, s))))"

text \<open>
  \<open>proc_destroy\<close>. The lock and the condition variable it destroys are those of the table of all
  processes. \<open>as_destroy\<close> and the \<open>reclaim\<close> operation of vnodes are arguments.
\<close>

definition proc_destroy ::
  "(nat \<Rightarrow> 'm \<Rightarrow> 'm outcome) \<Rightarrow> (nat \<Rightarrow> 'm pstate \<Rightarrow> (errno \<times> 'm pstate) outcome) \<Rightarrow> nat option \<Rightarrow> 'm pstate
     \<Rightarrow> 'm pstate outcome" where
  "proc_destroy as_destroy reclaim p s =
     (case p of
        None \<Rightarrow> Panic
      | Some a \<Rightarrow> kassert (p \<noteq> ps_kproc s) (
     bnd (proc_get s p) (\<lambda>q.
     bnd (if p_cwd q = None then Done s
          else bnd (vnode_decref ps_vnodes ps_vnodes_update reclaim (p_cwd q) s)
                 (proc_upd (\<lambda>q. q\<lparr>p_cwd := None\<rparr>) p)) (\<lambda>s.
     bnd (case p_addrspace q of
            None \<Rightarrow> Done s
          | Some as \<Rightarrow> bnd (proc_upd (\<lambda>q. q\<lparr>p_status := EXITED, p_addrspace := None\<rparr>) p s) (\<lambda>s.
              bnd (as_destroy as (ps_vm s)) (\<lambda>m. Done (s\<lparr>ps_vm := m\<rparr>)))) (\<lambda>s.
     bnd (deref (ps_table s)) (\<lambda>t.
     bnd (lock_kill (plock t) (ft_locks (ps_ft s))) (\<lambda>h.
     let s = s\<lparr>ps_ft := (ps_ft s)\<lparr>ft_locks := h\<rparr>\<rparr> in
     bnd (case pcv t of
            None \<Rightarrow> Panic
          | Some c \<Rightarrow> bnd (deref (ps_cvs s c)) (\<lambda>cv. bnd (cv_destroy (Some cv)) (\<lambda>_.
              Done (s\<lparr>ps_cvs := (ps_cvs s)(c := None)\<rparr>)))) (\<lambda>s.
     bnd (proc_get s p) (\<lambda>q.
     bnd (array_cleanup (p_threads q)) (\<lambda>_.
     Done (s\<lparr>ps_procs := (ps_procs s)(a := None)\<rparr>)))))))))))"

section \<open>Fork, exit and wait\<close>

text \<open>
  \<open>fork_proc\<close>: what \<open>addPidEntry\<close> returned is overwritten. \<open>as_copy\<close> gives the code and, when it
  succeeds, the new address space.
\<close>

definition fork_proc ::
  "(nat option \<Rightarrow> 'm \<Rightarrow> (errno \<times> nat option \<times> 'm) outcome) \<Rightarrow> (nat \<Rightarrow> nat list option) \<Rightarrow> nat option \<Rightarrow> 'm pstate
     \<Rightarrow> (errno \<times> 'm pstate) outcome" where
  "fork_proc as_copy kmalloc childProc s =
     bnd (addPidEntry kmalloc childProc s) (\<lambda>(err, s).
     bnd (proc_get s (ps_curproc s)) (\<lambda>cur.
     bnd (as_copy (p_addrspace cur) (ps_vm s)) (\<lambda>(err, as, m).
     let s = s\<lparr>ps_vm := m\<rparr> in
     if err \<noteq> EOK then Done (err, s)
     else bnd (proc_upd (\<lambda>q. q\<lparr>p_addrspace := as\<rparr>) childProc s) (\<lambda>s.
     bnd (inherit_cwd childProc s) (\<lambda>s.
     bnd (plock_acquire s) (\<lambda>s.
     bnd (proc_get s (ps_curproc s)) (\<lambda>cur.
     bnd (proc_get s childProc) (\<lambda>child.
     bnd (fork_ft (p_ft cur) (p_ft child) (ps_ft s)) (\<lambda>(ft, fs).
     bnd (proc_upd (\<lambda>q. q\<lparr>p_ft := ft\<rparr>) childProc (s\<lparr>ps_ft := fs\<rparr>)) (\<lambda>s.
     bnd (plock_release s) (\<lambda>s. Done (EOK, s))))))))))))"

text \<open>
  The loop of \<open>proc_exit\<close>: the children that are running or zombies become children of process 1. The
  first element of the result is \<open>False\<close> when an \<open>array_add\<close> failed.
\<close>

function adopt_from :: "(nat \<Rightarrow> nat list option) \<Rightarrow> nat option \<Rightarrow> nat option \<Rightarrow> nat \<Rightarrow> nat \<Rightarrow> 'm pstate \<Rightarrow> (bool \<times> 'm pstate) outcome" where
  "adopt_from kmalloc p master i len s =
     (if i < len
      then bnd (proc_get s p) (\<lambda>q.
           bnd (deref (p_children q)) (\<lambda>arr.
           bnd (array_get arr i) (\<lambda>c.
           bnd (deref (ps_procs s c)) (\<lambda>child.
           if p_status child = RUNNING \<or> p_status child = ZOMBIE
           then bnd (add_child kmalloc master c s) (\<lambda>(ret, s).
                if ret \<noteq> EOK then Done (False, s) else adopt_from kmalloc p master (Suc i) len s)
           else adopt_from kmalloc p master (Suc i) len s))))
      else Done (True, s))"
  by pat_completeness auto
termination
  by (relation "measure (\<lambda>(k, p, m, i, len, s). len - i)") auto

declare adopt_from.simps [simp del]

text \<open>
  The result of \<open>proc_exit\<close> says whether it got to \<open>thread_exit\<close>; the state is the one at that call.
\<close>

definition cv_broadcast_pcv :: "'m pstate \<Rightarrow> 'm pstate outcome" where
  "cv_broadcast_pcv s =
     bnd (deref (ps_table s)) (\<lambda>t.
     case (plock t, pcv t) of
       (Some lk, Some c) \<Rightarrow>
         bnd (deref (ft_locks (ps_ft s) lk)) (\<lambda>l.
         kassert (lock_do_i_hold (ft_me (ps_ft s)) l) (
         bnd (deref (ps_cvs s c)) (\<lambda>cv. Done (s\<lparr>ps_cvs := (ps_cvs s)(c \<mapsto> snd (cv_wakeall cv))\<rparr>))))
     | _ \<Rightarrow> Panic)"

definition proc_exit ::
  "(nat \<Rightarrow> nat list option) \<Rightarrow> nat option \<Rightarrow> u32 \<Rightarrow> 'm pstate \<Rightarrow> (bool \<times> 'm pstate) outcome" where
  "proc_exit kmalloc p exitcode s =
     bnd (proc_get s p) (\<lambda>q.
     bnd (deref (p_children q)) (\<lambda>arr.
     bnd (deref (ps_table s)) (\<lambda>t.
     bnd (arr_get (pid_procs t) 1) (\<lambda>master.
     bnd (adopt_from kmalloc p master 0 (array_num arr) s) (\<lambda>(ok, s).
     if \<not> ok then Done (False, s)
     else bnd (plock_acquire s) (\<lambda>s.
     bnd (proc_upd (\<lambda>q. q\<lparr>p_status := ZOMBIE, p_exitCode := sint exitcode\<rparr>) p s) (\<lambda>s.
     bnd (cv_broadcast_pcv s) (\<lambda>s.
     bnd (plock_release s) (\<lambda>s. Done (True, s))))))))))"

text \<open>\<open>isChild\<close> and \<open>getChild\<close> search the children for a process number.\<close>

definition child_index :: "'m pstate \<Rightarrow> nat option \<Rightarrow> int \<Rightarrow> nat option outcome" where
  "child_index s parent child_pid =
     bnd (proc_get s parent) (\<lambda>q.
     bnd (deref (p_children q)) (\<lambda>arr.
     search_from (array_get arr) (\<lambda>c. bnd (deref (ps_procs s c)) (\<lambda>child. Done (p_pid child = child_pid)))
       0 (array_num arr)))"

definition isChild :: "nat option \<Rightarrow> int \<Rightarrow> 'm pstate \<Rightarrow> (bool \<times> 'm pstate) outcome" where
  "isChild parent child_pid s =
     bnd (plock_acquire s) (\<lambda>s.
     bnd (child_index s parent child_pid) (\<lambda>r.
     bnd (plock_release s) (\<lambda>s. Done (r \<noteq> None, s))))"

definition getChild :: "nat option \<Rightarrow> int \<Rightarrow> 'm pstate \<Rightarrow> nat option outcome" where
  "getChild parent child_pid s =
     bnd (child_index s parent child_pid) (\<lambda>r.
     case r of
       None \<Rightarrow> Done None
     | Some i \<Rightarrow> bnd (proc_get s parent) (\<lambda>q. bnd (deref (p_children q)) (\<lambda>arr.
                   bnd (array_get arr i) (\<lambda>c. Done (Some c)))))"

definition getStatus :: "nat option \<Rightarrow> int \<Rightarrow> 'm pstate \<Rightarrow> int outcome" where
  "getStatus parent child_pid s =
     bnd (getChild parent child_pid s) (\<lambda>child. bnd (proc_get s child) (\<lambda>q. Done (p_status q)))"

definition clean_child_file :: "nat option \<Rightarrow> int \<Rightarrow> 'm pstate \<Rightarrow> 'm pstate outcome" where
  "clean_child_file parent child_pid s =
     bnd (getChild parent child_pid s) (\<lambda>child.
     bnd (proc_get s child) (\<lambda>q.
     bnd (cleanup (p_ft q) (ps_ft s)) (\<lambda>fs. Done (s\<lparr>ps_ft := fs\<rparr>))))"

text \<open>
  \<open>proc_waitpid\<close>: the pointer \<open>pidTable->procs[pid]\<close>, the round of the loop that looks at the status, and
  the part after it. Sleeping is \<open>Stuck\<close>. The value stored through \<open>exitcode\<close> is the second component
  of the result, \<open>None\<close> when nothing was stored.
\<close>

definition pid_proc :: "'m pstate \<Rightarrow> int \<Rightarrow> nat option outcome" where
  "pid_proc s pid = bnd (deref (ps_table s)) (\<lambda>t. if 0 \<le> pid then arr_get (pid_procs t) (nat pid) else Fault)"

definition pid_status :: "'m pstate \<Rightarrow> int \<Rightarrow> int outcome" where
  "pid_status s pid = bnd (pid_proc s pid) (\<lambda>p. bnd (proc_get s p) (\<lambda>q. Done (p_status q)))"

definition reap :: "int \<Rightarrow> 'm pstate \<Rightarrow> (u32 \<times> 'm pstate) outcome" where
  "reap pid s =
     bnd (pid_proc s pid) (\<lambda>p.
     bnd (proc_upd (\<lambda>q. q\<lparr>p_status := AVAILABLE\<rparr>) p s) (\<lambda>s.
     bnd (proc_get s p) (\<lambda>q.
     bnd (findFirstFreePid s) (\<lambda>s. Done (word_of_int (p_exitCode q), s)))))"

definition proc_waitpid :: "int \<Rightarrow> bool \<Rightarrow> 'm pstate \<Rightarrow> (errno \<times> u32 option \<times> 'm pstate) outcome" where
  "proc_waitpid pid canReap s =
     bnd (plock_acquire s) (\<lambda>s.
     bnd (pid_status s pid) (\<lambda>status.
     if status \<noteq> ZOMBIE then Stuck
     else bnd (plock_release s) (\<lambda>s.
     if canReap
     then bnd (plock_acquire s) (\<lambda>s.
          bnd (reap pid s) (\<lambda>(exitcode, s).
          bnd (plock_release s) (\<lambda>s. Done (EOK, Some exitcode, s))))
     else Done (EOK, None, s))))"

definition proc_getpid :: "'m pstate \<Rightarrow> (u32 \<times> 'm pstate) outcome" where
  "proc_getpid s =
     bnd (plock_acquire s) (\<lambda>s.
     bnd (proc_get s (ps_curproc s)) (\<lambda>q.
     bnd (plock_release s) (\<lambda>s. Done (word_of_int (p_pid q), s))))"

section \<open>All processes together\<close>

text \<open>
  Steps of the processes of the system: a running process forks, exits, or reaps a process that has
  exited. The events say which process number is concerned and which code was seen. Each step runs
  the code above; a call that would sleep or fail is not a step. The memory a fork gets for the new
  process is not yet part of the heap. The numbers of processes start at 1.
\<close>

datatype pevent = Forked nat | Exited nat u32 | Waited int u32

inductive proc_step :: "'m pstate \<Rightarrow> pevent \<Rightarrow> 'm pstate \<Rightarrow> bool" where
  fork: "ps_procs s p = Some q \<Longrightarrow> p_status q = RUNNING \<Longrightarrow> ps_procs s c = None \<Longrightarrow>
    addPidEntry kmalloc (Some c) (s\<lparr>ps_curproc := Some p, ps_procs := (ps_procs s)(c \<mapsto> blank)\<rparr>) = Done (EOK, s') \<Longrightarrow>
    proc_step s (Forked c) s'"
| exit: "ps_procs s p = Some q \<Longrightarrow> p_status q = RUNNING \<Longrightarrow>
    proc_exit kmalloc (Some p) code (s\<lparr>ps_curproc := Some p\<rparr>) = Done (True, s') \<Longrightarrow>
    proc_step s (Exited p code) s'"
| wait: "ps_procs s p = Some q \<Longrightarrow> p_status q = RUNNING \<Longrightarrow> 1 \<le> pid \<Longrightarrow>
    proc_waitpid pid True (s\<lparr>ps_curproc := Some p\<rparr>) = Done (EOK, Some code, s') \<Longrightarrow>
    proc_step s (Waited pid code) s'"

section \<open>The invariant of the table\<close>

text \<open>The process in slot \<open>i\<close> has the number \<open>i\<close>.\<close>

definition pid_tab :: "(nat \<rightharpoonup> proc) \<Rightarrow> nat option list \<Rightarrow> bool" where
  "pid_tab h procs \<longleftrightarrow> length procs = Suc PID_MAX \<and>
     (\<forall>i p. 1 \<le> i \<longrightarrow> i \<le> PID_MAX \<longrightarrow> procs ! i = Some p \<longrightarrow> (\<exists>q. h p = Some q \<and> p_pid q = int i))"

definition slot_free :: "(nat \<rightharpoonup> proc) \<Rightarrow> nat option \<Rightarrow> bool" where
  "slot_free h p = (case p of None \<Rightarrow> True | Some a \<Rightarrow> p_status (the (h a)) = AVAILABLE)"

text \<open>What \<open>firstFreePid\<close> is meant to be: the lowest free number from 2 to \<open>PID_MAX - 1\<close>, or -1.\<close>

definition pid_lowest :: "(nat \<rightharpoonup> proc) \<Rightarrow> nat option list \<Rightarrow> int" where
  "pid_lowest h procs =
     (case find_index (slot_free h) (map ((!) procs) [2..<PID_MAX]) of None \<Rightarrow> - 1 | Some k \<Rightarrow> int (2 + k))"

definition pids_wf :: "'m pstate \<Rightarrow> bool" where
  "pids_wf s \<longleftrightarrow> (\<exists>t lk c cv. ps_table s = Some t \<and> plock t = Some lk \<and> ft_locks (ps_ft s) lk = Some lock_idle
     \<and> pcv t = Some c \<and> ps_cvs s c = Some cv \<and> pid_tab (ps_procs s) (pid_procs t))"

definition pids_ok :: "'m pstate \<Rightarrow> bool" where
  "pids_ok s \<longleftrightarrow> pids_wf s \<and>
     firstFreePid (the (ps_table s)) = pid_lowest (ps_procs s) (pid_procs (the (ps_table s)))"

text \<open>
  The states that can come about after the table is set up, for a boot that got its memory, and the
  runs of the system with the events in their order.
\<close>

inductive proc_reach :: "'m pstate \<Rightarrow> bool" where
  init: "pid_table_init True (Some lk) (Some cv) garbage0 s0 = Done s \<Longrightarrow> proc_reach s"
| step: "proc_reach s \<Longrightarrow> proc_step s ev s' \<Longrightarrow> proc_reach s'"

inductive proc_run :: "'m pstate \<Rightarrow> pevent list \<Rightarrow> 'm pstate \<Rightarrow> bool" where
  none: "proc_run s [] s"
| more: "proc_step s ev s' \<Longrightarrow> proc_run s' evs s'' \<Longrightarrow> proc_run s (ev # evs) s''"

text \<open>Process number \<open>i\<close> has exited with the code \<open>e\<close> and has not been reaped.\<close>

definition zombie :: "'m pstate \<Rightarrow> nat \<Rightarrow> int \<Rightarrow> bool" where
  "zombie s i e \<longleftrightarrow> 1 \<le> i \<and> i \<le> PID_MAX \<and> (\<exists>t p q. ps_table s = Some t \<and> pid_procs t ! i = Some p
     \<and> ps_procs s p = Some q \<and> p_status q = ZOMBIE \<and> p_exitCode q = e)"

text \<open>Heaps that differ in the arrays of children only.\<close>

definition upto_children :: "(nat \<rightharpoonup> proc) \<Rightarrow> (nat \<rightharpoonup> proc) \<Rightarrow> bool" where
  "upto_children h h' \<longleftrightarrow>
     (\<forall>a. map_option (\<lambda>q. q\<lparr>p_children := None\<rparr>) (h' a) = map_option (\<lambda>q. q\<lparr>p_children := None\<rparr>) (h a))"

lemma upto_refl: "upto_children h h"
  by (simp add: upto_children_def)

lemma upto_trans: "upto_children h h' \<Longrightarrow> upto_children h' h'' \<Longrightarrow> upto_children h h''"
  by (simp add: upto_children_def)

lemma upto_Some:
  assumes "upto_children h h'" and "h a = Some q"
  shows "\<exists>arr. h' a = Some (q\<lparr>p_children := arr\<rparr>)"
proof -
  have "map_option (\<lambda>q. q\<lparr>p_children := None\<rparr>) (h' a) = Some (q\<lparr>p_children := None\<rparr>)"
    using assms by (simp add: upto_children_def)
  then obtain q' where q': "h' a = Some q'" "q'\<lparr>p_children := None\<rparr> = q\<lparr>p_children := None\<rparr>"
    by (cases "h' a") simp_all
  have "q' = q'\<lparr>p_children := None\<rparr>\<lparr>p_children := p_children q'\<rparr>" by simp
  also have "\<dots> = q\<lparr>p_children := p_children q'\<rparr>" unfolding q'(2) by simp
  finally have "h' a = Some (q\<lparr>p_children := p_children q'\<rparr>)"
    by (rule trans [OF q'(1) arg_cong [where f = Some]])
  then show ?thesis by (rule exI)
qed

lemma upto_None: "upto_children h h' \<Longrightarrow> h' a = None \<longleftrightarrow> h a = None"
  unfolding upto_children_def by (metis map_option_is_None)

lemma upto_sym: "upto_children h h' \<Longrightarrow> upto_children h' h"
  by (simp add: upto_children_def)

lemma slot_free_upto:
  assumes "upto_children h h'"
  shows "slot_free h' p = slot_free h p"
proof (cases p)
  case (Some a)
  show ?thesis
  proof (cases "h a")
    case None
    then show ?thesis using upto_None [OF assms, of a] Some by (simp add: slot_free_def)
  next
    case (Some q)
    then show ?thesis using upto_Some [OF assms Some] \<open>p = Some a\<close> by (auto simp: slot_free_def)
  qed
qed (simp add: slot_free_def)

lemma pid_lowest_upto: "upto_children h h' \<Longrightarrow> pid_lowest h' procs = pid_lowest h procs"
  using slot_free_upto [of h h'] by (simp add: pid_lowest_def cong: find_index_cong)

lemma pid_tab_upto:
  assumes "upto_children h h'" and "pid_tab h procs"
  shows "pid_tab h' procs"
proof -
  have "\<exists>q. h' p = Some q \<and> p_pid q = int i"
    if "1 \<le> i" "i \<le> PID_MAX" "procs ! i = Some p" for i p
    using assms(2) that upto_Some [OF assms(1), of p] unfolding pid_tab_def by fastforce
  then show ?thesis using assms(2) unfolding pid_tab_def by blast
qed

lemma PID_MAX_pos [simp]: "0 < PID_MAX"
  by (simp add: PID_MAX_def)

lemma pid_lowest_cases:
  assumes "length procs = Suc PID_MAX"
  shows "pid_lowest h procs = - 1 \<and> (\<forall>i. 2 \<le> i \<longrightarrow> i < PID_MAX \<longrightarrow> \<not> slot_free h (procs ! i))
    \<or> (\<exists>i. pid_lowest h procs = int i \<and> 2 \<le> i \<and> i < PID_MAX \<and> slot_free h (procs ! i)
         \<and> (\<forall>j. 2 \<le> j \<longrightarrow> j < i \<longrightarrow> \<not> slot_free h (procs ! j)))"
proof (cases "find_index (slot_free h) (map ((!) procs) [2..<PID_MAX])")
  case None
  then have "pid_lowest h procs = - 1" by (simp add: pid_lowest_def)
  moreover have "\<not> slot_free h (procs ! i)" if "2 \<le> i" "i < PID_MAX" for i
    using None that by (simp add: find_index_None)
  ultimately show ?thesis by blast
next
  case (Some k)
  then have k: "k < PID_MAX - 2" "slot_free h (procs ! (2 + k))" "\<forall>j < k. \<not> slot_free h (procs ! (2 + j))"
    by (auto simp: find_index_Some)
  have "\<not> slot_free h (procs ! j)" if "2 \<le> j" "j < 2 + k" for j
    using k(3) that by (metis add_less_cancel_left le_Suc_ex)
  moreover have "pid_lowest h procs = int (2 + k)" using Some by (simp add: pid_lowest_def)
  moreover have "2 + k < PID_MAX" using k(1) by simp
  ultimately show ?thesis using k(2) by (intro disjI2 exI [of _ "2 + k"]) simp
qed

lemma findFirstFreePid_ok:
  assumes "ps_table s = Some t" and "pid_tab (ps_procs s) (pid_procs t)"
  shows "findFirstFreePid s
    = Done (s\<lparr>ps_table := Some (t\<lparr>firstFreePid := pid_lowest (ps_procs s) (pid_procs t)\<rparr>)\<rparr>)"
proof -
  let ?xs = "map ((!) (pid_procs t)) [2..<PID_MAX]"
  have len: "length (pid_procs t) = Suc PID_MAX" using assms(2) by (simp add: pid_tab_def)
  have "pid_slot_free s x = Done (slot_free (ps_procs s) x)" if "x \<in> set ?xs" for x
  proof (cases x)
    case (Some a)
    then obtain i where "2 \<le> i" "i < PID_MAX" "pid_procs t ! i = Some a" using \<open>x \<in> set ?xs\<close> by auto
    then have "\<exists>q. ps_procs s a = Some q"
      using assms(2) unfolding pid_tab_def by (fastforce dest: spec [of _ i])
    then show ?thesis using Some by (auto simp: pid_slot_free_def slot_free_def)
  qed (simp add: pid_slot_free_def slot_free_def)
  then have "search_from (arr_get (pid_procs t)) (pid_slot_free s) 2 (2 + length ?xs)
      = Done (map_option (\<lambda>j. 2 + j) (find_index (slot_free (ps_procs s)) ?xs))"
    using len by (intro search_from_find_index) simp_all
  moreover have "2 \<le> PID_MAX" by (simp add: PID_MAX_def)
  then have "2 + length ?xs = PID_MAX" by simp
  ultimately show ?thesis
    using assms(1) by (simp add: findFirstFreePid_def pid_lowest_def split: option.split)
qed

text \<open>What the operations do to the state, whenever they return.\<close>

lemma proc_upd_Done:
  "proc_upd f (Some a) s = Done s' \<longleftrightarrow>
     (\<exists>q. ps_procs s a = Some q \<and> s' = s\<lparr>ps_procs := (ps_procs s)(a \<mapsto> f q)\<rparr>)"
  by (auto simp: proc_upd_def bnd_Done_iff deref_Done_iff)

lemma proc_get_Done: "proc_get s p = Done q \<longleftrightarrow> (\<exists>a. p = Some a \<and> ps_procs s a = Some q)"
  by (auto simp: proc_get_def bnd_Done_iff deref_Done_iff)

lemma add_child_Done:
  assumes "add_child kmalloc p c s = Done (ret, s')"
  obtains h where "s' = s\<lparr>ps_procs := h\<rparr>" and "upto_children (ps_procs s) h"
proof -
  obtain q arr s'' a where q: "ps_procs s a = Some q" "p = Some a"
    and upd: "proc_upd (\<lambda>q. q\<lparr>p_children := Some arr\<rparr>) p s = Done s'"
    using assms by (auto simp: add_child_def bnd_Done_iff proc_get_Done)
  then have "s' = s\<lparr>ps_procs := (ps_procs s)(a \<mapsto> q\<lparr>p_children := Some arr\<rparr>)\<rparr>"
    by (simp add: proc_upd_Done)
  moreover have "upto_children (ps_procs s) ((ps_procs s)(a \<mapsto> q\<lparr>p_children := Some arr\<rparr>))"
    using q by (simp add: upto_children_def)
  ultimately show ?thesis by (rule that)
qed

lemma adopt_from_Done:
  assumes "adopt_from kmalloc p master i len s = Done (ok, s')"
  shows "\<exists>h. s' = s\<lparr>ps_procs := h\<rparr> \<and> upto_children (ps_procs s) h"
  using assms
proof (induction "len - i" arbitrary: i s)
  case 0
  then have "s' = s\<lparr>ps_procs := ps_procs s\<rparr>" by (simp add: adopt_from.simps)
  then show ?case using upto_refl by blast
next
  case (Suc n)
  then have "i < len" "n = len - Suc i" by simp_all
  have "bnd (proc_get s p) (\<lambda>q.
        bnd (deref (p_children q)) (\<lambda>arr.
        bnd (array_get arr i) (\<lambda>c.
        bnd (deref (ps_procs s c)) (\<lambda>child.
        if p_status child = RUNNING \<or> p_status child = ZOMBIE
        then bnd (add_child kmalloc master c s) (\<lambda>(ret, s).
             if ret \<noteq> EOK then Done (False, s) else adopt_from kmalloc p master (Suc i) len s)
        else adopt_from kmalloc p master (Suc i) len s)))) = Done (ok, s')"
    using Suc.prems \<open>i < len\<close> unfolding adopt_from.simps [of kmalloc p master i len s] by (simp only: if_True)
  then obtain c and child :: proc where
    "(if p_status child = RUNNING \<or> p_status child = ZOMBIE
      then bnd (add_child kmalloc master c s) (\<lambda>(ret, s).
           if ret \<noteq> EOK then Done (False, s) else adopt_from kmalloc p master (Suc i) len s)
      else adopt_from kmalloc p master (Suc i) len s) = Done (ok, s')"
    by (elim bnd_DoneE) (rule that, assumption)
  then consider "adopt_from kmalloc p master (Suc i) len s = Done (ok, s')"
    | (2) ret s1 where "add_child kmalloc master c s = Done (ret, s1)"
        "s' = s1 \<or> adopt_from kmalloc p master (Suc i) len s1 = Done (ok, s')"
    by (auto simp: bnd_Done_iff split: if_splits)
  then show ?case
  proof cases
    case 1
    then show ?thesis by (rule Suc.hyps(1) [OF \<open>n = len - Suc i\<close>])
  next
    case 2
    obtain h where h: "s1 = s\<lparr>ps_procs := h\<rparr>" "upto_children (ps_procs s) h"
      by (rule add_child_Done [OF 2(1)])
    from 2(2) show ?thesis
    proof
      assume "s' = s1"
      then show ?thesis using h by blast
    next
      assume "adopt_from kmalloc p master (Suc i) len s1 = Done (ok, s')"
      then obtain h' where "s' = s1\<lparr>ps_procs := h'\<rparr>" "upto_children (ps_procs s1) h'"
        using Suc.hyps(1) [OF \<open>n = len - Suc i\<close>] by blast
      then show ?thesis using h upto_trans [of "ps_procs s" h h'] by (intro exI [of _ h']) simp
    qed
  qed
qed

text \<open>The state while the running thread holds the lock of the table.\<close>

definition plocked :: "'m pstate \<Rightarrow> 'm pstate" where
  "plocked s = s\<lparr>ps_ft := (ps_ft s)\<lparr>ft_locks := (ft_locks (ps_ft s))(the (plock (the (ps_table s))) \<mapsto>
                  lock_mine (ft_me (ps_ft s)))\<rparr>\<rparr>"

lemma plock_acquire_wf: "pids_wf s \<Longrightarrow> plock_acquire s = Done (plocked s)"
  by (auto simp: pids_wf_def plock_acquire_def plocked_def)

lemma plock_release_wf:
  assumes "pids_wf s" and "ps_ft s' = ps_ft (plocked s)" and "ps_table s' = Some t"
    and "plock t = plock (the (ps_table s))"
  shows "plock_release s' = Done (s'\<lparr>ps_ft := ps_ft s\<rparr>)"
proof -
  obtain lk t0 where lk: "ps_table s = Some t0" "plock t0 = Some lk" "ft_locks (ps_ft s) lk = Some lock_idle"
    using assms(1) unfolding pids_wf_def by blast
  then have "(ft_locks (ps_ft s))(lk \<mapsto> lock_idle) = ft_locks (ps_ft s)" by (simp add: fun_upd_idem)
  then show ?thesis
    using lk assms(2-4)
    by (simp add: plock_release_def plocked_def lock_release_any(1) [of _ lk "ft_me (ps_ft s)"])
qed

lemma plocked_simps [simp]:
  "ps_procs (plocked s) = ps_procs s" "ps_table (plocked s) = ps_table s" "ps_cvs (plocked s) = ps_cvs s"
  "ps_curproc (plocked s) = ps_curproc s" "ps_kproc (plocked s) = ps_kproc s"
  "ps_vnodes (plocked s) = ps_vnodes s" "ps_threads (plocked s) = ps_threads s" "ps_vm (plocked s) = ps_vm s"
  by (simp_all add: plocked_def)

lemma plocked_unlock [simp]: "(plocked s)\<lparr>ps_ft := ps_ft s\<rparr> = s"
  by (simp add: plocked_def)

lemma plock_release_plocked: "pids_wf s \<Longrightarrow> plock_release (plocked s) = Done s"
  using plock_release_wf [of s "plocked s", OF _ refl] by (auto simp: pids_wf_def)

text \<open>The end of a change of the table: the lowest free number is found again and the lock is given back.\<close>

lemma refresh_unlock:
  assumes "pids_wf s" and "ps_table s = Some t" and "plock t1 = plock t" and "pid_tab h (pid_procs t1)"
  shows "bnd (findFirstFreePid ((plocked s)\<lparr>ps_procs := h, ps_table := Some t1\<rparr>)) plock_release
    = Done (s\<lparr>ps_procs := h, ps_table := Some (t1\<lparr>firstFreePid := pid_lowest h (pid_procs t1)\<rparr>)\<rparr>)"
proof -
  define t' where "t' = t1\<lparr>firstFreePid := pid_lowest h (pid_procs t1)\<rparr>"
  define s2 where "s2 = (plocked s)\<lparr>ps_procs := h, ps_table := Some t'\<rparr>"
  have "findFirstFreePid ((plocked s)\<lparr>ps_procs := h, ps_table := Some t1\<rparr>) = Done s2"
    by (subst findFirstFreePid_ok [of _ t1]) (simp_all add: assms(4) s2_def t'_def)
  moreover have "plock_release s2 = Done (s2\<lparr>ps_ft := ps_ft s\<rparr>)"
    by (rule plock_release_wf [OF assms(1), where t = t']) (simp_all add: s2_def t'_def assms(2,3))
  moreover have "s2\<lparr>ps_ft := ps_ft s\<rparr> = s\<lparr>ps_procs := h, ps_table := Some t'\<rparr>"
    by (simp add: s2_def plocked_def)
  ultimately show ?thesis by (simp add: t'_def)
qed

lemma pids_wfE:
  assumes "pids_wf s"
  obtains t lk c cv where "ps_table s = Some t" and "plock t = Some lk"
    and "ft_locks (ps_ft s) lk = Some lock_idle" and "pcv t = Some c" and "ps_cvs s c = Some cv"
    and "pid_tab (ps_procs s) (pid_procs t)"
  using assms unfolding pids_wf_def by blast

lemma pids_okE:
  assumes "pids_ok s"
  obtains t where "ps_table s = Some t" and "pid_tab (ps_procs s) (pid_procs t)"
    and "firstFreePid t = pid_lowest (ps_procs s) (pid_procs t)"
  using assms by (auto simp: pids_ok_def pids_wf_def)

lemma pid_tab_insert:
  assumes "pid_tab h procs" and "2 \<le> i" and "i < PID_MAX" and "h c = Some q"
    and "\<And>j. 1 \<le> j \<Longrightarrow> j \<le> PID_MAX \<Longrightarrow> procs ! j \<noteq> Some c" and "p_pid q' = int i"
  shows "pid_tab (h(c \<mapsto> q')) (procs[i := Some c])"
proof -
  have "\<exists>q. (h(c \<mapsto> q')) p = Some q \<and> p_pid q = int j"
    if "1 \<le> j" "j \<le> PID_MAX" "procs[i := Some c] ! j = Some p" for j p
  proof (cases "j = i")
    case True
    then show ?thesis using that assms(1,3,6) by (simp add: pid_tab_def)
  next
    case False
    then have "procs ! j = Some p" "p \<noteq> c" using that assms(5) [of j] by auto
    then show ?thesis using that assms(1) by (simp add: pid_tab_def)
  qed
  then show ?thesis using assms(1) by (simp add: pid_tab_def)
qed

text \<open>A successful \<open>addPidEntry\<close> takes the lowest free number.\<close>

lemma addPidEntry_full:
  assumes "pids_wf s" and "ps_table s = Some t" and "firstFreePid t = - 1"
  shows "addPidEntry kmalloc child s = Done (ENPROC, s)"
  using plock_acquire_wf [OF assms(1)] plock_release_plocked [OF assms(1)] assms(2,3)
  by (simp add: addPidEntry_def)

lemma addPidEntry_eq:
  assumes wf: "pids_wf s" and t: "ps_table s = Some t" and i: "firstFreePid t = int i" "i < length (pid_procs t)"
    and c: "ps_procs s c = Some q"
    and q': "q' = q\<lparr>p_pid := int i, p_status := RUNNING, p_exitCode := 0\<rparr>"
    and t1: "t1 = t\<lparr>pid_procs := (pid_procs t)[i := Some c]\<rparr>"
  shows "addPidEntry kmalloc (Some c) s =
    bnd (add_child kmalloc (ps_curproc s) c ((plocked s)\<lparr>ps_procs := (ps_procs s)(c \<mapsto> q'), ps_table := Some t1\<rparr>))
      (\<lambda>(ret, s). bnd (bnd (findFirstFreePid s) plock_release) (\<lambda>s. Done (EOK, s)))"
proof -
  have set: "arr_set (pid_procs t) i (Some c) = Done ((pid_procs t)[i := Some c])" using i(2) by simp
  have upd: "proc_upd (\<lambda>q. q\<lparr>p_pid := int i, p_status := RUNNING, p_exitCode := 0\<rparr>) (Some c)
      ((plocked s)\<lparr>ps_table := Some t1\<rparr>)
    = Done ((plocked s)\<lparr>ps_procs := (ps_procs s)(c \<mapsto> q'), ps_table := Some t1\<rparr>)"
    using c by (simp add: proc_upd_Done q')
  show ?thesis
    using i(1) t set upd plock_acquire_wf [OF wf] by (simp add: addPidEntry_def t1 bnd_assoc)
qed

lemma addPidEntry_Done:
  assumes ok: "pids_ok s" and c: "ps_procs s c = Some q"
    and new: "\<And>t j. ps_table s = Some t \<Longrightarrow> 1 \<le> j \<Longrightarrow> j \<le> PID_MAX \<Longrightarrow> pid_procs t ! j \<noteq> Some c"
    and add: "addPidEntry kmalloc (Some c) s = Done (e, s')" and t: "ps_table s = Some t"
  shows "e = ENPROC \<and> s' = s \<and> firstFreePid t = - 1 \<or>
    e = EOK \<and> (\<exists>i h. firstFreePid t = int i \<and> 2 \<le> i \<and> i < PID_MAX
      \<and> upto_children ((ps_procs s)(c \<mapsto> q\<lparr>p_pid := int i, p_status := RUNNING, p_exitCode := 0\<rparr>)) h
      \<and> s' = s\<lparr>ps_procs := h, ps_table := Some (t\<lparr>pid_procs := (pid_procs t)[i := Some c],
                firstFreePid := pid_lowest h ((pid_procs t)[i := Some c])\<rparr>)\<rparr>
      \<and> pids_ok s')"
proof -
  have wf: "pids_wf s" using ok by (simp add: pids_ok_def)
  have tab: "pid_tab (ps_procs s) (pid_procs t)" and low: "firstFreePid t = pid_lowest (ps_procs s) (pid_procs t)"
    using pids_okE [OF ok] t by auto
  then have len: "length (pid_procs t) = Suc PID_MAX" by (simp add: pid_tab_def)
  show ?thesis
  proof (cases "firstFreePid t = - 1")
    case True
    then show ?thesis using add addPidEntry_full [OF wf t True] by simp
  next
    case False
    then obtain i where i: "firstFreePid t = int i" "2 \<le> i" "i < PID_MAX"
      using pid_lowest_cases [OF len, of "ps_procs s"] low by auto
    define procs where "procs = (pid_procs t)[i := Some c]"
    define q' where "q' = q\<lparr>p_pid := int i, p_status := RUNNING, p_exitCode := 0\<rparr>"
    define t1 where "t1 = t\<lparr>pid_procs := procs\<rparr>"
    define s1 where "s1 = (plocked s)\<lparr>ps_procs := (ps_procs s)(c \<mapsto> q'), ps_table := Some t1\<rparr>"
    have "bnd (add_child kmalloc (ps_curproc s) c s1)
        (\<lambda>(ret, s). bnd (bnd (findFirstFreePid s) plock_release) (\<lambda>s. Done (EOK, s))) = Done (e, s')"
      using add addPidEntry_eq [OF wf t i(1) _ c q'_def t1_def [unfolded procs_def]] i(3) len by (simp add: s1_def)
    then obtain ret s2 where s2: "add_child kmalloc (ps_curproc s) c s1 = Done (ret, s2)"
      and rest: "bnd (findFirstFreePid s2) plock_release = Done s'" "e = EOK"
      by (auto simp: bnd_Done_iff)
    obtain h where h: "s2 = s1\<lparr>ps_procs := h\<rparr>" "upto_children (ps_procs s1) h" by (rule add_child_Done [OF s2])
    have "pid_tab ((ps_procs s)(c \<mapsto> q')) procs"
      unfolding procs_def using new [OF t] by (intro pid_tab_insert [OF tab i(2,3) c]) (simp_all add: q'_def)
    then have tab': "pid_tab h procs" using pid_tab_upto [OF h(2)] by (simp add: s1_def)
    have "s2 = (plocked s)\<lparr>ps_procs := h, ps_table := Some t1\<rparr>" unfolding h(1) s1_def by simp
    then have s': "s' = s\<lparr>ps_procs := h, ps_table := Some (t1\<lparr>firstFreePid := pid_lowest h procs\<rparr>)\<rparr>"
      using refresh_unlock [OF wf t, of t1 h] tab' rest(1) by (simp add: t1_def)
    have "pids_ok s'" using wf t tab' unfolding s' by (auto simp: pids_ok_def pids_wf_def t1_def)
    then show ?thesis
      using rest(2) i h(2) s' by (intro disjI2 conjI exI [of _ i] exI [of _ h]) (simp_all add: s1_def t1_def procs_def q'_def)
  qed
qed

lemma cv_broadcast_wf:
  assumes "pids_wf s" and "ps_ft s' = ps_ft (plocked s)" and "ps_table s' = ps_table s" and "ps_cvs s' = ps_cvs s"
  shows "\<exists>c cv. cv_broadcast_pcv s' = Done (s'\<lparr>ps_cvs := (ps_cvs s)(c \<mapsto> cv)\<rparr>)"
  using assms(2-4)
  by (rule_tac pids_wfE [OF assms(1)])
     (auto simp: cv_broadcast_pcv_def plocked_def lock_do_i_hold_def lock_mine_def cv_wakeall_def)

lemma pid_tab_status:
  assumes "pid_tab h procs" and "h p = Some q" and "p_pid q' = p_pid q"
  shows "pid_tab (h(p \<mapsto> q')) procs"
  using assms unfolding pid_tab_def by fastforce

lemma pid_lowest_status:
  assumes "h p = Some q" and "p_status q \<noteq> AVAILABLE" and "p_status q' \<noteq> AVAILABLE"
  shows "pid_lowest (h(p \<mapsto> q')) procs = pid_lowest h procs"
proof -
  have "slot_free (h(p \<mapsto> q')) x = slot_free h x" for x
    using assms by (cases x) (auto simp: slot_free_def)
  then show ?thesis by (simp add: pid_lowest_def cong: find_index_cong)
qed

lemma pids_ok_change:
  assumes ok: "pids_ok s" and t: "ps_table s = Some t" "ps_table s' = Some t" and ft: "ps_ft s' = ps_ft s"
    and cvs: "\<And>c. ps_cvs s c \<noteq> None \<Longrightarrow> ps_cvs s' c \<noteq> None"
    and tab: "pid_tab (ps_procs s') (pid_procs t)"
    and low: "pid_lowest (ps_procs s') (pid_procs t) = pid_lowest (ps_procs s) (pid_procs t)"
  shows "pids_ok s'"
proof -
  obtain lk c cv where "plock t = Some lk" "ft_locks (ps_ft s) lk = Some lock_idle" "pcv t = Some c" "ps_cvs s c = Some cv"
    using ok t(1) by (auto simp: pids_ok_def pids_wf_def)
  then show ?thesis using ok t ft cvs [of c] tab low by (auto simp: pids_ok_def pids_wf_def)
qed

lemma pids_ok_procs:
  assumes "pids_ok s" and "upto_children (ps_procs s) h"
  shows "pids_ok (s\<lparr>ps_procs := h\<rparr>)"
proof -
  obtain t where t: "ps_table s = Some t" "pid_tab (ps_procs s) (pid_procs t)" by (rule pids_okE [OF assms(1)])
  then show ?thesis
    using pid_tab_upto [OF assms(2)] pid_lowest_upto [OF assms(2)]
    by (intro pids_ok_change [OF assms(1) t(1)]) simp_all
qed

lemma proc_exit_Done:
  assumes ok: "pids_ok s" and p: "ps_procs s p = Some q" "p_status q \<noteq> AVAILABLE"
    and exit: "proc_exit kmalloc (Some p) code s = Done (True, s')"
  shows "\<exists>h q'. upto_children (ps_procs s) h \<and> h p = Some q'
      \<and> ps_procs s' = h(p \<mapsto> q'\<lparr>p_status := ZOMBIE, p_exitCode := sint code\<rparr>)
      \<and> ps_table s' = ps_table s \<and> pids_ok s'"
proof -
  obtain arr :: "nat array" and master s1 where s1: "adopt_from kmalloc (Some p) master 0 (array_num arr) s = Done (True, s1)"
    and rest: "bnd (plock_acquire s1) (\<lambda>s.
      bnd (proc_upd (\<lambda>q. q\<lparr>p_status := ZOMBIE, p_exitCode := sint code\<rparr>) (Some p) s) (\<lambda>s.
      bnd (cv_broadcast_pcv s) (\<lambda>s. bnd (plock_release s) (\<lambda>s. Done (True, s))))) = Done (True, s')"
    using exit unfolding proc_exit_def by (elim bnd_DoneE) (auto split: if_splits)
  obtain h where h: "s1 = s\<lparr>ps_procs := h\<rparr>" "upto_children (ps_procs s) h"
    using adopt_from_Done [OF s1] by blast
  have ok1: "pids_ok s1" using pids_ok_procs [OF ok h(2)] h(1) by simp
  then have wf1: "pids_wf s1" by (simp add: pids_ok_def)
  obtain q' where q': "h p = Some q'" "p_status q' \<noteq> AVAILABLE"
    using upto_Some [OF h(2) p(1)] p(2) by auto
  define z where "z = q'\<lparr>p_status := ZOMBIE, p_exitCode := sint code\<rparr>"
  define s2 where "s2 = (plocked s1)\<lparr>ps_procs := h(p \<mapsto> z)\<rparr>"
  have upd: "proc_upd (\<lambda>q. q\<lparr>p_status := ZOMBIE, p_exitCode := sint code\<rparr>) (Some p) (plocked s1) = Done s2"
    using q'(1) by (simp add: proc_upd_Done s2_def z_def h(1))
  obtain c cv where c: "cv_broadcast_pcv s2 = Done (s2\<lparr>ps_cvs := (ps_cvs s1)(c \<mapsto> cv)\<rparr>)"
    using cv_broadcast_wf [OF wf1, of s2] by (auto simp: s2_def)
  define s3 where "s3 = s2\<lparr>ps_cvs := (ps_cvs s1)(c \<mapsto> cv)\<rparr>"
  obtain t where t: "ps_table s1 = Some t" "pid_tab (ps_procs s1) (pid_procs t)" by (rule pids_okE [OF ok1])
  have "plock_release s3 = Done (s3\<lparr>ps_ft := ps_ft s1\<rparr>)"
    using t(1) by (intro plock_release_wf [OF wf1, where t = t]) (simp_all add: s3_def s2_def)
  then have s': "s' = s3\<lparr>ps_ft := ps_ft s1\<rparr>"
    using rest plock_acquire_wf [OF wf1] upd c by (simp add: s3_def)
  have "pids_ok s'"
    using t q' pid_tab_status [of h "pid_procs t" p q' z] pid_lowest_status [of h p q' z]
    by (intro pids_ok_change [OF ok1 t(1)]) (simp_all add: s' s3_def s2_def h(1) z_def)
  then show ?thesis using h q'(1) by (intro exI conjI) (simp_all add: s' s3_def s2_def z_def)
qed

lemma proc_waitpid_zombie:
  assumes ok: "pids_ok s" and t: "ps_table s = Some t" and i: "1 \<le> i" "i \<le> PID_MAX" "pid_procs t ! i = Some p"
    and q: "ps_procs s p = Some q" "p_status q = ZOMBIE"
    and h: "h = (ps_procs s)(p \<mapsto> q\<lparr>p_status := AVAILABLE\<rparr>)"
  shows "proc_waitpid (int i) True s = Done (EOK, Some (word_of_int (p_exitCode q)),
      s\<lparr>ps_procs := h, ps_table := Some (t\<lparr>firstFreePid := pid_lowest h (pid_procs t)\<rparr>)\<rparr>)"
    and "pids_ok (s\<lparr>ps_procs := h, ps_table := Some (t\<lparr>firstFreePid := pid_lowest h (pid_procs t)\<rparr>)\<rparr>)"
proof -
  have wf: "pids_wf s" using ok by (simp add: pids_ok_def)
  have tab: "pid_tab (ps_procs s) (pid_procs t)" using wf t by (auto simp: pids_wf_def)
  then have tab': "pid_tab h (pid_procs t)" unfolding h using pid_tab_status [OF tab q(1)] by simp
  have slot: "pid_proc s' (int i) = Done (Some p)" if "ps_table s' = ps_table s" for s' :: "'a pstate"
    using tab i t that by (simp add: pid_proc_def pid_tab_def)
  have "pid_status (plocked s) (int i) = Done ZOMBIE"
    using slot [of "plocked s"] q by (simp add: pid_status_def proc_get_def)
  moreover have "reap (int i) (plocked s)
      = bnd (findFirstFreePid ((plocked s)\<lparr>ps_procs := h\<rparr>)) (\<lambda>s. Done (word_of_int (p_exitCode q), s))"
    using slot [of "plocked s"] q by (simp add: reap_def proc_upd_def proc_get_def h)
  moreover have "(plocked s)\<lparr>ps_procs := h\<rparr> = (plocked s)\<lparr>ps_procs := h, ps_table := Some t\<rparr>"
    using t by simp
  moreover obtain s3 where "findFirstFreePid ((plocked s)\<lparr>ps_procs := h, ps_table := Some t\<rparr>) = Done s3"
    "plock_release s3 = Done (s\<lparr>ps_procs := h, ps_table := Some (t\<lparr>firstFreePid := pid_lowest h (pid_procs t)\<rparr>)\<rparr>)"
    using refresh_unlock [OF wf t refl tab'] by (auto simp: bnd_Done_iff)
  ultimately show "proc_waitpid (int i) True s = Done (EOK, Some (word_of_int (p_exitCode q)),
      s\<lparr>ps_procs := h, ps_table := Some (t\<lparr>firstFreePid := pid_lowest h (pid_procs t)\<rparr>)\<rparr>)"
    using plock_acquire_wf [OF wf] plock_release_plocked [OF wf] by (simp add: proc_waitpid_def)
  show "pids_ok (s\<lparr>ps_procs := h, ps_table := Some (t\<lparr>firstFreePid := pid_lowest h (pid_procs t)\<rparr>)\<rparr>)"
    using wf t tab' by (auto simp: pids_ok_def pids_wf_def)
qed

lemma proc_waitpid_Done:
  assumes ok: "pids_ok s" and pid: "1 \<le> pid" and wait: "proc_waitpid pid canReap s = Done (e, code, s')"
  obtains i t p q where "pid = int i" and "1 \<le> i" and "i \<le> PID_MAX" and "ps_table s = Some t"
    and "pid_procs t ! i = Some p" and "ps_procs s p = Some q" and "p_status q = ZOMBIE"
proof -
  have wf: "pids_wf s" using ok by (simp add: pids_ok_def)
  obtain t where t: "ps_table s = Some t" "pid_tab (ps_procs s) (pid_procs t)" by (rule pids_okE [OF ok])
  have "pid_status (plocked s) pid = Done ZOMBIE"
    using wait plock_acquire_wf [OF wf] by (auto simp: proc_waitpid_def bnd_Done_iff split: if_splits)
  then obtain p q where p: "arr_get (pid_procs t) (nat pid) = Done (Some p)" "ps_procs s p = Some q" "p_status q = ZOMBIE"
    using t(1) by (auto simp: pid_status_def pid_proc_def bnd_Done_iff proc_get_Done split: if_splits)
  have "pid = int (nat pid)" "1 \<le> nat pid" using pid by simp_all
  moreover have "nat pid \<le> PID_MAX" "pid_procs t ! nat pid = Some p"
    using p(1) t(2) by (auto simp: arr_get_Done_iff pid_tab_def)
  ultimately show ?thesis using that [of "nat pid" t p q] t(1) p(2,3) by simp
qed

text \<open>Memory for a new process changes nothing for the table.\<close>

lemma pids_ok_new:
  assumes ok: "pids_ok s" and c: "ps_procs s c = None"
  shows "pids_ok (s\<lparr>ps_curproc := cur, ps_procs := (ps_procs s)(c \<mapsto> blank)\<rparr>)"
    and "ps_table s = Some t \<Longrightarrow> 1 \<le> j \<Longrightarrow> j \<le> PID_MAX \<Longrightarrow> pid_procs t ! j \<noteq> Some c"
proof -
  obtain t where t: "ps_table s = Some t" "pid_tab (ps_procs s) (pid_procs t)" by (rule pids_okE [OF ok])
  have no: "pid_procs t ! j \<noteq> Some c" if "1 \<le> j" "j \<le> PID_MAX" for j
    using t(2) c that unfolding pid_tab_def by fastforce
  then show "ps_table s = Some t' \<Longrightarrow> 1 \<le> j \<Longrightarrow> j \<le> PID_MAX \<Longrightarrow> pid_procs t' ! j \<noteq> Some c" for t' j
    using t(1) by simp
  have "pid_tab ((ps_procs s)(c \<mapsto> blank)) (pid_procs t)"
    using t(2) no c unfolding pid_tab_def by fastforce
  moreover have "slot_free ((ps_procs s)(c \<mapsto> blank)) x = slot_free (ps_procs s) x"
    if "x \<in> set (map ((!) (pid_procs t)) [2..<PID_MAX])" for x
    using that no by (auto simp: slot_free_def split: option.split)
  then have "pid_lowest ((ps_procs s)(c \<mapsto> blank)) (pid_procs t) = pid_lowest (ps_procs s) (pid_procs t)"
    unfolding pid_lowest_def by (subst find_index_cong) auto
  ultimately show "pids_ok (s\<lparr>ps_curproc := cur, ps_procs := (ps_procs s)(c \<mapsto> blank)\<rparr>)"
    using t by (intro pids_ok_change [OF ok t(1)]) simp_all
qed

lemma pids_ok_cur: "pids_ok s \<Longrightarrow> pids_ok (s\<lparr>ps_curproc := cur\<rparr>)"
  by (auto simp: pids_ok_def pids_wf_def)

text \<open>One step keeps the invariant, and every exit code that is not collected by it.\<close>

lemma fork_step:
  assumes ok: "pids_ok s" and c: "ps_procs s c = None"
    and add: "addPidEntry kmalloc (Some c) (s\<lparr>ps_curproc := Some p, ps_procs := (ps_procs s)(c \<mapsto> blank)\<rparr>) = Done (EOK, s')"
  shows "pids_ok s'" and "zombie s i e \<Longrightarrow> zombie s' i e"
proof -
  let ?s = "s\<lparr>ps_curproc := Some p, ps_procs := (ps_procs s)(c \<mapsto> blank)\<rparr>"
  have ok': "pids_ok ?s" by (rule pids_ok_new(1) [OF ok c])
  obtain t where t: "ps_table s = Some t" "pid_tab (ps_procs s) (pid_procs t)"
    "firstFreePid t = pid_lowest (ps_procs s) (pid_procs t)"
    by (rule pids_okE [OF ok])
  have len: "length (pid_procs t) = Suc PID_MAX" using t(2) by (simp add: pid_tab_def)
  obtain k h where k: "firstFreePid t = int k" "2 \<le> k" "k < PID_MAX"
    and h: "upto_children ((ps_procs ?s)(c \<mapsto> blank\<lparr>p_pid := int k, p_status := RUNNING, p_exitCode := 0\<rparr>)) h"
    and s': "s' = ?s\<lparr>ps_procs := h, ps_table := Some (t\<lparr>pid_procs := (pid_procs t)[k := Some c],
                firstFreePid := pid_lowest h ((pid_procs t)[k := Some c])\<rparr>)\<rparr>" "pids_ok s'"
    using addPidEntry_Done [OF ok' _ _ add, of blank t] pids_ok_new(2) [OF ok c] t(1) by auto
  show "pids_ok s'" by (rule s'(2))
  assume "zombie s i e"
  then obtain r q where i: "1 \<le> i" "i \<le> PID_MAX" and r: "pid_procs t ! i = Some r" "ps_procs s r = Some q"
    "p_status q = ZOMBIE" "p_exitCode q = e"
    using t(1) by (auto simp: zombie_def)
  have "slot_free (ps_procs s) (pid_procs t ! k)"
    using pid_lowest_cases [OF len, of "ps_procs s"] k(1) t(3) by auto
  then have "k \<noteq> i" using r by (auto simp: slot_free_def)
  have "r \<noteq> c" using r(2) c by auto
  then obtain arr where "h r = Some (q\<lparr>p_children := arr\<rparr>)" using upto_Some [OF h, of r q] r(2) by auto
  then show "zombie s' i e"
    using i r \<open>k \<noteq> i\<close> by (simp add: zombie_def s'(1))
qed

lemma exit_step:
  assumes ok: "pids_ok s" and p: "ps_procs s p = Some q" "p_status q = RUNNING"
    and exit: "proc_exit kmalloc (Some p) code (s\<lparr>ps_curproc := Some p\<rparr>) = Done (True, s')"
  shows "pids_ok s'" and "zombie s i e \<Longrightarrow> zombie s' i e"
    and "ps_table s = Some t \<Longrightarrow> 1 \<le> i \<Longrightarrow> i \<le> PID_MAX \<Longrightarrow> pid_procs t ! i = Some p \<Longrightarrow> zombie s' i (sint code)"
proof -
  obtain h q' where h: "upto_children (ps_procs s) h" "h p = Some q'"
    and s': "ps_procs s' = h(p \<mapsto> q'\<lparr>p_status := ZOMBIE, p_exitCode := sint code\<rparr>)" "ps_table s' = ps_table s" "pids_ok s'"
    using proc_exit_Done [OF pids_ok_cur [OF ok] _ _ exit] p by auto
  show "pids_ok s'" by (rule s'(3))
  show "ps_table s = Some t \<Longrightarrow> 1 \<le> i \<Longrightarrow> i \<le> PID_MAX \<Longrightarrow> pid_procs t ! i = Some p \<Longrightarrow> zombie s' i (sint code)"
    using s'(1,2) by (simp add: zombie_def)
  assume "zombie s i e"
  then obtain t r q2 where i: "1 \<le> i" "i \<le> PID_MAX" and r: "ps_table s = Some t" "pid_procs t ! i = Some r"
    "ps_procs s r = Some q2" "p_status q2 = ZOMBIE" "p_exitCode q2 = e"
    by (auto simp: zombie_def)
  have "r \<noteq> p" using r(3,4) p by auto
  then obtain arr where "ps_procs s' r = Some (q2\<lparr>p_children := arr\<rparr>)"
    using upto_Some [OF h(1) r(3)] s'(1) by auto
  then show "zombie s' i e" using i r s'(2) by (simp add: zombie_def)
qed

lemma wait_step:
  assumes ok: "pids_ok s" and pid: "1 \<le> pid"
    and wait: "proc_waitpid pid True (s\<lparr>ps_curproc := cur\<rparr>) = Done (e0, Some code, s')"
  shows "pids_ok s'" and "zombie s i e \<Longrightarrow> zombie s' i e \<or> pid = int i \<and> code = word_of_int e"
proof -
  let ?s = "s\<lparr>ps_curproc := cur\<rparr>"
  have ok': "pids_ok ?s" by (rule pids_ok_cur [OF ok])
  obtain k t p q where k: "pid = int k" "1 \<le> k" "k \<le> PID_MAX" "ps_table ?s = Some t" "pid_procs t ! k = Some p"
    "ps_procs ?s p = Some q" "p_status q = ZOMBIE"
    by (rule proc_waitpid_Done [OF ok' pid wait])
  let ?h = "(ps_procs ?s)(p \<mapsto> q\<lparr>p_status := AVAILABLE\<rparr>)"
  have s': "code = word_of_int (p_exitCode q)"
    "s' = ?s\<lparr>ps_procs := ?h, ps_table := Some (t\<lparr>firstFreePid := pid_lowest ?h (pid_procs t)\<rparr>)\<rparr>" "pids_ok s'"
    using proc_waitpid_zombie [OF ok' k(4,2,3,5,6,7) refl] wait k(1) by simp_all
  show "pids_ok s'" by (rule s'(3))
  assume "zombie s i e"
  then obtain r q2 where i: "1 \<le> i" "i \<le> PID_MAX" and r: "pid_procs t ! i = Some r"
    "ps_procs s r = Some q2" "p_status q2 = ZOMBIE" "p_exitCode q2 = e"
    using k(4) by (auto simp: zombie_def)
  show "zombie s' i e \<or> pid = int i \<and> code = word_of_int e"
  proof (cases "r = p")
    case True
    have "pid_tab (ps_procs s) (pid_procs t)" using ok k(4) by (auto simp: pids_ok_def pids_wf_def)
    then have "p_pid q = int k" "p_pid q2 = int i" using k i r unfolding pid_tab_def by fastforce+
    then show ?thesis using True k(1,6) r(2,4) s'(1) by simp
  next
    case False
    then show ?thesis using i r by (simp add: zombie_def s'(2))
  qed
qed

lemma proc_step_ok:
  assumes "proc_step s ev s'" and "pids_ok s"
  shows "pids_ok s'" and "zombie s i e \<Longrightarrow> zombie s' i e \<or> ev = Waited (int i) (word_of_int e)"
  using assms
proof (atomize (full), cases rule: proc_step.cases)
  case (fork p q c kmalloc blank)
  then show "pids_ok s' \<and> (zombie s i e \<longrightarrow> zombie s' i e \<or> ev = Waited (int i) (word_of_int e))"
    using fork_step [OF assms(2)] by blast
next
  case (exit p q kmalloc code)
  then show "pids_ok s' \<and> (zombie s i e \<longrightarrow> zombie s' i e \<or> ev = Waited (int i) (word_of_int e))"
    using exit_step [OF assms(2)] by blast
next
  case (wait p q pid code)
  then show "pids_ok s' \<and> (zombie s i e \<longrightarrow> zombie s' i e \<or> ev = Waited (int i) (word_of_int e))"
    using wait_step [OF assms(2) wait(4,5)] by blast
qed

lemma pid_table_init_ok:
  assumes "pid_table_init True (Some lk) (Some cv) garbage0 s0 = Done s"
  shows "pids_ok s"
proof -
  obtain k q where k: "ps_kproc s0 = Some k" "ps_procs s0 k = Some q"
    using assms by (auto simp: pid_table_init_def proc_upd_def bnd_Done_iff deref_Done_iff)
  define procs where "procs = garbage0 # Some k # replicate (PID_MAX - 1) None"
  define h where "h = (ps_procs s0)(k \<mapsto> q\<lparr>p_pid := 1\<rparr>)"
  have s: "ps_table s = Some \<lparr>firstFreePid = 2, pid_procs = procs, plock = Some lk, pcv = Some cv\<rparr>"
    "ps_procs s = h" "ft_locks (ps_ft s) lk = Some lock_idle" "ps_cvs s cv = Some \<lparr>cv_wchan = []\<rparr>"
    using assms k by (auto simp: pid_table_init_def proc_upd_def procs_def h_def)
  have "2 < PID_MAX" by (simp add: PID_MAX_def)
  have slot: "procs ! i = (if i = 1 then Some k else None)" if "1 \<le> i" "i \<le> PID_MAX" for i
    using that by (cases i; cases "i - 1") (simp_all add: procs_def)
  have "length procs = Suc PID_MAX" using \<open>2 < PID_MAX\<close> by (simp add: procs_def)
  then have "pid_tab h procs" using slot by (auto simp: pid_tab_def h_def split: if_splits)
  moreover have "pid_lowest h procs = 2"
    using slot [of 2] \<open>2 < PID_MAX\<close> by (simp add: pid_lowest_def upt_conv_Cons [of 2 PID_MAX] slot_free_def)
  ultimately show ?thesis using s by (simp add: pids_ok_def pids_wf_def)
qed

lemma proc_reach_ok: "proc_reach s \<Longrightarrow> pids_ok s"
  by (induction rule: proc_reach.induct) (auto intro: pid_table_init_ok proc_step_ok(1))

lemma proc_run_zombie:
  assumes "proc_run s evs s'" and "pids_ok s" and "zombie s i e" and "Waited (int i) (word_of_int e) \<notin> set evs"
  shows "pids_ok s' \<and> zombie s' i e"
  using assms
proof (induction rule: proc_run.induct)
  case (more s ev s' evs s'')
  then show ?case using proc_step_ok [OF more.hyps(1)] by auto
qed simp

lemma add_child_ok:
  assumes "ps_procs s p = Some r" and "p_children r = Some arr" and "array_ok arr" and "array_num arr < 2 ^ 29"
    and "kmalloc_cells kmalloc"
  shows "\<exists>ret arr'. add_child kmalloc (Some p) c s
      = Done (ret, s\<lparr>ps_procs := (ps_procs s)(p \<mapsto> r\<lparr>p_children := Some arr'\<rparr>)\<rparr>)
    \<and> array_ok arr' \<and> (ret = ENOMEM \<and> arr' = arr \<or> ret = EOK \<and> array_list arr' = array_list arr @ [c])"
  using array_add_cases [OF assms(3,5,4), of c]
proof (elim disjE exE conjE)
  assume "array_add kmalloc arr c = Done (ENOMEM, array_num arr, arr)"
  then have "add_child kmalloc (Some p) c s
      = Done (ENOMEM, s\<lparr>ps_procs := (ps_procs s)(p \<mapsto> r\<lparr>p_children := Some arr\<rparr>)\<rparr>)"
    using assms(1,2) by (simp add: add_child_def proc_get_def proc_upd_def)
  then show ?thesis using assms(3) by blast
next
  fix arr' assume a: "array_add kmalloc arr c = Done (EOK, array_num arr, arr')" "array_ok arr'"
    "array_list arr' = array_list arr @ [c]"
  then have "add_child kmalloc (Some p) c s
      = Done (EOK, s\<lparr>ps_procs := (ps_procs s)(p \<mapsto> r\<lparr>p_children := Some arr'\<rparr>)\<rparr>)"
    using assms(1,2) by (simp add: add_child_def proc_get_def proc_upd_def)
  then show ?thesis using a(2,3) by blast
qed

text \<open>The search for a child, in a table whose lock is free.\<close>

lemma isChild_search:
  assumes wf: "pids_wf s" and p: "ps_procs s p = Some r" "p_children r = Some arr" "array_ok arr"
    and dom: "set (array_list arr) \<subseteq> dom (ps_procs s)"
  shows "isChild (Some p) pid s = Done (\<exists>c \<in> set (array_list arr). p_pid (the (ps_procs s c)) = pid, s)"
proof -
  have "search_from (array_get arr) (\<lambda>c. bnd (deref (ps_procs s c)) (\<lambda>child. Done (p_pid child = pid))) 0 (array_num arr)
      = Done (find_index (\<lambda>c. p_pid (the (ps_procs s c)) = pid) (array_list arr))"
    using p(3) dom by (intro arr.search_elems) auto
  then have "child_index (plocked s) (Some p) pid = Done (find_index (\<lambda>c. p_pid (the (ps_procs s c)) = pid) (array_list arr))"
    using p(1,2) by (simp add: child_index_def proc_get_def)
  moreover have "find_index (\<lambda>c. p_pid (the (ps_procs s c)) = pid) (array_list arr) \<noteq> None
      \<longleftrightarrow> (\<exists>c \<in> set (array_list arr). p_pid (the (ps_procs s c)) = pid)"
    unfolding find_index_None by blast
  ultimately show ?thesis
    using plock_acquire_wf [OF wf] plock_release_plocked [OF wf] by (simp add: isChild_def)
qed

text \<open>\<open>addPidEntry\<close>, with what it leaves as it was.\<close>

lemma addPidEntry_ok:
  assumes "pids_ok s" and "ps_table s = Some t" and "ps_procs s c = Some q"
    and "\<forall>j. 1 \<le> j \<and> j \<le> PID_MAX \<longrightarrow> pid_procs t ! j \<noteq> Some c"
    and "ps_curproc s = Some p" and "p \<noteq> c" and "ps_procs s p = Some r" and "p_children r = Some arr"
    and "array_ok arr" and "array_num arr < 2 ^ 29" and "kmalloc_cells kmalloc"
  shows "addPidEntry kmalloc (Some c) s = Done (ENPROC, s)
      \<and> (\<forall>i. 2 \<le> i \<and> i < PID_MAX \<longrightarrow> \<not> slot_free (ps_procs s) (pid_procs t ! i))
    \<or> (\<exists>i s' t' arr'. addPidEntry kmalloc (Some c) s = Done (EOK, s') \<and> pids_ok s'
      \<and> 2 \<le> i \<and> i < PID_MAX \<and> slot_free (ps_procs s) (pid_procs t ! i)
      \<and> (\<forall>j. 2 \<le> j \<and> j < i \<longrightarrow> \<not> slot_free (ps_procs s) (pid_procs t ! j))
      \<and> ps_table s' = Some t' \<and> s' = s\<lparr>ps_procs := ps_procs s', ps_table := Some t'\<rparr> \<and> plock t' = plock t \<and> pid_procs t' = (pid_procs t)[i := Some c]
      \<and> ps_procs s' = (ps_procs s)(c \<mapsto> q\<lparr>p_pid := int i, p_status := RUNNING, p_exitCode := 0\<rparr>,
                                   p \<mapsto> r\<lparr>p_children := Some arr'\<rparr>)
      \<and> (array_list arr' = array_list arr @ [c] \<or> array_list arr' = array_list arr))"
proof (cases "firstFreePid t = - 1")
  have wf: "pids_wf s" using assms(1) by (simp add: pids_ok_def)
  have tab: "pid_tab (ps_procs s) (pid_procs t)" and low: "firstFreePid t = pid_lowest (ps_procs s) (pid_procs t)"
    using pids_okE [OF assms(1)] assms(2) by auto
  then have len: "length (pid_procs t) = Suc PID_MAX" by (simp add: pid_tab_def)
  note cases = pid_lowest_cases [OF len, of "ps_procs s", folded low]
  {
    case True
    then show ?thesis using cases addPidEntry_full [OF wf assms(2) True] by auto
  next
    case False
    then obtain i where i: "firstFreePid t = int i" "2 \<le> i" "i < PID_MAX" "slot_free (ps_procs s) (pid_procs t ! i)"
      "\<forall>j. 2 \<le> j \<longrightarrow> j < i \<longrightarrow> \<not> slot_free (ps_procs s) (pid_procs t ! j)"
      using cases by blast
    define q' where "q' = q\<lparr>p_pid := int i, p_status := RUNNING, p_exitCode := 0\<rparr>"
    define t1 where "t1 = t\<lparr>pid_procs := (pid_procs t)[i := Some c]\<rparr>"
    define s1 where "s1 = (plocked s)\<lparr>ps_procs := (ps_procs s)(c \<mapsto> q'), ps_table := Some t1\<rparr>"
    have "ps_procs s1 p = Some r" using assms(6,7) by (simp add: s1_def)
    then obtain ret arr' where arr': "add_child kmalloc (Some p) c s1
        = Done (ret, s1\<lparr>ps_procs := (ps_procs s1)(p \<mapsto> r\<lparr>p_children := Some arr'\<rparr>)\<rparr>)"
      "array_list arr' = array_list arr @ [c] \<or> array_list arr' = array_list arr"
      using add_child_ok [OF _ assms(8-11), of s1 p c] by auto
    define h where "h = (ps_procs s)(c \<mapsto> q', p \<mapsto> r\<lparr>p_children := Some arr'\<rparr>)"
    have "pid_tab ((ps_procs s)(c \<mapsto> q')) ((pid_procs t)[i := Some c])"
      using assms(4) by (intro pid_tab_insert [OF tab i(2,3) assms(3)]) (simp_all add: q'_def)
    then have tab': "pid_tab h (pid_procs t1)"
      unfolding h_def using assms(6,7) by (intro pid_tab_status [of _ _ p r]) (simp_all add: t1_def)
    define s' where "s' = s\<lparr>ps_procs := h, ps_table := Some (t1\<lparr>firstFreePid := pid_lowest h (pid_procs t1)\<rparr>)\<rparr>"
    have "s1\<lparr>ps_procs := (ps_procs s1)(p \<mapsto> r\<lparr>p_children := Some arr'\<rparr>)\<rparr>
        = (plocked s)\<lparr>ps_procs := h, ps_table := Some t1\<rparr>"
      by (simp add: s1_def h_def)
    then have "addPidEntry kmalloc (Some c) s = Done (EOK, s')"
      using addPidEntry_eq [OF wf assms(2) i(1) _ assms(3) q'_def t1_def] refresh_unlock [OF wf assms(2) _ tab'] i(3) len arr'(1) assms(5)
      by (simp add: s1_def s'_def t1_def)
    moreover have "pids_ok s'" using wf assms(2) tab' by (auto simp: pids_ok_def pids_wf_def s'_def t1_def)
    ultimately show ?thesis
      using i arr'(2) by (intro disjI2 exI [of _ i] exI [of _ s'] exI [of _ "the (ps_table s')"] exI [of _ arr'])
        (simp add: s'_def t1_def h_def q'_def)
  }
qed

section \<open>Properties\<close>

text \<open>
  The exit code reaches the one who waits. A running process that has the number \<open>i\<close> exits with a
  code; after that the processes of the system take any steps, forks, exits and waits, as long as
  nobody collects that code; then \<open>proc_waitpid\<close> for the number \<open>i\<close> returns at once with the code the
  process exited with, and makes the number available again.
\<close>

theorem exit_code_delivered:
  assumes "pids_ok s" and "ps_table s = Some t" and "1 \<le> i" and "i \<le> PID_MAX" and "pid_procs t ! i = Some p"
    and "ps_procs s p = Some q" and "p_status q = RUNNING"
    and "proc_exit kmalloc (Some p) code (s\<lparr>ps_curproc := Some p\<rparr>) = Done (True, s1)"
    and "proc_run s1 evs s2" and "Waited (int i) code \<notin> set evs"
  shows "\<exists>s3 t'. proc_waitpid (int i) True s2 = Done (EOK, Some code, s3) \<and> pids_ok s3
    \<and> ps_table s3 = Some t' \<and> slot_free (ps_procs s3) (pid_procs t' ! i)"
proof -
  have code: "word_of_int (sint code) = code" by simp
  have "pids_ok s1" "zombie s1 i (sint code)"
    using exit_step [OF assms(1,6,7,8)] assms(2-5) by blast+
  then have "pids_ok s2" "zombie s2 i (sint code)"
    using proc_run_zombie [OF assms(9)] assms(10) by simp_all
  then obtain t2 r q2 where r: "ps_table s2 = Some t2" "pid_procs t2 ! i = Some r" "ps_procs s2 r = Some q2"
    "p_status q2 = ZOMBIE" "p_exitCode q2 = sint code"
    unfolding zombie_def by blast
  define h where "h = (ps_procs s2)(r \<mapsto> q2\<lparr>p_status := AVAILABLE\<rparr>)"
  define t' where "t' = t2\<lparr>firstFreePid := pid_lowest h (pid_procs t2)\<rparr>"
  define s3 where "s3 = s2\<lparr>ps_procs := h, ps_table := Some t'\<rparr>"
  have "proc_waitpid (int i) True s2 = Done (EOK, Some code, s3)" "pids_ok s3"
    using proc_waitpid_zombie [OF \<open>pids_ok s2\<close> r(1) assms(3,4) r(2-4) h_def] r(5)
    by (simp_all add: s3_def t'_def)
  moreover have "ps_table s3 = Some t'" "slot_free (ps_procs s3) (pid_procs t' ! i)"
    using r(2) by (simp_all add: s3_def t'_def h_def slot_free_def)
  ultimately show ?thesis by blast
qed

text \<open>A kernel that has just booted, with the kernel process at address 100.\<close>

definition demo_proc :: proc where
  "demo_proc = \<lparr>p_name = ''[kernel]'', p_threads = array_init, p_addrspace = None, p_cwd = None,
     p_ft = \<lparr>ftp = [], firstFreeSpot = 3\<rparr>, p_children = Some array_init, p_pid = 0, p_status = RUNNING, p_exitCode = 0\<rparr>"

definition demo_boot :: "unit pstate" where
  "demo_boot = \<lparr>ps_procs = [100 \<mapsto> demo_proc], ps_kproc = Some 100, ps_curproc = Some 100, ps_table = None,
     ps_ft = \<lparr>ft_heap = Map.empty, ft_locks = Map.empty, ft_me = 1\<rparr>, ps_cvs = Map.empty,
     ps_vnodes = Map.empty, ps_threads = Map.empty, ps_vm = ()\<rparr>"

definition demo_procs :: "nat option list" where
  "demo_procs = None # Some 100 # replicate (PID_MAX - 1) None"

definition demo_booted :: "unit pstate" where
  "demo_booted = demo_boot\<lparr>ps_procs := [100 \<mapsto> demo_proc\<lparr>p_pid := 1\<rparr>],
     ps_ft := \<lparr>ft_heap = Map.empty, ft_locks = [7 \<mapsto> lock_idle], ft_me = 1\<rparr>, ps_cvs := [8 \<mapsto> \<lparr>cv_wchan = []\<rparr>],
     ps_table := Some \<lparr>firstFreePid = 2, pid_procs = demo_procs, plock = Some 7, pcv = Some 8\<rparr>\<rparr>"

lemma demo_booted_boot: "pid_table_init True (Some 7) (Some 8) None demo_boot = Done demo_booted"
  by (simp add: pid_table_init_def demo_boot_def demo_booted_def demo_procs_def proc_upd_def)

lemma demo_procs_nth [simp]: "demo_procs ! 1 = Some 100" "demo_procs ! Suc 0 = Some 100" "length demo_procs = Suc PID_MAX"
  by (simp_all add: demo_procs_def PID_MAX_def)

lemma demo_booted_facts:
  "ps_table demo_booted = Some \<lparr>firstFreePid = 2, pid_procs = demo_procs, plock = Some 7, pcv = Some 8\<rparr>"
  "ps_procs demo_booted 100 = Some (demo_proc\<lparr>p_pid := 1\<rparr>)"
  by (simp_all add: demo_booted_def)

lemma demo_booted_exit:
  "\<exists>s. proc_exit (\<lambda>n. None) (Some 100) 7 (demo_booted\<lparr>ps_curproc := Some 100\<rparr>) = Done (True, s)"
  by (simp add: proc_exit_def proc_get_def demo_booted_def demo_boot_def demo_proc_def array_num_def array_init_def
      arr_get_def adopt_from.simps plock_acquire_def proc_upd_def cv_broadcast_pcv_def lock_acquire_def
      lock_round_def lock_idle_def lock_do_i_hold_def plock_release_def lock_release_def)

theorem exit_code_delivered_witness:
  "\<exists>s1 s3. proc_exit (\<lambda>n. None) (Some 100) 7 (demo_booted\<lparr>ps_curproc := Some 100\<rparr>) = Done (True, s1)
     \<and> proc_waitpid 1 True s1 = Done (EOK, Some 7, s3)"
proof -
  obtain s1 where s1: "proc_exit (\<lambda>n. None) (Some 100) 7 (demo_booted\<lparr>ps_curproc := Some 100\<rparr>) = Done (True, s1)"
    using demo_booted_exit by blast
  have "\<exists>s3 t'. proc_waitpid (int 1) True s1 = Done (EOK, Some 7, s3) \<and> pids_ok s3
    \<and> ps_table s3 = Some t' \<and> slot_free (ps_procs s3) (pid_procs t' ! 1)"
    by (rule exit_code_delivered [OF pid_table_init_ok [OF demo_booted_boot] demo_booted_facts(1) _ _ _ demo_booted_facts(2) _ s1 proc_run.none])
       (simp_all add: demo_proc_def PID_MAX_def)
  then show ?thesis using s1 by auto
qed



text \<open>
  \<open>addPidEntry\<close> either finds no free number, fails with \<open>ENPROC\<close> and changes nothing, or gives the
  new process the lowest free number, enters it in the table, sets it running, and keeps the table
  well formed. The new process becomes the last child of the current process, unless there is no
  memory for the longer array: then the call succeeds all the same and the child is not recorded.
  Nothing but the records of the two processes and the table changes.
\<close>

theorem addPidEntry_lowest:
  assumes "pids_ok s" and "ps_table s = Some t" and "ps_procs s c = Some q"
    and "\<forall>j. 1 \<le> j \<and> j \<le> PID_MAX \<longrightarrow> pid_procs t ! j \<noteq> Some c"
    and "ps_curproc s = Some p" and "p \<noteq> c" and "ps_procs s p = Some r" and "p_children r = Some arr"
    and "array_ok arr" and "array_num arr < 2 ^ 29" and "kmalloc_cells kmalloc"
  shows "addPidEntry kmalloc (Some c) s = Done (ENPROC, s)
      \<and> (\<forall>i. 2 \<le> i \<and> i < PID_MAX \<longrightarrow> \<not> slot_free (ps_procs s) (pid_procs t ! i))
    \<or> (\<exists>i s' t' arr'. addPidEntry kmalloc (Some c) s = Done (EOK, s') \<and> pids_ok s'
      \<and> 2 \<le> i \<and> i < PID_MAX \<and> slot_free (ps_procs s) (pid_procs t ! i)
      \<and> (\<forall>j. 2 \<le> j \<and> j < i \<longrightarrow> \<not> slot_free (ps_procs s) (pid_procs t ! j))
      \<and> ps_table s' = Some t' \<and> s' = s\<lparr>ps_procs := ps_procs s', ps_table := Some t'\<rparr> \<and> plock t' = plock t \<and> pid_procs t' = (pid_procs t)[i := Some c]
      \<and> ps_procs s' = (ps_procs s)(c \<mapsto> q\<lparr>p_pid := int i, p_status := RUNNING, p_exitCode := 0\<rparr>,
                                   p \<mapsto> r\<lparr>p_children := Some arr'\<rparr>)
      \<and> (array_list arr' = array_list arr @ [c] \<or> array_list arr' = array_list arr))"
  by (rule addPidEntry_ok [OF assms])

theorem addPidEntry_lowest_witness:
  "\<exists>s'. addPidEntry (\<lambda>n. Some (replicate (n div 4) 0)) (Some 200)
      (demo_booted\<lparr>ps_curproc := Some 100, ps_procs := (ps_procs demo_booted)(200 \<mapsto> demo_proc)\<rparr>) = Done (EOK, s')
    \<and> map_option p_pid (ps_procs s' 200) = Some 2"
proof -
  let ?s = "demo_booted\<lparr>ps_curproc := Some 100, ps_procs := (ps_procs demo_booted)(200 \<mapsto> demo_proc)\<rparr>"
  have new: "ps_procs demo_booted 200 = None" by (simp add: demo_booted_def)
  note demo = pids_ok_new [OF pid_table_init_ok [OF demo_booted_boot] new]
  have free: "slot_free h (demo_procs ! 2)" "2 < PID_MAX" for h
    by (simp_all add: demo_procs_def slot_free_def PID_MAX_def)
  have km: "kmalloc_cells (\<lambda>n. Some (replicate (n div 4) (0 :: nat)))" by (simp add: kmalloc_cells_def)
  have num: "array_num (array_init :: nat array) < 2 ^ 29" by (simp add: array_num_def array_init_def)
  have facts: "ps_table ?s = Some \<lparr>firstFreePid = 2, pid_procs = demo_procs, plock = Some 7, pcv = Some 8\<rparr>"
    "ps_procs ?s 200 = Some demo_proc" "ps_procs ?s 100 = Some (demo_proc\<lparr>p_pid := 1\<rparr>)"
    "ps_curproc ?s = Some 100" "p_children (demo_proc\<lparr>p_pid := 1\<rparr>) = Some array_init" "(100 :: nat) \<noteq> 200"
    by (simp_all add: demo_booted_facts demo_proc_def)
  have "\<forall>j. 1 \<le> j \<and> j \<le> PID_MAX \<longrightarrow>
      pid_procs \<lparr>firstFreePid = 2, pid_procs = demo_procs, plock = Some 7, pcv = Some 8\<rparr> ! j \<noteq> Some 200"
    using demo(2) [OF demo_booted_facts(1)] by blast
  from addPidEntry_lowest [OF demo(1) facts(1,2) this facts(4,6,3,5) array_ok_init num km]
  have r: "(\<forall>i. 2 \<le> i \<and> i < PID_MAX \<longrightarrow> \<not> slot_free (ps_procs ?s) (demo_procs ! i))
    \<or> (\<exists>i s'. addPidEntry (\<lambda>n. Some (replicate (n div 4) 0)) (Some 200) ?s = Done (EOK, s')
      \<and> 2 \<le> i \<and> (\<forall>j. 2 \<le> j \<and> j < i \<longrightarrow> \<not> slot_free (ps_procs ?s) (demo_procs ! j))
      \<and> map_option p_pid (ps_procs s' 200) = Some (int i))"
    by (elim disjE exE conjE) auto
  then obtain i s' where s': "addPidEntry (\<lambda>n. Some (replicate (n div 4) 0)) (Some 200) ?s = Done (EOK, s')" "2 \<le> i"
    "\<forall>j. 2 \<le> j \<and> j < i \<longrightarrow> \<not> slot_free (ps_procs ?s) (demo_procs ! j)" "map_option p_pid (ps_procs s' 200) = Some (int i)"
    using free by blast
  have "i = 2" using s'(2,3) free(1) by (metis le_neq_implies_less order_refl)
  then show ?thesis using s'(1,4) by simp
qed

text \<open>
  C36: a process that has been reaped stays among the children of its parent: after \<open>proc_waitpid\<close> has
  freed the number, \<open>isChild\<close> still answers yes for it, although the number is now given to the next
  process anybody creates when it is the lowest free one.
\<close>

theorem reaped_still_child:
  assumes "pids_ok s" and "zombie s i e" and "ps_table s = Some t" and "pid_procs t ! i = Some c"
    and "ps_procs s p = Some r" and "p_children r = Some arr" and "array_ok arr"
    and "set (array_list arr) \<subseteq> dom (ps_procs s)" and "c \<in> set (array_list arr)"
  shows "\<exists>s'. proc_waitpid (int i) True s = Done (EOK, Some (word_of_int e), s')
    \<and> isChild (Some p) (int i) s' = Done (True, s')
    \<and> (\<exists>t'. ps_table s' = Some t' \<and> slot_free (ps_procs s') (pid_procs t' ! i))"
proof -
  obtain q where i: "1 \<le> i" "i \<le> PID_MAX" and q: "ps_procs s c = Some q" "p_status q = ZOMBIE" "p_exitCode q = e"
    using assms(2-4) by (auto simp: zombie_def)
  define h where "h = (ps_procs s)(c \<mapsto> q\<lparr>p_status := AVAILABLE\<rparr>)"
  define t' where "t' = t\<lparr>firstFreePid := pid_lowest h (pid_procs t)\<rparr>"
  define s' where "s' = s\<lparr>ps_procs := h, ps_table := Some t'\<rparr>"
  have wait: "proc_waitpid (int i) True s = Done (EOK, Some (word_of_int e), s')" and ok': "pids_ok s'"
    using proc_waitpid_zombie [OF assms(1,3) i assms(4) q(1,2) h_def] q(3) by (simp_all add: s'_def t'_def)
  have wf': "pids_wf s'" using ok' by (simp add: pids_ok_def)
  have "pid_tab (ps_procs s) (pid_procs t)" using pids_okE [OF assms(1)] assms(3) by auto
  then have pid: "p_pid (the (h c)) = int i" using i assms(4) q(1) by (auto simp: pid_tab_def h_def)
  obtain r' where r': "ps_procs s' p = Some r'" "p_children r' = Some arr" using assms(5,6) q(1) by (cases "p = c") (auto simp: s'_def h_def)
  have "set (array_list arr) \<subseteq> dom (ps_procs s')" using assms(8) by (auto simp: s'_def h_def)
  moreover have "\<exists>c \<in> set (array_list arr). p_pid (the (ps_procs s' c)) = int i" using assms(9) pid by (auto simp: s'_def)
  ultimately have "isChild (Some p) (int i) s' = Done (True, s')" using isChild_search [OF wf' r' assms(7)] by simp
  moreover have "slot_free (ps_procs s') (pid_procs t' ! i)" using assms(4) by (simp add: slot_free_def s'_def t'_def h_def)
  ultimately show ?thesis using wait by (auto simp: s'_def)
qed

text \<open>The kernel process with one child, number 2, that has exited with the code 5.\<close>

definition demo_zombie :: "unit pstate" where
  "demo_zombie = demo_booted\<lparr>
     ps_procs := [100 \<mapsto> demo_proc\<lparr>p_pid := 1, p_children := Some \<lparr>arr_v = [200], arr_num = 1, arr_max = 1\<rparr>\<rparr>,
                  200 \<mapsto> demo_proc\<lparr>p_pid := 2, p_status := ZOMBIE, p_exitCode := 5\<rparr>],
     ps_table := Some \<lparr>firstFreePid = 3, pid_procs = demo_procs[2 := Some 200], plock = Some 7, pcv = Some 8\<rparr>\<rparr>"

lemma demo_zombie_ok: "pids_ok demo_zombie"
proof -
  let ?h = "ps_procs demo_zombie" and ?procs = "demo_procs[2 := Some 200]"
  have "3 < PID_MAX" by (simp add: PID_MAX_def)
  have slot: "?procs ! i = (if i = 1 then Some 100 else if i = 2 then Some 200 else None)" if "1 \<le> i" "i \<le> PID_MAX" for i
    using that \<open>3 < PID_MAX\<close> by (cases i; cases "i - 1") (auto simp: demo_procs_def nth_list_update nth_Cons split: nat.split)
  have "pid_tab ?h ?procs"
    unfolding pid_tab_def using slot by (auto simp: demo_zombie_def split: if_splits)
  moreover have "pid_lowest ?h ?procs = 3"
    using slot [of 2] slot [of 3] \<open>3 < PID_MAX\<close>
    by (simp add: pid_lowest_def upt_conv_Cons [of 2 PID_MAX] upt_conv_Cons [of 3 PID_MAX] slot_free_def demo_zombie_def)
  ultimately show ?thesis by (simp add: pids_ok_def pids_wf_def demo_zombie_def demo_booted_def)
qed

lemma demo_zombie_facts:
  "ps_table demo_zombie = Some \<lparr>firstFreePid = 3, pid_procs = demo_procs[2 := Some 200], plock = Some 7, pcv = Some 8\<rparr>"
  "ps_procs demo_zombie 100 =
     Some (demo_proc\<lparr>p_pid := 1, p_children := Some \<lparr>arr_v = [200], arr_num = 1, arr_max = 1\<rparr>\<rparr>)"
  "ps_procs demo_zombie 200 = Some (demo_proc\<lparr>p_pid := 2, p_status := ZOMBIE, p_exitCode := 5\<rparr>)"
  by (simp_all add: demo_zombie_def)

theorem reaped_still_child_witness:
  "\<exists>s'. proc_waitpid 2 True demo_zombie = Done (EOK, Some 5, s') \<and> isChild (Some 100) 2 s' = Done (True, s')"
proof -
  have two: "2 \<le> PID_MAX" "demo_procs[2 := Some 200] ! 2 = Some 200" by (simp_all add: PID_MAX_def)
  have z: "zombie demo_zombie 2 5" using two by (simp add: zombie_def demo_zombie_facts)
  have "\<exists>s'. proc_waitpid (int 2) True demo_zombie = Done (EOK, Some (word_of_int 5), s')
    \<and> isChild (Some 100) (int 2) s' = Done (True, s')
    \<and> (\<exists>t'. ps_table s' = Some t' \<and> slot_free (ps_procs s') (pid_procs t' ! 2))"
    by (rule reaped_still_child [OF demo_zombie_ok z demo_zombie_facts(1) _ demo_zombie_facts(2), of 200
          "\<lparr>arr_v = [200], arr_num = 1, arr_max = 1\<rparr>"])
       (simp_all add: two array_ok_def array_list_def demo_zombie_def)
  then show ?thesis by auto
qed

end
