(* ===== verification/Kern_Sfs_Dir.thy ===== *)
theory Kern_Sfs_Dir
  imports Kern_Sfs
begin

text \<open>
  Directories of the simple file system: \<^verbatim>\<open>kern/fs/sfs/sfs_dir.c\<close>, over \<open>sfs_metaio\<close> of \<open>Kern_Sfs\<close>.

  A directory is a file of entries of 64 bytes: an inode number, big-endian as on the machine, and a name of 60
  bytes. Names are lists of bytes without a zero byte, which is what \<open>strcmp\<close>, \<open>strlen\<close> and \<open>strcpy\<close> see of
  them. What a function stores through \<open>ino\<close>, \<open>slot\<close> and \<open>emptyslot\<close> is part of the result; a caller that
  passes a null pointer does not look at it.

  The main result is that a directory is a finite map from names to inode numbers: searching, linking
  and unlinking are lookup, update and removal, and everything else is left alone.
\<close>

record sfs_direntry =
  sfd_ino :: u32
  sfd_name :: "u8 list"

definition SFS_NAMELEN :: nat where "SFS_NAMELEN = 60"

definition direntry_size :: nat where "direntry_size = 64"

abbreviation (input) SFS_NOINO :: u32 where "SFS_NOINO \<equiv> 0"
abbreviation (input) SFS_TYPE_INVAL :: nat where "SFS_TYPE_INVAL \<equiv> 0"
abbreviation (input) SFS_TYPE_FILE :: nat where "SFS_TYPE_FILE \<equiv> 1"
abbreviation (input) SFS_TYPE_DIR :: nat where "SFS_TYPE_DIR \<equiv> 2"

text \<open>The bytes of an entry in memory, and the string in a field that is terminated by force.\<close>

definition enc_direntry :: "sfs_direntry \<Rightarrow> u8 list" where
  "enc_direntry sd = be_bytes [sfd_ino sd] @ sfd_name sd"

definition dec_direntry :: "u8 list \<Rightarrow> sfs_direntry" where
  "dec_direntry bs = \<lparr>sfd_ino = hd (be_words (take 4 bs)), sfd_name = drop 4 bs\<rparr>"

definition cstr :: "u8 list \<Rightarrow> u8 list" where
  "cstr bs = takeWhile (\<lambda>b. b \<noteq> 0) bs"

definition entry_name :: "sfs_direntry \<Rightarrow> u8 list" where
  "entry_name sd = cstr ((sfd_name sd)[SFS_NAMELEN - 1 := 0])"

section \<open>The code\<close>

definition sfs_readdir ::
  "'d sfs_env \<Rightarrow> sfs_vnode \<Rightarrow> int \<Rightarrow> 'd sfs_fs \<Rightarrow> (errno \<times> sfs_direntry \<times> sfs_vnode \<times> 'd sfs_fs) outcome" where
  "sfs_readdir E sv slot s =
     (let actualpos = slot * int direntry_size mod 2 ^ 32 in
      bnd (sfs_metaio E sv actualpos (replicate direntry_size 0) UIO_READ s) (\<lambda>(result, data, sv, s).
      Done (result, dec_direntry data, sv, s)))"

definition sfs_writedir ::
  "'d sfs_env \<Rightarrow> sfs_vnode \<Rightarrow> int \<Rightarrow> sfs_direntry \<Rightarrow> 'd sfs_fs \<Rightarrow> (errno \<times> sfs_vnode \<times> 'd sfs_fs) outcome" where
  "sfs_writedir E sv slot sd s =
     kassert (slot \<ge> 0)
     (let actualpos = slot * int direntry_size mod 2 ^ 32 in
      bnd (sfs_metaio E sv actualpos (enc_direntry sd) UIO_WRITE s) (\<lambda>(result, data, sv, s).
      Done (result, sv, s)))"

definition sfs_dir_nentries :: "sfs_vnode \<Rightarrow> nat outcome" where
  "sfs_dir_nentries sv =
     kassert (sfi_type (sv_i sv) = SFS_TYPE_DIR)
     (let size = unat (sfi_size (sv_i sv)) in
      if size mod direntry_size \<noteq> 0 then Panic else Done (size div direntry_size))"

record dirfind =
  df_found :: bool
  df_ino :: "u32 option"
  df_slot :: "int option"
  df_empty :: "int option"

text \<open>The loop of \<open>sfs_dir_findname\<close>, from slot \<open>i\<close> on.\<close>

function dir_find_from ::
  "'d sfs_env \<Rightarrow> u8 list \<Rightarrow> nat \<Rightarrow> nat \<Rightarrow> dirfind \<Rightarrow> sfs_vnode \<Rightarrow> 'd sfs_fs
     \<Rightarrow> (errno \<times> dirfind \<times> sfs_vnode \<times> 'd sfs_fs) outcome" where
  "dir_find_from E name i nentries f sv s =
     (if i < nentries
      then bnd (sfs_readdir E sv (int i) s) (\<lambda>(result, tsd, sv, s).
           if result \<noteq> EOK then Done (result, f, sv, s)
           else if sfd_ino tsd = SFS_NOINO
           then dir_find_from E name (Suc i) nentries (f\<lparr>df_empty := Some (int i)\<rparr>) sv s
           else if entry_name tsd = name
           then kassert (\<not> df_found f)
                  (dir_find_from E name (Suc i) nentries
                     (f\<lparr>df_found := True, df_slot := Some (int i), df_ino := Some (sfd_ino tsd)\<rparr>) sv s)
           else dir_find_from E name (Suc i) nentries f sv s)
      else Done (if df_found f then EOK else ENOENT, f, sv, s))"
  by pat_completeness auto
termination
  by (relation "measure (\<lambda>(E, name, i, n, f, sv, s). n - i)") auto

declare dir_find_from.simps [simp del]

definition sfs_dir_findname ::
  "'d sfs_env \<Rightarrow> sfs_vnode \<Rightarrow> u8 list \<Rightarrow> 'd sfs_fs \<Rightarrow> (errno \<times> dirfind \<times> sfs_vnode \<times> 'd sfs_fs) outcome" where
  "sfs_dir_findname E sv name s =
     bnd (sfs_dir_nentries sv) (\<lambda>nentries.
     dir_find_from E name 0 nentries \<lparr>df_found = False, df_ino = None, df_slot = None, df_empty = None\<rparr> sv s)"

text \<open>Result: the code, what is stored through \<open>slot\<close>, the directory and the file system.\<close>

definition sfs_dir_link ::
  "'d sfs_env \<Rightarrow> sfs_vnode \<Rightarrow> u8 list \<Rightarrow> u32 \<Rightarrow> 'd sfs_fs \<Rightarrow> (errno \<times> int option \<times> sfs_vnode \<times> 'd sfs_fs) outcome" where
  "sfs_dir_link E sv name ino s =
     bnd (sfs_dir_findname E sv name s) (\<lambda>(result, f, sv, s).
     let emptyslot = (case df_empty f of None \<Rightarrow> - 1 | Some k \<Rightarrow> k) in
     if result \<noteq> EOK \<and> result \<noteq> ENOENT then Done (result, None, sv, s)
     else if result = EOK then Done (EEXIST, None, sv, s)
     else if length name + 1 > SFS_NAMELEN then Done (ENAMETOOLONG, None, sv, s)
     else bnd (if emptyslot < 0 then bnd (sfs_dir_nentries sv) (\<lambda>k. Done (int k)) else Done emptyslot) (\<lambda>emptyslot.
       let sd = \<lparr>sfd_ino = ino, sfd_name = name @ replicate (SFS_NAMELEN - length name) 0\<rparr> in
       bnd (sfs_writedir E sv emptyslot sd s) (\<lambda>(result, sv, s). Done (result, Some emptyslot, sv, s))))"

definition sfs_dir_unlink ::
  "'d sfs_env \<Rightarrow> sfs_vnode \<Rightarrow> int \<Rightarrow> 'd sfs_fs \<Rightarrow> (errno \<times> sfs_vnode \<times> 'd sfs_fs) outcome" where
  "sfs_dir_unlink E sv slot s =
     sfs_writedir E sv slot \<lparr>sfd_ino = SFS_NOINO, sfd_name = replicate SFS_NAMELEN 0\<rparr> s"

section \<open>The contents of a file\<close>

lemma not_False: "\<not> False"
  by simp

text \<open>Block \<open>i\<close> of a file: a hole reads as zeros.\<close>

definition fcontent :: "('d \<Rightarrow> nat \<Rightarrow> u8 list) \<Rightarrow> sfs_vnode \<Rightarrow> 'd sfs_fs \<Rightarrow> nat \<Rightarrow> u8 list" where
  "fcontent blk sv s i =
     (if file_block blk sv s i = 0 then replicate 512 0 else blk (sfs_dev s) (unat (file_block blk sv s i)))"

definition overlay :: "u8 list \<Rightarrow> nat \<Rightarrow> u8 list \<Rightarrow> u8 list" where
  "overlay bs off data = take off bs @ data @ drop (off + length data) bs"

lemma fcontent_cong:
  assumes "inode_ok blk n sv s" and "\<And>j. j < n \<Longrightarrow> blk (sfs_dev s') j = blk (sfs_dev s) j" and "i < MAXBLOCKS"
  shows "file_block blk sv s' = file_block blk sv s" and "fcontent blk sv s' i = fcontent blk sv s i"
proof -
  show fb: "file_block blk sv s' = file_block blk sv s"
    using assms(1,2) by (auto simp: file_block_def inode_ok_def fun_eq_iff)
  show "fcontent blk sv s' i = fcontent blk sv s i"
    using assms by (auto simp: fcontent_def fb inode_ok_def)
qed

lemma inode_ok_cong:
  assumes "inode_ok blk n sv s" and "\<And>j. j < n \<Longrightarrow> blk (sfs_dev s') j = blk (sfs_dev s) j"
    and "sfs_freemap s' = sfs_freemap s"
  shows "inode_ok blk n sv s'"
proof -
  have fb: "file_block blk sv s' = file_block blk sv s"
    using assms(1,2) by (auto simp: file_block_def inode_ok_def fun_eq_iff)
  show ?thesis using assms(1) unfolding inode_ok_def assms(3) fb .
qed

lemma inode_ok_sv:
  assumes "sfi_direct (sv_i sv') = sfi_direct (sv_i sv)" and "sfi_indirect (sv_i sv') = sfi_indirect (sv_i sv)"
  shows "file_block blk sv' s = file_block blk sv s" and "inode_ok blk n sv' s = inode_ok blk n sv s"
    and "fcontent blk sv' s = fcontent blk sv s"
proof -
  show fb: "file_block blk sv' s = file_block blk sv s" using assms by (simp add: file_block_def fun_eq_iff)
  show "inode_ok blk n sv' s = inode_ok blk n sv s" unfolding inode_ok_def fb assms ..
  show "fcontent blk sv' s = fcontent blk sv s" by (simp add: fcontent_def fb fun_eq_iff)
qed

text \<open>A buffer of 512 bytes: reading a part of it, and overwriting a part of it.\<close>

lemma mem_block_part:
  assumes "off + len \<le> 512"
  shows "mem_block m (a + of_nat off) len = take len (drop off (mem_block m a 512))"
  using assms by (intro nth_equalityI) (simp_all add: mem_block_def add.assoc)

lemma kbuf_offset_inj:
  fixes a :: u32
  assumes "i < 512" and "j < 512" and "a + of_nat i = a + of_nat j"
  shows "i = j"
proof -
  have "unat (of_nat i :: u32) = unat (of_nat j :: u32)" using assms(3) by simp
  then show ?thesis using assms(1,2) by (simp add: unat_of_nat)
qed

lemma length_overlay [simp]: "off + length data \<le> length bs \<Longrightarrow> length (overlay bs off data) = length bs"
  by (simp add: overlay_def)

lemma nth_overlay:
  assumes "off + length data \<le> length bs" and "i < length bs"
  shows "overlay bs off data ! i = (if off \<le> i \<and> i < off + length data then data ! (i - off) else bs ! i)"
  using assms by (auto simp: overlay_def nth_append)

lemma kmem_write_part:
  assumes "off + length data \<le> 512"
  shows "mem_block (kmem_write data (a + of_nat off) m) a 512 = overlay (mem_block m a 512) off data"
proof (rule nth_equalityI)
  fix i assume i: "i < length (mem_block (kmem_write data (a + of_nat off) m) a 512)"
  let ?as = "map (\<lambda>k. a + of_nat off + of_nat k) [0..<length data]"
  have inj: "a + of_nat i = a + of_nat (off + k) \<longleftrightarrow> i = off + k" if "k < length data" for k
    using kbuf_offset_inj [of i "off + k" a] that assms i by auto
  have dist: "distinct ?as"
    using kbuf_offset_inj [of "off + x" "off + y" a for x y] assms
    by (auto simp: distinct_map inj_on_def add.assoc)
  have "um_byte (mem_scatter ?as data m) (a + of_nat i)
      = (if off \<le> i \<and> i < off + length data then data ! (i - off) else um_byte m (a + of_nat i))"
  proof (cases "off \<le> i \<and> i < off + length data")
    case True
    then have lt: "i - off < length data" by auto
    then have "?as ! (i - off) = a + of_nat off + of_nat (i - off)" by (simp del: add_diff_inverse_nat)
    also have "\<dots> = a + of_nat (off + (i - off))" by (simp only: of_nat_add add.assoc)
    also have "off + (i - off) = i" using True by simp
    finally have "?as ! (i - off) = a + of_nat i" .
    then show ?thesis using True lt mem_scatter_at [OF _ dist, of data "i - off" m] by simp
  next
    case False
    have "a + of_nat i \<noteq> a + of_nat off + of_nat k" if "k < length data" for k
      using inj [OF that] False that unfolding of_nat_add add.assoc [symmetric] by auto
    then have "a + of_nat i \<notin> set ?as" unfolding set_map set_upt image_iff Bex_def atLeastLessThan_iff by blast
    then show ?thesis unfolding if_not_P [OF False] by (rule mem_scatter_other)
  qed
  then show "mem_block (kmem_write data (a + of_nat off) m) a 512 ! i = overlay (mem_block m a 512) off data ! i"
    using i assms by (simp add: kmem_write_scatter mem_block_def nth_overlay)
qed (use assms in simp)

lemma kmem_write_apart:
  assumes "buf_apart E a" and "off + length data \<le> 512"
  shows "map (um_byte (kmem_write data (a + of_nat off) m)) (kbuf_addrs (zeros_buf E)) = map (um_byte m) (kbuf_addrs (zeros_buf E))"
proof -
  have "set (map (\<lambda>k. a + of_nat off + of_nat k) [0..<length data]) \<subseteq> set (kbuf_addrs a)"
  proof
    fix x assume "x \<in> set (map (\<lambda>k. a + of_nat off + of_nat k) [0..<length data])"
    then obtain k where "k < length data" "x = a + of_nat (off + k)" by (auto simp: add.assoc)
    then show "x \<in> set (kbuf_addrs a)" using assms(2) by (auto simp: kbuf_addrs_def intro!: image_eqI [of _ _ "off + k"])
  qed
  then show ?thesis using assms(1) unfolding kmem_write_scatter buf_apart_def
    by (intro map_cong refl mem_scatter_other) blast
qed

section \<open>Bookkeeping reads and writes\<close>

lemma bmap_hand_back_sv: "bmap_hand_back k sv s = Done (e, r, sv', s') \<Longrightarrow> sv' = sv"
  by (auto simp: bmap_hand_back_def Let_def split: if_splits elim!: bnd_DoneE)

lemma bmap_keeps:
  assumes "sfs_bmap E sv fb da s = Done (e, r, sv', s')"
  shows "sfi_size (sv_i sv') = sfi_size (sv_i sv) \<and> sfi_type (sv_i sv') = sfi_type (sv_i sv)
    \<and> sfi_linkcount (sv_i sv') = sfi_linkcount (sv_i sv) \<and> sv_ino sv' = sv_ino sv"
proof -
  have direct: "bmap_direct E sv i da s = Done (e, r, sv', s') \<Longrightarrow> ?thesis" for i
    by (auto simp: bmap_direct_def split: if_splits elim!: bnd_DoneE dest!: bmap_hand_back_sv)
  have buffer: "bmap_in_buffer E v idb ws i a t = Done (e, r, sv', s') \<Longrightarrow> sv' = v" for v idb ws i a t
    by (auto simp: bmap_in_buffer_def Let_def split: if_splits elim!: bnd_DoneE dest!: bmap_hand_back_sv)
  show ?thesis
  proof (cases "unat fb < SFS_NDIRECT")
    case True
    then show ?thesis using assms by (intro direct [of "unat fb"]) (simp add: sfs_bmap_def)
  next
    case False
    then show ?thesis using assms by (auto simp: sfs_bmap_def Let_def split: if_splits elim!: bnd_DoneE dest!: buffer)
  qed
qed

lemma bmap_too_far:
  assumes "vfs_biglock_do_i_hold s" and "MAXBLOCKS \<le> unat fb"
  shows "sfs_bmap E sv fb da s = Done (EFBIG, None, sv, s)"
proof -
  have "128 \<le> unat fb - 15" "\<not> unat fb < 15" using assms(2) by (simp_all add: MAXBLOCKS_def)
  moreover from this have "1 \<le> (unat fb - 15) div 128" by (simp add: Suc_le_eq div_greater_zero_iff)
  ultimately show ?thesis using assms(1)
    by (simp add: sfs_bmap_def SFS_NDIRECT_def SFS_NINDIRECT_def SFS_DBPERIDB_def Let_def kassert_def)
qed

text \<open>
  What a bookkeeping write of \<open>data\<close> at \<open>pos\<close> does: it falls into a hole, the volume is full and the file holds
  what it held, or the bytes are in the file, which is as long as before or ends with them. Blocks in use that are not of
  this file are not touched.
\<close>

definition meta_wrote ::
  "('d \<Rightarrow> bool) \<Rightarrow> ('d \<Rightarrow> nat \<Rightarrow> u8 list) \<Rightarrow> nat \<Rightarrow> 'd sfs_env \<Rightarrow> sfs_vnode \<Rightarrow> nat \<Rightarrow> u8 list \<Rightarrow> 'd sfs_fs
     \<Rightarrow> errno \<Rightarrow> sfs_vnode \<Rightarrow> 'd sfs_fs \<Rightarrow> bool" where
  "meta_wrote good blk n E sv pos data s e sv' s' \<longleftrightarrow> vol_ok good n E s' \<and> inode_ok blk n sv' s'
     \<and> biglock_depth s' = biglock_depth s
     \<and> (\<forall>j. bm_bit (sfs_freemap s) j \<longrightarrow> bm_bit (sfs_freemap s') j)
     \<and> (\<forall>j < n. bm_bit (sfs_freemap s) j \<and> j \<noteq> unat (sfi_indirect (sv_i sv))
          \<and> (\<forall>i < MAXBLOCKS. j \<noteq> unat (file_block blk sv s i)) \<longrightarrow> blk (sfs_dev s') j = blk (sfs_dev s) j)
     \<and> sfi_type (sv_i sv') = sfi_type (sv_i sv) \<and> sv_ino sv' = sv_ino sv
     \<and> sfi_linkcount (sv_i sv') = sfi_linkcount (sv_i sv)
     \<and> (e = ENOSPC \<and> file_block blk sv s (pos div 512) = 0 \<and> sfi_size (sv_i sv') = sfi_size (sv_i sv)
          \<and> (\<forall>j < MAXBLOCKS. fcontent blk sv' s' j = fcontent blk sv s j)
        \<or> e = EOK \<and> unat (sfi_size (sv_i sv')) = max (unat (sfi_size (sv_i sv))) (pos + length data)
          \<and> (\<forall>j < MAXBLOCKS. fcontent blk sv' s' j =
               (if j = pos div 512 then overlay (fcontent blk sv s j) (pos mod 512) data else fcontent blk sv s j)))"

lemma allocates_content:
  assumes ino: "inode_ok blk n sv s" and zero: "file_block blk sv s i = 0"
    and al: "bmap_allocates good blk n E sv i s e r sv' s'" and j: "j < MAXBLOCKS"
  shows "fcontent blk sv' s' j = fcontent blk sv s j"
proof -
  have keep: "blk (sfs_dev s') (unat (file_block blk sv s j)) = blk (sfs_dev s) (unat (file_block blk sv s j))"
    if "file_block blk sv s j \<noteq> 0"
  proof -
    have "unat (file_block blk sv s j) < n" "bm_bit (sfs_freemap s) (unat (file_block blk sv s j))"
      "unat (file_block blk sv s j) \<noteq> unat (sfi_indirect (sv_i sv))"
      using that ino j by (simp_all add: inode_ok_def word_unat_eq_iff)
    then show ?thesis using al by (simp add: bmap_allocates_def)
  qed
  show ?thesis
  proof (cases r)
    case None
    then show ?thesis using al j keep by (simp add: bmap_allocates_def fcontent_def)
  next
    case (Some k)
    then show ?thesis using al j keep zero by (simp add: bmap_allocates_def fcontent_def)
  qed
qed

context sfs_volume
begin

text \<open>One block of the file is changed: the others, and the block map, stay.\<close>

lemma content_change:
  assumes ino: "inode_ok blk n sv s" and i: "i < MAXBLOCKS" and k: "file_block blk sv s i = k" "k \<noteq> 0"
    and w: "\<forall>j < n. blk (sfs_dev s') j = (if j = unat k then bs else blk (sfs_dev s) j)"
    and fm: "sfs_freemap s' = sfs_freemap s"
  shows "inode_ok blk n sv s'" and "file_block blk sv s' = file_block blk sv s"
    and "j < MAXBLOCKS \<Longrightarrow> fcontent blk sv s' j = (if j = i then bs else fcontent blk sv s j)"
proof -
  have ne: "k \<noteq> sfi_indirect (sv_i sv)" "unat k < n" using ino i k by (auto simp: inode_ok_def)
  then have une: "unat (sfi_indirect (sv_i sv)) \<noteq> unat k" by (simp add: word_unat_eq_iff)
  show fb: "file_block blk sv s' = file_block blk sv s"
    using w ino une by (auto simp: file_block_def inode_ok_def fun_eq_iff)
  show "inode_ok blk n sv s'" using ino unfolding inode_ok_def fb fm .
  assume j: "j < MAXBLOCKS"
  have "file_block blk sv s j \<noteq> k" if "j \<noteq> i" using ino i j k that unfolding inode_ok_def by metis
  then have "unat (file_block blk sv s j) \<noteq> unat k" if "j \<noteq> i" using that by (simp add: word_unat_eq_iff)
  then show "fcontent blk sv s' j = (if j = i then bs else fcontent blk sv s j)"
    using w ino j k ne(2) by (auto simp: fcontent_def fb inode_ok_def)
qed

lemma metaio_block:
  assumes "pos div 512 < MAXBLOCKS"
  shows "unat (word_of_int (int pos sdiv int SFS_BLOCKSIZE) :: u32) = pos div 512"
    and "nat (int pos smod int SFS_BLOCKSIZE mod 2 ^ 32) = pos mod 512"
proof -
  have "int pos sdiv int SFS_BLOCKSIZE = int (pos div 512)"
    by (cases pos) (simp_all add: SFS_BLOCKSIZE_def signed_divide_int_def zdiv_int)
  then show "unat (word_of_int (int pos sdiv int SFS_BLOCKSIZE) :: u32) = pos div 512"
    using assms by (simp add: MAXBLOCKS_def unat_of_nat)
  have "int pos smod int SFS_BLOCKSIZE = int (pos mod 512)"
    by (cases pos) (simp_all add: SFS_BLOCKSIZE_def signed_modulo_int_def zmod_int)
  moreover have "pos mod 512 < 512" by simp
  ultimately show "nat (int pos smod int SFS_BLOCKSIZE mod 2 ^ 32) = pos mod 512" by (simp add: nat_mod_distrib)
qed

lemma metaio_read:
  assumes ok: "vol_ok good n E s" and ino: "inode_ok blk n sv s" and i: "pos div 512 < MAXBLOCKS"
    and fit: "pos mod 512 + length data \<le> 512"
  shows "\<exists>m d. sfs_metaio E sv (int pos) data UIO_READ s =
      Done (EOK, take (length data) (drop (pos mod 512) (fcontent blk sv s (pos div 512))), sv, s\<lparr>sfs_mem := m, sfs_dev := d\<rparr>)
    \<and> vol_ok good n E (s\<lparr>sfs_mem := m, sfs_dev := d\<rparr>) \<and> (\<forall>j < n. blk d j = blk (sfs_dev s) j)"
proof -
  let ?i = "pos div 512"
  let ?k = "file_block blk sv s ?i" and ?fb = "word_of_int (int pos sdiv int SFS_BLOCKSIZE) :: u32"
  note fb = metaio_block [OF i]
  have held: "vfs_biglock_do_i_hold s" using ok by (simp add: vol_ok_def vfs_biglock_do_i_hold_def)
  obtain m d where b: "sfs_bmap E sv ?fb False s = Done (EOK, Some ?k, sv, s\<lparr>sfs_mem := m, sfs_dev := d\<rparr>)"
    "vol_ok good n E (s\<lparr>sfs_mem := m, sfs_dev := d\<rparr>)" "\<forall>j < n. blk d j = blk (sfs_dev s) j"
    using bmap_lookup [OF ok ino, of ?fb False, unfolded fb, OF i disjI2, OF not_False] by (elim exE conjE) (rule that)
  let ?s = "s\<lparr>sfs_mem := m, sfs_dev := d\<rparr>"
  note run = sfs_metaio_def kassert_def Let_def fb(2)
  show ?thesis
  proof (cases "?k = 0")
    case True
    then have "sfs_metaio E sv (int pos) data UIO_READ s = Done (EOK, replicate (length data) 0, sv, ?s)"
      using held b(1) by (simp add: run)
    moreover have "take (length data) (drop (pos mod 512) (fcontent blk sv s ?i)) = replicate (length data) 0"
      using True fit by (simp add: fcontent_def min_absorb1)
    ultimately show ?thesis using b(2,3) by (intro exI [of _ m] exI [of _ d]) simp
  next
    case False
    then have lt: "unat ?k < n" using ino i by (simp add: inode_ok_def)
    obtain m' d' where r: "sfs_readblock E ?k (meta_buf E) SFS_BLOCKSIZE ?s = Done (EOK, ?s\<lparr>sfs_mem := m', sfs_dev := d'\<rparr>)"
      "vol_ok good n E (?s\<lparr>sfs_mem := m', sfs_dev := d'\<rparr>)" "mem_block m' (meta_buf E) SFS_BLOCKSIZE = blk (sfs_dev ?s) (unat ?k)"
      "\<forall>j < n. blk d' j = blk (sfs_dev ?s) j"
      using readblock_ok [OF b(2) lt bufs_apart(4)] by (elim exE conjE) (rule that)
    have "mem_block m' (meta_buf E + of_nat (pos mod 512)) (length data)
        = take (length data) (drop (pos mod 512) (fcontent blk sv s ?i))"
      using mem_block_part [OF fit] r(3) b(3) lt False by (simp add: fcontent_def SFS_BLOCKSIZE_def)
    then have "sfs_metaio E sv (int pos) data UIO_READ s =
        Done (EOK, take (length data) (drop (pos mod 512) (fcontent blk sv s ?i)), sv, s\<lparr>sfs_mem := m', sfs_dev := d'\<rparr>)"
      unfolding sfs_metaio_def fb(2) Let_def using held b(1) r(1) False fit by (simp add: SFS_BLOCKSIZE_def)
    then show ?thesis using r(2,4) b(3) by (intro exI [of _ m'] exI [of _ d']) simp
  qed
qed

text \<open>The second half of a bookkeeping write, once \<open>sfs_bmap\<close> has found the block.\<close>

lemma metaio_store:
  assumes held: "vfs_biglock_do_i_hold t" and i: "pos div 512 < MAXBLOCKS" and fit: "pos mod 512 + length data \<le> 512"
    and b: "sfs_bmap E w (word_of_int (int pos sdiv int SFS_BLOCKSIZE)) True t = Done (EOK, Some k, sv, s)"
    and ok: "vol_ok good n E s" and ino: "inode_ok blk n sv s" and k: "file_block blk sv s (pos div 512) = k" "k \<noteq> 0"
  shows "\<exists>sv' s'. sfs_metaio E w (int pos) data UIO_WRITE t = Done (EOK, data, sv', s') \<and> vol_ok good n E s' \<and> inode_ok blk n sv' s'
    \<and> biglock_depth s' = biglock_depth s \<and> sfs_freemap s' = sfs_freemap s
    \<and> (\<forall>j < n. j \<noteq> unat k \<longrightarrow> blk (sfs_dev s') j = blk (sfs_dev s) j)
    \<and> sfi_type (sv_i sv') = sfi_type (sv_i sv) \<and> sv_ino sv' = sv_ino sv \<and> sfi_linkcount (sv_i sv') = sfi_linkcount (sv_i sv)
    \<and> unat (sfi_size (sv_i sv')) = max (unat (sfi_size (sv_i sv))) (pos + length data)
    \<and> (\<forall>j < MAXBLOCKS. fcontent blk sv' s' j =
         (if j = pos div 512 then overlay (fcontent blk sv s j) (pos mod 512) data else fcontent blk sv s j))"
proof -
  have lt: "unat k < n" using ino i k by (auto simp: inode_ok_def)
  obtain m d where r: "sfs_readblock E k (meta_buf E) SFS_BLOCKSIZE s = Done (EOK, s\<lparr>sfs_mem := m, sfs_dev := d\<rparr>)"
    "vol_ok good n E (s\<lparr>sfs_mem := m, sfs_dev := d\<rparr>)" "mem_block m (meta_buf E) SFS_BLOCKSIZE = blk (sfs_dev s) (unat k)"
    "\<forall>j < n. blk d j = blk (sfs_dev s) j"
    using readblock_ok [OF ok lt bufs_apart(4)] by (elim exE conjE) (rule that)
  define m1 where "m1 = kmem_write data (meta_buf E + of_nat (pos mod 512)) m"
  define s1 where "s1 = s\<lparr>sfs_mem := m, sfs_dev := d\<rparr>\<lparr>sfs_mem := m1\<rparr>"
  have ok1: "vol_ok good n E s1"
    using r(2) kmem_write_apart [OF bufs_apart(4) fit] unfolding vol_ok_def s1_def m1_def by (simp del: map_eq_conv)
  obtain m2 d2 where w: "sfs_writeblock E k (meta_buf E) SFS_BLOCKSIZE s1 = Done (EOK, s1\<lparr>sfs_mem := m2, sfs_dev := d2\<rparr>)"
    "vol_ok good n E (s1\<lparr>sfs_mem := m2, sfs_dev := d2\<rparr>)"
    "\<forall>j < n. blk d2 j = (if j = unat k then mem_block (sfs_mem s1) (meta_buf E) SFS_BLOCKSIZE else blk (sfs_dev s1) j)"
    using writeblock_ok [OF ok1 lt, of "meta_buf E"] by (elim exE conjE) (rule that)
  define s2 where "s2 = s1\<lparr>sfs_mem := m2, sfs_dev := d2\<rparr>"
  have same: "sfs_freemap s2 = sfs_freemap s" "biglock_depth s2 = biglock_depth s" by (simp_all add: s2_def s1_def)
  have new: "mem_block (sfs_mem s1) (meta_buf E) SFS_BLOCKSIZE = overlay (fcontent blk sv s (pos div 512)) (pos mod 512) data"
    using kmem_write_part [OF fit, of "meta_buf E" m] r(3) k by (simp add: s1_def m1_def SFS_BLOCKSIZE_def fcontent_def)
  have blks: "\<forall>j < n. blk (sfs_dev s2) j =
      (if j = unat k then overlay (fcontent blk sv s (pos div 512)) (pos mod 512) data else blk (sfs_dev s) j)"
    using w(3) r(4) unfolding new by (simp add: s2_def s1_def)
  note ch = content_change [OF ino i k blks same(1)]
  let ?e = "pos + length data"
  define sv' where "sv' = (if int pos + int (length data) > uint (sfi_size (sv_i sv))
      then sv\<lparr>sv_i := (sv_i sv)\<lparr>sfi_size := word_of_int (int pos + int (length data))\<rparr>, sv_dirty := True\<rparr> else sv)"
  have run: "sfs_metaio E w (int pos) data UIO_WRITE t = Done (EOK, data, sv', s2)"
    unfolding sfs_metaio_def metaio_block(2) [OF i] Let_def using held b r(1) w(1) k(2) fit
    by (simp add: sv'_def s2_def s1_def m1_def SFS_BLOCKSIZE_def)
  have flds: "sfi_direct (sv_i sv') = sfi_direct (sv_i sv)" "sfi_indirect (sv_i sv') = sfi_indirect (sv_i sv)"
    "sfi_type (sv_i sv') = sfi_type (sv_i sv)" "sv_ino sv' = sv_ino sv" "sfi_linkcount (sv_i sv') = sfi_linkcount (sv_i sv)"
    by (simp_all add: sv'_def)
  have "?e < 2 ^ 32" using i fit by (simp add: MAXBLOCKS_def)
  then have "unat (word_of_int (int pos + int (length data)) :: u32) = ?e"
    by (simp add: unat_of_nat flip: of_nat_add)
  moreover have "int pos + int (length data) > uint (sfi_size (sv_i sv)) \<longleftrightarrow> unat (sfi_size (sv_i sv)) < ?e"
    unfolding uint_nat of_nat_add [symmetric] of_nat_less_iff ..
  ultimately have "unat (sfi_size (sv_i sv')) = max (unat (sfi_size (sv_i sv))) ?e"
    unfolding sv'_def by (cases "unat (sfi_size (sv_i sv)) < ?e") simp_all
  moreover have "fcontent blk sv' s2 j =
      (if j = pos div 512 then overlay (fcontent blk sv s j) (pos mod 512) data else fcontent blk sv s j)" if "j < MAXBLOCKS" for j
    using ch(3) [OF that] unfolding inode_ok_sv(3) [OF flds(1,2)] by simp
  moreover have "inode_ok blk n sv' s2" using ch(1) unfolding inode_ok_sv(2) [OF flds(1,2)] .
  moreover have "blk (sfs_dev s2) j = blk (sfs_dev s) j" if "j < n" "j \<noteq> unat k" for j using blks that by simp
  ultimately show ?thesis using run w(2) same flds unfolding s2_def [symmetric] by (intro exI [of _ sv'] exI [of _ s2]) blast
qed

lemma metaio_write:
  assumes ok: "vol_ok good n E s" and ino: "inode_ok blk n sv s" and i: "pos div 512 < MAXBLOCKS"
    and fit: "pos mod 512 + length data \<le> 512"
  shows "\<exists>e sv' s'. sfs_metaio E sv (int pos) data UIO_WRITE s = Done (e, data, sv', s')
    \<and> meta_wrote good blk n E sv pos data s e sv' s'"
proof -
  let ?i = "pos div 512" and ?fb = "word_of_int (int pos sdiv int SFS_BLOCKSIZE) :: u32"
  let ?k = "file_block blk sv s ?i"
  note fb = metaio_block(1) [OF i]
  have held: "vfs_biglock_do_i_hold s" using ok by (simp add: vol_ok_def vfs_biglock_do_i_hold_def)
  have other: "j \<noteq> unat k" if "\<forall>i < MAXBLOCKS. j \<noteq> unat (file_block blk sv s i)" "bm_bit (sfs_freemap s) j"
    "k = ?k \<or> \<not> bm_bit (sfs_freemap s) (unat k)" for j k using that i by auto
  show ?thesis
  proof (cases "?k = 0")
    case False
    obtain m d where b: "sfs_bmap E sv ?fb True s = Done (EOK, Some ?k, sv, s\<lparr>sfs_mem := m, sfs_dev := d\<rparr>)"
      "vol_ok good n E (s\<lparr>sfs_mem := m, sfs_dev := d\<rparr>)" "\<forall>j < n. blk d j = blk (sfs_dev s) j"
      using bmap_lookup [OF ok ino, of ?fb True, unfolded fb, OF i disjI1 [OF False]] by (elim exE conjE) (rule that)
    let ?s = "s\<lparr>sfs_mem := m, sfs_dev := d\<rparr>"
    have ino1: "inode_ok blk n sv ?s" using b(3) by (intro inode_ok_cong [OF ino]) simp_all
    have same: "fcontent blk sv ?s j = fcontent blk sv s j" if "j < MAXBLOCKS" for j
      using b(3) that by (intro fcontent_cong(2) [OF ino]) simp_all
    have k1: "file_block blk sv ?s ?i = ?k" using b(3) i by (simp add: fcontent_cong(1) [OF ino, of ?s])
    from metaio_store [OF held i fit b(1) b(2) ino1 k1 False] obtain sv' s' where r:
      "sfs_metaio E sv (int pos) data UIO_WRITE s = Done (EOK, data, sv', s')" "vol_ok good n E s'" "inode_ok blk n sv' s'"
      "biglock_depth s' = biglock_depth ?s" "sfs_freemap s' = sfs_freemap ?s"
      "\<forall>j < n. j \<noteq> unat ?k \<longrightarrow> blk (sfs_dev s') j = blk (sfs_dev ?s) j"
      "sfi_type (sv_i sv') = sfi_type (sv_i sv)" "sv_ino sv' = sv_ino sv" "sfi_linkcount (sv_i sv') = sfi_linkcount (sv_i sv)"
      "unat (sfi_size (sv_i sv')) = max (unat (sfi_size (sv_i sv))) (pos + length data)"
      "\<forall>j < MAXBLOCKS. fcontent blk sv' s' j =
         (if j = ?i then overlay (fcontent blk sv ?s j) (pos mod 512) data else fcontent blk sv ?s j)"
      by (elim exE conjE) (rule that)
    have "meta_wrote good blk n E sv pos data s EOK sv' s'"
      using r b(3) same i unfolding meta_wrote_def by simp
    then show ?thesis using r(1) by blast
  next
    case True
    obtain e r sv1 s1 where b: "sfs_bmap E sv ?fb True s = Done (e, r, sv1, s1)"
      and al: "bmap_allocates good blk n E sv ?i s e r sv1 s1"
      using bmap_alloc [OF ok ino, of ?fb, unfolded fb, OF i True] by (elim exE conjE) (rule that)
    note keep = bmap_keeps [OF b] and same = allocates_content [OF ino True al]
    show ?thesis
    proof (cases r)
      case None
      then have "e = ENOSPC" using al by (simp add: bmap_allocates_def)
      then have "sfs_metaio E sv (int pos) data UIO_WRITE s = Done (e, data, sv1, s1)"
        using held b by (simp add: sfs_metaio_def kassert_def Let_def)
      moreover have "meta_wrote good blk n E sv pos data s e sv1 s1"
        using al keep same None True by (simp add: meta_wrote_def bmap_allocates_def)
      ultimately show ?thesis by blast
    next
      case (Some k)
      then have k: "e = EOK" "file_block blk sv1 s1 ?i = k" "k \<noteq> 0" "\<not> bm_bit (sfs_freemap s) (unat k)"
        "vol_ok good n E s1" "inode_ok blk n sv1 s1" using al i by (simp_all add: bmap_allocates_def)
      from metaio_store [OF held i fit b [unfolded k(1) Some] k(5,6) k(2,3)] obtain sv' s' where r:
        "sfs_metaio E sv (int pos) data UIO_WRITE s = Done (EOK, data, sv', s')" "vol_ok good n E s'" "inode_ok blk n sv' s'"
        "biglock_depth s' = biglock_depth s1" "sfs_freemap s' = sfs_freemap s1"
        "\<forall>j < n. j \<noteq> unat k \<longrightarrow> blk (sfs_dev s') j = blk (sfs_dev s1) j"
        "sfi_type (sv_i sv') = sfi_type (sv_i sv1)" "sv_ino sv' = sv_ino sv1" "sfi_linkcount (sv_i sv') = sfi_linkcount (sv_i sv1)"
        "unat (sfi_size (sv_i sv')) = max (unat (sfi_size (sv_i sv1))) (pos + length data)"
        "\<forall>j < MAXBLOCKS. fcontent blk sv' s' j =
           (if j = ?i then overlay (fcontent blk sv1 s1 j) (pos mod 512) data else fcontent blk sv1 s1 j)"
        by (elim exE conjE) (rule that)
      have "meta_wrote good blk n E sv pos data s EOK sv' s'"
        unfolding meta_wrote_def using r al keep same k(4) other by (auto simp: bmap_allocates_def)
      then show ?thesis using r(1) by blast
    qed
  qed
qed

end

section \<open>Entries\<close>

abbreviation (input) used :: "sfs_direntry \<Rightarrow> bool" where
  "used d \<equiv> sfd_ino d \<noteq> SFS_NOINO"

text \<open>What a list of entries says: a map from names to inode numbers, sound if no name occurs twice.\<close>

definition ents_map :: "sfs_direntry list \<Rightarrow> u8 list \<rightharpoonup> u32" where
  "ents_map ds = map_of (map (\<lambda>d. (entry_name d, sfd_ino d)) (filter (\<lambda>d. used d) ds))"

definition ents_ok :: "sfs_direntry list \<Rightarrow> bool" where
  "ents_ok ds \<longleftrightarrow> distinct (map entry_name (filter (\<lambda>d. used d) ds))"

definition dents :: "('d \<Rightarrow> nat \<Rightarrow> u8 list) \<Rightarrow> sfs_vnode \<Rightarrow> 'd sfs_fs \<Rightarrow> nat \<Rightarrow> sfs_direntry" where
  "dents blk sv s i = dec_direntry (take 64 (drop (64 * (i mod 8)) (fcontent blk sv s (i div 8))))"

definition MAXENTS :: nat where "MAXENTS = 1144"

abbreviation (input) nents :: "sfs_vnode \<Rightarrow> nat" where
  "nents sv \<equiv> unat (sfi_size (sv_i sv)) div 64"

abbreviation (input) dirlist :: "('d \<Rightarrow> nat \<Rightarrow> u8 list) \<Rightarrow> sfs_vnode \<Rightarrow> 'd sfs_fs \<Rightarrow> sfs_direntry list" where
  "dirlist blk sv s \<equiv> map (dents blk sv s) [0..<nents sv]"

definition dir_map :: "('d \<Rightarrow> nat \<Rightarrow> u8 list) \<Rightarrow> sfs_vnode \<Rightarrow> 'd sfs_fs \<Rightarrow> u8 list \<rightharpoonup> u32" where
  "dir_map blk sv s = ents_map (dirlist blk sv s)"

text \<open>A sound directory: a whole number of entries, within the size of a file, and no name twice.\<close>

definition dir_ok :: "('d \<Rightarrow> nat \<Rightarrow> u8 list) \<Rightarrow> sfs_vnode \<Rightarrow> 'd sfs_fs \<Rightarrow> bool" where
  "dir_ok blk sv s \<longleftrightarrow> sfi_type (sv_i sv) = SFS_TYPE_DIR \<and> unat (sfi_size (sv_i sv)) mod 64 = 0
     \<and> nents sv \<le> MAXENTS \<and> ents_ok (dirlist blk sv s)"

lemma dec_enc_direntry [simp]: "dec_direntry (enc_direntry sd) = sd"
  by (simp add: dec_direntry_def enc_direntry_def be_words_bytes)

lemma length_enc_direntry [simp]: "length (enc_direntry sd) = 4 + length (sfd_name sd)"
  by (simp add: enc_direntry_def)

lemma entry_name_link:
  assumes "length nm < SFS_NAMELEN" and "0 \<notin> set nm"
  shows "entry_name \<lparr>sfd_ino = i, sfd_name = nm @ replicate (SFS_NAMELEN - length nm) 0\<rparr> = nm"
proof -
  obtain k where k: "SFS_NAMELEN - length nm = Suc k" using assms(1) by (metis Suc_diff_Suc)
  have "(nm @ replicate (SFS_NAMELEN - length nm) 0)[SFS_NAMELEN - 1 := 0] = nm @ 0 # replicate k 0"
  proof -
    have "(replicate (Suc k) (0 :: u8))[j := 0] = replicate (Suc k) 0" for j
      by (cases "j < Suc k") (simp_all add: list_update_same_conv list_update_beyond del: replicate.simps)
    moreover have "length nm \<le> SFS_NAMELEN - 1" using assms(1) by simp
    ultimately show ?thesis by (simp add: list_update_append k del: list_update.simps)
  qed
  moreover have "takeWhile (\<lambda>b. b \<noteq> 0) nm = nm" using assms(2) by (auto simp: takeWhile_eq_all_conv)
  ultimately show ?thesis by (simp add: entry_name_def cstr_def takeWhile_append2 assms(2))
qed

lemma ents_map_None: "ents_map ds nm = None \<longleftrightarrow> (\<forall>d \<in> set ds. used d \<longrightarrow> entry_name d \<noteq> nm)"
  by (auto simp: ents_map_def map_of_eq_None_iff image_iff)

lemma ents_map_append:
  assumes "ents_map ds (entry_name e) = None" and "ents_ok ds" and "used e"
  shows "ents_ok (ds @ [e])" and "ents_map (ds @ [e]) = (ents_map ds)(entry_name e \<mapsto> sfd_ino e)"
proof -
  show "ents_ok (ds @ [e])" using assms by (auto simp: ents_ok_def ents_map_None)
  show "ents_map (ds @ [e]) = (ents_map ds)(entry_name e \<mapsto> sfd_ino e)"
    using assms(1,3) by (auto simp: ents_map_def map_add_def fun_eq_iff split: option.splits)
qed

text \<open>Changing the entry in one slot.\<close>

lemma ents_split:
  assumes "k < length ds"
  shows "filter P (ds[k := e]) = filter P (take k ds) @ filter P [e] @ filter P (drop (Suc k) ds)"
    and "filter P ds = filter P (take k ds) @ filter P [ds ! k] @ filter P (drop (Suc k) ds)"
proof -
  show "filter P (ds[k := e]) = filter P (take k ds) @ filter P [e] @ filter P (drop (Suc k) ds)"
    by (subst upd_conv_take_nth_drop [OF assms]) simp
  show "filter P ds = filter P (take k ds) @ filter P [ds ! k] @ filter P (drop (Suc k) ds)"
    by (subst id_take_nth_drop [OF assms]) simp
qed

lemma ents_map_update:
  assumes "k < length ds" and "\<not> used (ds ! k)" and "ents_map ds (entry_name e) = None" and "ents_ok ds" and "used e"
  shows "ents_ok (ds[k := e])" and "ents_map (ds[k := e]) = (ents_map ds)(entry_name e \<mapsto> sfd_ino e)"
proof -
  note sp = ents_split [OF assms(1), of "\<lambda>d. used d"]
  let ?xs = "filter (\<lambda>d. used d) (take k ds)" and ?ys = "filter (\<lambda>d. used d) (drop (Suc k) ds)"
  have none: "\<forall>d \<in> set ?xs \<union> set ?ys. entry_name d \<noteq> entry_name e"
    using assms(3) unfolding ents_map_None by (auto dest: in_set_takeD in_set_dropD)
  have ok: "distinct (map entry_name (?xs @ ?ys))" using assms(2,4) unfolding ents_ok_def sp(2) by simp
  show "ents_ok (ds[k := e])" using ok none assms(5) unfolding ents_ok_def sp(1) by (auto simp: image_iff)
  have "map_of (map (\<lambda>d. (entry_name d, sfd_ino d)) ?xs) (entry_name e) = None"
    using none by (auto simp: map_of_eq_None_iff)
  then show "ents_map (ds[k := e]) = (ents_map ds)(entry_name e \<mapsto> sfd_ino e)"
    using assms(2,5) unfolding ents_map_def sp(1) sp(2) by (auto simp: map_add_def fun_eq_iff split: option.splits)
qed

lemma ents_map_remove:
  assumes "k < length ds" and "used (ds ! k)" and "ents_ok ds" and "\<not> used e"
  shows "ents_ok (ds[k := e])" and "ents_map (ds[k := e]) = (ents_map ds)(entry_name (ds ! k) := None)"
proof -
  note sp = ents_split [OF assms(1), of "\<lambda>d. used d"]
  let ?xs = "filter (\<lambda>d. used d) (take k ds)" and ?ys = "filter (\<lambda>d. used d) (drop (Suc k) ds)"
  let ?nm = "entry_name (ds ! k)" and ?of = "\<lambda>ds. map_of (map (\<lambda>d. (entry_name d, sfd_ino d)) ds)"
  have ok: "distinct (map entry_name (?xs @ ds ! k # ?ys))" using assms(2,3) unfolding ents_ok_def sp(2) by simp
  then show "ents_ok (ds[k := e])" using assms(4) unfolding ents_ok_def sp(1) by simp
  have "?of ?xs ?nm = None" "?of ?ys ?nm = None" using ok by (auto simp: map_of_eq_None_iff)
  then show "ents_map (ds[k := e]) = (ents_map ds)(?nm := None)"
    using assms(2,4) unfolding ents_map_def sp(1) sp(2) by (auto simp: map_add_def fun_eq_iff split: option.splits)
qed

section \<open>The search\<close>

text \<open>What the loop of \<open>sfs_dir_findname\<close> finds, as a function of the entries.\<close>

primrec scan :: "u8 list \<Rightarrow> nat \<Rightarrow> sfs_direntry list \<Rightarrow> dirfind \<Rightarrow> dirfind" where
  "scan nm i [] f = f"
| "scan nm i (d # ds) f = scan nm (Suc i) ds
     (if \<not> used d then f\<lparr>df_empty := Some (int i)\<rparr>
      else if entry_name d = nm then f\<lparr>df_found := True, df_slot := Some (int i), df_ino := Some (sfd_ino d)\<rparr>
      else f)"

lemma scan_none:
  "ents_map ds nm = None \<Longrightarrow> df_found (scan nm i ds f) = df_found f \<and> df_slot (scan nm i ds f) = df_slot f
     \<and> df_ino (scan nm i ds f) = df_ino f"
  by (induction ds arbitrary: i f) (auto simp: ents_map_None)

lemma scan_some:
  assumes "ents_map ds nm = Some ino" and "ents_ok ds"
  shows "df_found (scan nm i ds f) \<and> df_ino (scan nm i ds f) = Some ino
    \<and> (\<exists>k < length ds. df_slot (scan nm i ds f) = Some (int (i + k)) \<and> sfd_ino (ds ! k) = ino \<and> used (ds ! k) \<and> entry_name (ds ! k) = nm)"
  using assms
proof (induction ds arbitrary: i f)
  case (Cons d ds)
  show ?case
  proof (cases "used d \<and> entry_name d = nm")
    case True
    then have "ents_map ds nm = None" using Cons.prems(2) by (auto simp: ents_map_None ents_ok_def image_iff)
    moreover have "sfd_ino d = ino" using Cons.prems(1) True by (simp add: ents_map_def)
    ultimately show ?thesis using True by (auto simp: scan_none intro!: exI [of _ 0])
  next
    case False
    then have "ents_map ds nm = Some ino" "ents_ok ds" using Cons.prems by (auto simp: ents_map_def ents_ok_def split: if_splits)
    note IH = Cons.IH [OF this, of "Suc i"]
    define g where "g = (if \<not> used d then f\<lparr>df_empty := Some (int i)\<rparr> else f)"
    have eq: "scan nm i (d # ds) f = scan nm (Suc i) ds g" using False by (auto simp: g_def)
    from IH [of g] obtain k where "k < length ds" "df_slot (scan nm (Suc i) ds g) = Some (int (Suc i + k))"
      "sfd_ino (ds ! k) = ino" "used (ds ! k)" "entry_name (ds ! k) = nm" by blast
    then show ?thesis using IH [of g] unfolding eq by (auto intro!: exI [of _ "Suc k"])
  qed
qed (simp add: ents_map_def)

lemma scan_empty:
  "df_empty (scan nm i ds f) = df_empty f \<or> (\<exists>k < length ds. df_empty (scan nm i ds f) = Some (int (i + k)) \<and> \<not> used (ds ! k))"
proof (induction ds arbitrary: i f)
  case (Cons d ds)
  let ?f = "if \<not> used d then f\<lparr>df_empty := Some (int i)\<rparr>
      else if entry_name d = nm then f\<lparr>df_found := True, df_slot := Some (int i), df_ino := Some (sfd_ino d)\<rparr> else f"
  from Cons.IH [of "Suc i" ?f] show ?case
  proof (elim disjE exE conjE)
    assume "df_empty (scan nm (Suc i) ds ?f) = df_empty ?f"
    then show ?thesis by (auto intro!: exI [of _ 0])
  next
    fix k assume "k < length ds" "df_empty (scan nm (Suc i) ds ?f) = Some (int (Suc i + k))" "\<not> used (ds ! k)"
    then show ?thesis by (intro disjI2 exI [of _ "Suc k"]) simp
  qed
qed simp

text \<open>Entries in the blocks of a file.\<close>

lemma slot_pos:
  assumes "i < MAXENTS"
  shows "int i * int direntry_size mod 2 ^ 32 = int (64 * i)" and "64 * i div 512 = i div 8" and "64 * i mod 512 = 64 * (i mod 8)"
    and "i div 8 < MAXBLOCKS" and "64 * (i mod 8) + 64 \<le> 512"
proof -
  have "int i * int direntry_size = int (64 * i)" by (simp add: direntry_size_def)
  moreover have "64 * i < 2 ^ 32" using assms by (simp add: MAXENTS_def)
  ultimately show "int i * int direntry_size mod 2 ^ 32 = int (64 * i)" unfolding direntry_size_def by simp
  show "64 * i div 512 = i div 8" using div_mult_mult1 [of 64 i 8] by simp
  show "64 * i mod 512 = 64 * (i mod 8)" using mult_mod_right [of 64 i 8] by simp
  show "i div 8 < MAXBLOCKS" using assms by (simp add: MAXENTS_def MAXBLOCKS_def)
  show "64 * (i mod 8) + 64 \<le> 512" using mod_less_divisor [of 8 i] by simp
qed

lemma overlay_slot:
  assumes "length bs = 512" and "length data = 64" and "a < 8" and "b < 8"
  shows "take 64 (drop (64 * a) (overlay bs (64 * b) data)) = (if a = b then data else take 64 (drop (64 * a) bs))"
proof (rule nth_equalityI)
  have le: "64 * a + 64 \<le> 512" "64 * b + 64 \<le> 512" using assms(3,4) by simp_all
  then show "length (take 64 (drop (64 * a) (overlay bs (64 * b) data))) = length (if a = b then data else take 64 (drop (64 * a) bs))"
    using assms(1,2) by simp
  fix i assume "i < length (take 64 (drop (64 * a) (overlay bs (64 * b) data)))"
  then have i: "i < 64" by simp
  have "64 * b \<le> 64 * a + i \<and> 64 * a + i < 64 * b + 64 \<longleftrightarrow> a = b" using i by auto
  then show "take 64 (drop (64 * a) (overlay bs (64 * b) data)) ! i = (if a = b then data else take 64 (drop (64 * a) bs)) ! i"
    using i le assms by (simp add: nth_overlay)
qed

context sfs_volume
begin

lemma fcontent_len:
  assumes "vol_ok good n E s" and "inode_ok blk n sv s" and "j < MAXBLOCKS"
  shows "length (fcontent blk sv s j) = 512"
  using assms blk_len by (auto simp: fcontent_def inode_ok_def vol_ok_def)

lemma readdir_ok:
  assumes ok: "vol_ok good n E s" and ino: "inode_ok blk n sv s" and i: "i < MAXENTS"
  shows "\<exists>m d. sfs_readdir E sv (int i) s = Done (EOK, dents blk sv s i, sv, s\<lparr>sfs_mem := m, sfs_dev := d\<rparr>)
    \<and> vol_ok good n E (s\<lparr>sfs_mem := m, sfs_dev := d\<rparr>) \<and> (\<forall>j < n. blk d j = blk (sfs_dev s) j)"
proof -
  note p = slot_pos [OF i]
  have "64 * i div 512 < MAXBLOCKS" "64 * i mod 512 + length (replicate direntry_size (0 :: u8)) \<le> 512"
    using p by (simp_all add: direntry_size_def)
  from metaio_read [OF ok ino this] obtain m d where
    "sfs_metaio E sv (int (64 * i)) (replicate 64 0) UIO_READ s =
       Done (EOK, take 64 (drop (64 * (i mod 8)) (fcontent blk sv s (i div 8))), sv, s\<lparr>sfs_mem := m, sfs_dev := d\<rparr>)"
    "vol_ok good n E (s\<lparr>sfs_mem := m, sfs_dev := d\<rparr>)" "\<forall>j < n. blk d j = blk (sfs_dev s) j"
    unfolding p(2,3) length_replicate direntry_size_def by (elim exE conjE) (rule that)
  then show ?thesis unfolding sfs_readdir_def Let_def p(1) dents_def by (intro exI [of _ m] exI [of _ d]) (simp add: direntry_size_def)
qed

lemma dents_same:
  assumes "inode_ok blk n sv s" and "\<And>j. j < n \<Longrightarrow> blk (sfs_dev s') j = blk (sfs_dev s) j" and "i < MAXENTS"
  shows "dents blk sv s' i = dents blk sv s i"
  using fcontent_cong(2) [OF assms(1,2) slot_pos(4) [OF assms(3)]] by (simp add: dents_def)

text \<open>The search reads the entries and nothing else, and never meets the name twice.\<close>

lemma find_from_scan:
  assumes "vol_ok good n E s" and "inode_ok blk n sv s" and "n1 \<le> MAXENTS" and "i \<le> n1"
    and "ents_ok (map (dents blk sv s) [i..<n1])" and "df_found f \<Longrightarrow> ents_map (map (dents blk sv s) [i..<n1]) nm = None"
    and "g = scan nm i (map (dents blk sv s) [i..<n1]) f"
  shows "\<exists>m d. dir_find_from E nm i n1 f sv s = Done (if df_found g then EOK else ENOENT, g, sv, s\<lparr>sfs_mem := m, sfs_dev := d\<rparr>)
    \<and> vol_ok good n E (s\<lparr>sfs_mem := m, sfs_dev := d\<rparr>) \<and> (\<forall>j < n. blk d j = blk (sfs_dev s) j)"
  using assms
proof (induction "n1 - i" arbitrary: i f s)
  case 0
  then show ?case
    by (intro exI [of _ "sfs_mem s"] exI [of _ "sfs_dev s"]) (simp add: dir_find_from.simps [of E nm i])
next
  case (Suc k)
  then have lt: "i < n1" "i < MAXENTS" by simp_all
  let ?d = "dents blk sv s i"
  obtain m d where r: "sfs_readdir E sv (int i) s = Done (EOK, ?d, sv, s\<lparr>sfs_mem := m, sfs_dev := d\<rparr>)"
    "vol_ok good n E (s\<lparr>sfs_mem := m, sfs_dev := d\<rparr>)" "\<forall>j < n. blk d j = blk (sfs_dev s) j"
    using readdir_ok [OF Suc.prems(1,2) lt(2)] by (elim exE conjE) (rule that)
  let ?s = "s\<lparr>sfs_mem := m, sfs_dev := d\<rparr>"
  have ino: "inode_ok blk n sv ?s" using r(3) by (intro inode_ok_cong [OF Suc.prems(2)]) simp_all
  have same: "map (dents blk sv ?s) [Suc i..<n1] = map (dents blk sv s) [Suc i..<n1]"
    using r(3) Suc.prems(3) by (auto intro!: dents_same [OF Suc.prems(2)])
  have ds: "map (dents blk sv s) [i..<n1] = ?d # map (dents blk sv s) [Suc i..<n1]" using lt(1) by (simp add: upt_conv_Cons)
  have ok: "ents_ok (map (dents blk sv s) [Suc i..<n1])"
    using Suc.prems(5) unfolding ds by (auto simp: ents_ok_def split: if_splits)
  define f' where "f' = (if \<not> used ?d then f\<lparr>df_empty := Some (int i)\<rparr>
      else if entry_name ?d = nm then f\<lparr>df_found := True, df_slot := Some (int i), df_ino := Some (sfd_ino ?d)\<rparr> else f)"
  have g: "g = scan nm (Suc i) (map (dents blk sv s) [Suc i..<n1]) f'" using Suc.prems(7) unfolding ds f'_def by simp
  have once: "\<not> df_found f" if "used ?d" "entry_name ?d = nm" using Suc.prems(6) that unfolding ds by (auto simp: ents_map_None)
  have rest: "ents_map (map (dents blk sv s) [Suc i..<n1]) nm = None" if "df_found f'"
    using that Suc.prems(5,6) unfolding ds f'_def by (auto simp: ents_map_None ents_ok_def image_iff split: if_splits)
  have step: "dir_find_from E nm i n1 f sv s = dir_find_from E nm (Suc i) n1 f' sv ?s"
    using lt(1) r(1) once by (simp add: dir_find_from.simps [of E nm i] f'_def)
  have "k = n1 - Suc i" "Suc i \<le> n1" using Suc.hyps(2) lt by simp_all
  from Suc.hyps(1) [OF this(1) r(2) ino Suc.prems(3) this(2), unfolded same, OF ok _ g] rest obtain m' d' where
    "dir_find_from E nm (Suc i) n1 f' sv ?s = Done (if df_found g then EOK else ENOENT, g, sv, ?s\<lparr>sfs_mem := m', sfs_dev := d'\<rparr>)"
    "vol_ok good n E (?s\<lparr>sfs_mem := m', sfs_dev := d'\<rparr>)" "\<forall>j < n. blk d' j = blk d j"
    by auto
  then show ?case unfolding step using r(3) by (intro exI [of _ m'] exI [of _ d']) simp
qed

lemma findname_ok:
  assumes ok: "vol_ok good n E s" and ino: "inode_ok blk n sv s" and dir: "dir_ok blk sv s"
    and g: "g = scan nm 0 (dirlist blk sv s) \<lparr>df_found = False, df_ino = None, df_slot = None, df_empty = None\<rparr>"
  shows "\<exists>m d. sfs_dir_findname E sv nm s = Done (if df_found g then EOK else ENOENT, g, sv, s\<lparr>sfs_mem := m, sfs_dev := d\<rparr>)
    \<and> vol_ok good n E (s\<lparr>sfs_mem := m, sfs_dev := d\<rparr>) \<and> (\<forall>j < n. blk d j = blk (sfs_dev s) j)"
proof -
  have "sfs_dir_nentries sv = Done (nents sv)" using dir by (simp add: sfs_dir_nentries_def dir_ok_def direntry_size_def Let_def)
  then show ?thesis using find_from_scan [OF ok ino _ _ _ _ g] dir unfolding sfs_dir_findname_def by (simp add: dir_ok_def)
qed

end

section \<open>Linking and unlinking\<close>

text \<open>Everything but the entries that a directory operation keeps.\<close>

definition dir_sound ::
  "('d \<Rightarrow> bool) \<Rightarrow> ('d \<Rightarrow> nat \<Rightarrow> u8 list) \<Rightarrow> nat \<Rightarrow> 'd sfs_env \<Rightarrow> sfs_vnode \<Rightarrow> 'd sfs_fs \<Rightarrow> bool" where
  "dir_sound good blk n E sv s \<longleftrightarrow> vol_ok good n E s \<and> inode_ok blk n sv s \<and> dir_ok blk sv s"

lemma dir_okI:
  assumes "dir_ok blk sv s" and "sfi_type (sv_i sv') = sfi_type (sv_i sv)" and "unat (sfi_size (sv_i sv')) = 64 * k" and "k \<le> MAXENTS"
    and "map (dents blk sv' s') [0..<k] = ds" and "ents_ok ds"
  shows "dir_ok blk sv' s'" and "dir_map blk sv' s' = ents_map ds"
  using assms by (simp_all add: dir_ok_def dir_map_def)

lemma map_upt_update: "i < k \<Longrightarrow> map (\<lambda>j. if j = i then x else f j) [0..<k] = (map f [0..<k])[i := x]"
  by (rule nth_equalityI) (auto simp: nth_list_update)

context sfs_volume
begin

lemma writedir_ok:
  assumes ok: "vol_ok good n E s" and ino: "inode_ok blk n sv s" and i: "i < MAXENTS" and len: "length (sfd_name sd) = SFS_NAMELEN"
  shows "\<exists>e sv' s'. sfs_writedir E sv (int i) sd s = Done (e, sv', s') \<and> vol_ok good n E s' \<and> inode_ok blk n sv' s'
    \<and> sfi_type (sv_i sv') = sfi_type (sv_i sv)
    \<and> (e = ENOSPC \<and> file_block blk sv s (i div 8) = 0 \<and> sfi_size (sv_i sv') = sfi_size (sv_i sv)
         \<and> (\<forall>j < MAXENTS. dents blk sv' s' j = dents blk sv s j)
       \<or> e = EOK \<and> unat (sfi_size (sv_i sv')) = max (unat (sfi_size (sv_i sv))) (64 * Suc i)
         \<and> (\<forall>j < MAXENTS. dents blk sv' s' j = (if j = i then sd else dents blk sv s j)))"
proof -
  note p = slot_pos [OF i]
  have l64: "length (enc_direntry sd) = 64" using len by (simp add: SFS_NAMELEN_def)
  have fit: "64 * i div 512 < MAXBLOCKS" "64 * i mod 512 + length (enc_direntry sd) \<le> 512" using p l64 by simp_all
  obtain e sv' s' where r: "sfs_metaio E sv (int (64 * i)) (enc_direntry sd) UIO_WRITE s = Done (e, enc_direntry sd, sv', s')"
    and w: "meta_wrote good blk n E sv (64 * i) (enc_direntry sd) s e sv' s'"
    using metaio_write [OF ok ino fit] by (elim exE conjE) (rule that)
  have run: "sfs_writedir E sv (int i) sd s = Done (e, sv', s')" using r unfolding sfs_writedir_def Let_def p(1) by simp
  have same: "dents blk sv' s' j = dents blk sv s j"
    if "\<forall>j < MAXBLOCKS. fcontent blk sv' s' j = fcontent blk sv s j" "j < MAXENTS" for j
    using that slot_pos(4) [OF that(2)] by (simp add: dents_def)
  have upd: "dents blk sv' s' j = (if j = i then sd else dents blk sv s j)"
    if c: "\<forall>j < MAXBLOCKS. fcontent blk sv' s' j = (if j = i div 8 then overlay (fcontent blk sv s j) (64 * (i mod 8)) (enc_direntry sd)
      else fcontent blk sv s j)" and j: "j < MAXENTS" for j
  proof (cases "j div 8 = i div 8")
    case True
    have "j = i \<longleftrightarrow> j mod 8 = i mod 8" using True by (metis div_mult_mod_eq)
    then show ?thesis
      using c slot_pos(4) [OF j] True overlay_slot [OF fcontent_len [OF ok ino p(4)] l64, of "j mod 8" "i mod 8"]
      by (simp add: dents_def)
  next
    case False
    then show ?thesis using c slot_pos(4) [OF j] by (auto simp: dents_def)
  qed
  have keep: "vol_ok good n E s'" "inode_ok blk n sv' s'" "sfi_type (sv_i sv') = sfi_type (sv_i sv)"
    using w by (simp_all add: meta_wrote_def)
  have out: "e = ENOSPC \<and> file_block blk sv s (i div 8) = 0 \<and> sfi_size (sv_i sv') = sfi_size (sv_i sv)
      \<and> (\<forall>j < MAXBLOCKS. fcontent blk sv' s' j = fcontent blk sv s j)
    \<or> e = EOK \<and> unat (sfi_size (sv_i sv')) = max (unat (sfi_size (sv_i sv))) (64 * Suc i)
      \<and> (\<forall>j < MAXBLOCKS. fcontent blk sv' s' j = (if j = i div 8 then overlay (fcontent blk sv s j) (64 * (i mod 8)) (enc_direntry sd)
          else fcontent blk sv s j))"
    using w unfolding meta_wrote_def p(2,3) l64 mult_Suc_right add.commute [of 64] by blast
  show ?thesis
    using out by (intro exI [of _ e] exI [of _ sv'] exI [of _ s'] conjI run keep, elim disjE) (use same upd in blast)+
qed

lemma writedir_far:
  assumes "vol_ok good n E s"
  shows "sfs_writedir E sv (int MAXENTS) sd s = Done (EFBIG, sv, s)"
proof -
  have held: "vfs_biglock_do_i_hold s" using assms by (simp add: vol_ok_def vfs_biglock_do_i_hold_def)
  have "sfs_bmap E sv (143 :: u32) da s = Done (EFBIG, None, sv, s)" for da
    using bmap_too_far [OF held, of 143] by (simp add: MAXBLOCKS_def)
  then show ?thesis using held
    by (simp add: sfs_writedir_def sfs_metaio_def MAXENTS_def direntry_size_def SFS_BLOCKSIZE_def signed_divide_int_def)
qed

lemma dir_reads:
  assumes "dir_sound good blk n E sv s" and "vol_ok good n E (s\<lparr>sfs_mem := m, sfs_dev := d\<rparr>)" and "\<forall>j < n. blk d j = blk (sfs_dev s) j"
  shows "dir_sound good blk n E sv (s\<lparr>sfs_mem := m, sfs_dev := d\<rparr>)"
    and "dir_map blk sv (s\<lparr>sfs_mem := m, sfs_dev := d\<rparr>) = dir_map blk sv s"
    and "dirlist blk sv (s\<lparr>sfs_mem := m, sfs_dev := d\<rparr>) = dirlist blk sv s"
proof -
  have ino: "inode_ok blk n sv s" and dir: "dir_ok blk sv s" using assms(1) by (simp_all add: dir_sound_def)
  show l: "dirlist blk sv (s\<lparr>sfs_mem := m, sfs_dev := d\<rparr>) = dirlist blk sv s"
    using dir assms(3) by (auto simp: dir_ok_def intro!: dents_same [OF ino])
  show "dir_map blk sv (s\<lparr>sfs_mem := m, sfs_dev := d\<rparr>) = dir_map blk sv s" unfolding dir_map_def l ..
  have "inode_ok blk n sv (s\<lparr>sfs_mem := m, sfs_dev := d\<rparr>)" using assms(3) by (intro inode_ok_cong [OF ino]) simp_all
  then show "dir_sound good blk n E sv (s\<lparr>sfs_mem := m, sfs_dev := d\<rparr>)" using assms(2) dir unfolding dir_sound_def dir_ok_def l by simp
qed

text \<open>An entry stored in a free slot or past the end, for a name the directory does not have.\<close>

lemma store_ok:
  assumes snd: "dir_sound good blk n E sv s" and k: "k = nents sv \<or> k < nents sv \<and> \<not> used (dents blk sv s k)"
    and new: "dir_map blk sv s (entry_name sd) = None" and len: "length (sfd_name sd) = SFS_NAMELEN" and i: "used sd"
  shows "\<exists>e sv' s'. sfs_writedir E sv (int k) sd s = Done (e, sv', s') \<and> dir_sound good blk n E sv' s'
    \<and> (e = EOK \<and> dir_map blk sv' s' = (dir_map blk sv s)(entry_name sd \<mapsto> sfd_ino sd)
       \<or> (e = ENOSPC \<and> file_block blk sv s (k div 8) = 0 \<or> e = EFBIG \<and> nents sv = MAXENTS) \<and> dir_map blk sv' s' = dir_map blk sv s)"
proof -
  have ok: "vol_ok good n E s" and ino: "inode_ok blk n sv s" and dir: "dir_ok blk sv s" using snd by (simp_all add: dir_sound_def)
  have sz: "unat (sfi_size (sv_i sv)) = 64 * nents sv" using dir by (auto simp: dir_ok_def)
  have le: "nents sv \<le> MAXENTS" and eok: "ents_ok (dirlist blk sv s)" using dir by (simp_all add: dir_ok_def)
  show ?thesis
  proof (cases "k < MAXENTS")
    case False
    then have "k = MAXENTS" "nents sv = MAXENTS" using k le by auto
    then show ?thesis using writedir_far [OF ok] snd by auto
  next
    case True
    obtain e sv' s' where run: "sfs_writedir E sv (int k) sd s = Done (e, sv', s')" and keep: "vol_ok good n E s'" "inode_ok blk n sv' s'"
      "sfi_type (sv_i sv') = sfi_type (sv_i sv)" and out:
      "e = ENOSPC \<and> file_block blk sv s (k div 8) = 0 \<and> sfi_size (sv_i sv') = sfi_size (sv_i sv)
         \<and> (\<forall>j < MAXENTS. dents blk sv' s' j = dents blk sv s j)
       \<or> e = EOK \<and> unat (sfi_size (sv_i sv')) = max (unat (sfi_size (sv_i sv))) (64 * Suc k)
         \<and> (\<forall>j < MAXENTS. dents blk sv' s' j = (if j = k then sd else dents blk sv s j))"
      using writedir_ok [OF ok ino True len] by (elim exE conjE) (rule that)
    show ?thesis using out
    proof (elim disjE conjE)
      assume hole: "file_block blk sv s (k div 8) = 0"
      assume a: "e = ENOSPC" "sfi_size (sv_i sv') = sfi_size (sv_i sv)" "\<forall>j < MAXENTS. dents blk sv' s' j = dents blk sv s j"
      then have "map (dents blk sv' s') [0..<nents sv] = dirlist blk sv s" using le by simp
      note res = dir_okI [OF dir keep(3) _ le this eok]
      then show ?thesis using run keep a(1) sz a(2) hole by (auto simp: dir_sound_def dir_map_def)
    next
      assume a: "e = EOK" "unat (sfi_size (sv_i sv')) = max (unat (sfi_size (sv_i sv))) (64 * Suc k)"
        "\<forall>j < MAXENTS. dents blk sv' s' j = (if j = k then sd else dents blk sv s j)"
      define k' where "k' = max (nents sv) (Suc k)"
      have k': "k' \<le> MAXENTS" "unat (sfi_size (sv_i sv')) = 64 * k'" using True le a(2) sz by (auto simp: k'_def max_def)
      define ds where "ds = map (\<lambda>j. if j = k then sd else dents blk sv s j) [0..<k']"
      have l: "map (dents blk sv' s') [0..<k'] = ds" using a(3) k'(1) by (simp add: ds_def)
      have "ents_ok ds \<and> ents_map ds = (dir_map blk sv s)(entry_name sd \<mapsto> sfd_ino sd)"
        using k
      proof (elim disjE conjE)
        assume e: "k = nents sv"
        then have "ds = dirlist blk sv s @ [sd]" by (simp add: ds_def k'_def)
        then show ?thesis using ents_map_append [OF new [unfolded dir_map_def] eok i] by (simp add: dir_map_def)
      next
        assume e: "k < nents sv" "\<not> used (dents blk sv s k)"
        then have "k' = nents sv" by (simp add: k'_def)
        then have "ds = (dirlist blk sv s)[k := sd]" using map_upt_update [OF e(1)] by (simp add: ds_def)
        then show ?thesis using ents_map_update [OF _ _ new [unfolded dir_map_def] eok i, of k] e by (simp add: dir_map_def)
      qed
      then show ?thesis using run keep a(1) dir_okI [OF dir keep(3) k'(2,1) l] by (auto simp: dir_sound_def)
    qed
  qed
qed

lemma link_ok:
  assumes snd: "dir_sound good blk n E sv s" and nm: "0 \<notin> set nm" and i: "ino \<noteq> 0"
  shows "\<exists>e slot sv' s'. sfs_dir_link E sv nm ino s = Done (e, slot, sv', s') \<and> dir_sound good blk n E sv' s'
    \<and> (if dir_map blk sv s nm \<noteq> None then e = EEXIST \<and> dir_map blk sv' s' = dir_map blk sv s
       else if SFS_NAMELEN \<le> length nm then e = ENAMETOOLONG \<and> dir_map blk sv' s' = dir_map blk sv s
       else e = EOK \<and> dir_map blk sv' s' = (dir_map blk sv s)(nm \<mapsto> ino)
         \<or> (e = ENOSPC \<and> (\<exists>k \<le> nents sv. file_block blk sv s (k div 8) = 0) \<or> e = EFBIG \<and> nents sv = MAXENTS)
           \<and> dir_map blk sv' s' = dir_map blk sv s)"
proof -
  have ok: "vol_ok good n E s" and ino: "inode_ok blk n sv s" and dir: "dir_ok blk sv s" using snd by (simp_all add: dir_sound_def)
  define g where "g = scan nm 0 (dirlist blk sv s) \<lparr>df_found = False, df_ino = None, df_slot = None, df_empty = None\<rparr>"
  obtain m d where r: "sfs_dir_findname E sv nm s = Done (if df_found g then EOK else ENOENT, g, sv, s\<lparr>sfs_mem := m, sfs_dev := d\<rparr>)"
    "vol_ok good n E (s\<lparr>sfs_mem := m, sfs_dev := d\<rparr>)" "\<forall>j < n. blk d j = blk (sfs_dev s) j"
    using findname_ok [OF ok ino dir g_def] by (elim exE conjE) (rule that)
  let ?s = "s\<lparr>sfs_mem := m, sfs_dev := d\<rparr>"
  note snd' = dir_reads [OF snd r(2,3)]
  show ?thesis
  proof (cases "dir_map blk sv s nm")
    case (Some x)
    then have "df_found g" using scan_some [of "dirlist blk sv s" nm x] dir unfolding g_def by (simp add: dir_map_def dir_ok_def)
    then have "sfs_dir_link E sv nm ino s = Done (EEXIST, None, sv, ?s)" using r(1) by (simp add: sfs_dir_link_def Let_def)
    then show ?thesis using snd' Some by auto
  next
    case None
    then have nf: "\<not> df_found g" using scan_none [of "dirlist blk sv s" nm] unfolding g_def by (simp add: dir_map_def)
    show ?thesis
    proof (cases "SFS_NAMELEN \<le> length nm")
      case True
      then have "sfs_dir_link E sv nm ino s = Done (ENAMETOOLONG, None, sv, ?s)" using r(1) nf by (simp add: sfs_dir_link_def Let_def)
      then show ?thesis using snd' None True by auto
    next
      case False
      let ?sd = "\<lparr>sfd_ino = ino, sfd_name = nm @ replicate (SFS_NAMELEN - length nm) 0\<rparr>"
      have nent: "sfs_dir_nentries sv = Done (nents sv)" using dir by (simp add: sfs_dir_nentries_def dir_ok_def direntry_size_def Let_def)
      have emp: "df_empty g = None \<or> (\<exists>k < nents sv. df_empty g = Some (int k) \<and> \<not> used (dents blk sv s k))"
        using scan_empty [of nm 0 "dirlist blk sv s" "\<lparr>df_found = False, df_ino = None, df_slot = None, df_empty = None\<rparr>", folded g_def]
        by auto
      define k where "k = (case df_empty g of None \<Rightarrow> nents sv | Some i \<Rightarrow> nat i)"
      have "dents blk sv ?s i = dents blk sv s i" if "i < nents sv" for i
        using that dir r(3) by (intro dents_same [OF ino]) (simp_all add: dir_ok_def)
      then have k: "k = nents sv \<or> k < nents sv \<and> \<not> used (dents blk sv ?s k)" using emp by (auto simp: k_def)
      have run: "sfs_dir_link E sv nm ino s = bnd (sfs_writedir E sv (int k) ?sd ?s) (\<lambda>(result, sv, s). Done (result, Some (int k), sv, s))"
        using r(1) nf False nent emp by (auto simp: sfs_dir_link_def Let_def k_def)
      have nm': "entry_name ?sd = nm" using entry_name_link [of nm ino] False nm by simp
      have "dir_map blk sv ?s (entry_name ?sd) = None" "length (sfd_name ?sd) = SFS_NAMELEN" "used ?sd"
        using None snd'(2) i False by (simp_all add: nm')
      from store_ok [OF snd'(1) k this] obtain e sv' s' where st: "sfs_writedir E sv (int k) ?sd ?s = Done (e, sv', s')"
        "dir_sound good blk n E sv' s'" "e = EOK \<and> dir_map blk sv' s' = (dir_map blk sv s)(nm \<mapsto> ino)
          \<or> (e = ENOSPC \<and> file_block blk sv ?s (k div 8) = 0 \<or> e = EFBIG \<and> nents sv = MAXENTS) \<and> dir_map blk sv' s' = dir_map blk sv s"
        unfolding nm' snd'(2) sfs_direntry.select_convs by (elim exE conjE) (rule that)
      then have "sfs_dir_link E sv nm ino s = Done (e, Some (int k), sv', s')" using run by simp
      moreover have "file_block blk sv ?s (k div 8) = file_block blk sv s (k div 8)"
        using r(3) fcontent_cong(1) [OF ino, of ?s 0] by (simp add: MAXBLOCKS_def)
      moreover have "k \<le> nents sv" using k by auto
      ultimately show ?thesis using st(2,3) None False by (intro exI conjI) auto
    qed
  qed
qed

lemma hole_unused: "file_block blk sv s (k div 8) = 0 \<Longrightarrow> \<not> used (dents blk sv s k)"
proof -
  have "4 \<le> min 64 (512 - 64 * (k mod 8))" using mod_less_divisor [of 8 k] by simp
  then have "take 4 (take 64 (drop (64 * (k mod 8)) (replicate 512 0))) = replicate 4 (0 :: u8)" by (simp add: min_absorb1)
  moreover have "be_words (replicate 4 0) = [0]" using be_words_zero [of 1] by simp
  ultimately show "file_block blk sv s (k div 8) = 0 \<Longrightarrow> ?thesis" by (simp add: dents_def dec_direntry_def fcontent_def)
qed

lemma unlink_ok:
  assumes snd: "dir_sound good blk n E sv s" and k: "k < nents sv" and u: "used (dents blk sv s k)"
  shows "\<exists>sv' s'. sfs_dir_unlink E sv (int k) s = Done (EOK, sv', s') \<and> dir_sound good blk n E sv' s'
    \<and> dir_map blk sv' s' = (dir_map blk sv s)(entry_name (dents blk sv s k) := None)"
proof -
  let ?sd = "\<lparr>sfd_ino = SFS_NOINO, sfd_name = replicate SFS_NAMELEN 0\<rparr>"
  have ok: "vol_ok good n E s" and ino: "inode_ok blk n sv s" and dir: "dir_ok blk sv s" using snd by (simp_all add: dir_sound_def)
  have sz: "unat (sfi_size (sv_i sv)) = 64 * nents sv" and le: "nents sv \<le> MAXENTS" and eok: "ents_ok (dirlist blk sv s)"
    using dir by (auto simp: dir_ok_def)
  have "k < MAXENTS" "length (sfd_name ?sd) = SFS_NAMELEN" using k le by simp_all
  from writedir_ok [OF ok ino this] hole_unused [of sv s k] u obtain sv' s' where run: "sfs_writedir E sv (int k) ?sd s = Done (EOK, sv', s')"
    and keep: "vol_ok good n E s'" "inode_ok blk n sv' s'" "sfi_type (sv_i sv') = sfi_type (sv_i sv)"
    and out: "unat (sfi_size (sv_i sv')) = max (unat (sfi_size (sv_i sv))) (64 * Suc k)"
      "\<forall>j < MAXENTS. dents blk sv' s' j = (if j = k then ?sd else dents blk sv s j)"
    by blast
  have sz': "unat (sfi_size (sv_i sv')) = 64 * nents sv" using out(1) sz k by simp
  have "map (dents blk sv' s') [0..<nents sv] = map (\<lambda>j. if j = k then ?sd else dents blk sv s j) [0..<nents sv]" using out(2) le by simp
  then have l: "map (dents blk sv' s') [0..<nents sv] = (dirlist blk sv s)[k := ?sd]" unfolding map_upt_update [OF k] .
  have rm: "ents_ok ((dirlist blk sv s)[k := ?sd])" "ents_map ((dirlist blk sv s)[k := ?sd]) = (dir_map blk sv s)(entry_name (dents blk sv s k) := None)"
    using ents_map_remove [OF _ _ eok, of k ?sd] k u by (simp_all add: dir_map_def)
  note d = dir_okI [OF dir keep(3) sz' le l rm(1)]
  show ?thesis using run keep(1,2) d rm(2) unfolding dir_sound_def sfs_dir_unlink_def by (intro exI [of _ sv'] exI [of _ s']) simp
qed

text \<open>The search seen from outside.\<close>

lemma findname_map:
  assumes "dir_sound good blk n E sv s"
  shows "\<exists>e f s'. sfs_dir_findname E sv nm s = Done (e, f, sv, s') \<and> dir_sound good blk n E sv s' \<and> dirlist blk sv s' = dirlist blk sv s
    \<and> (case dir_map blk sv s nm of
         None \<Rightarrow> e = ENOENT
       | Some ino \<Rightarrow> e = EOK \<and> df_ino f = Some ino
           \<and> (\<exists>k < nents sv. df_slot f = Some (int k) \<and> used (dents blk sv s k) \<and> entry_name (dents blk sv s k) = nm))"
proof -
  have ok: "vol_ok good n E s" "inode_ok blk n sv s" "dir_ok blk sv s" using assms by (simp_all add: dir_sound_def)
  define g where "g = scan nm 0 (dirlist blk sv s) \<lparr>df_found = False, df_ino = None, df_slot = None, df_empty = None\<rparr>"
  obtain m d where r: "sfs_dir_findname E sv nm s = Done (if df_found g then EOK else ENOENT, g, sv, s\<lparr>sfs_mem := m, sfs_dev := d\<rparr>)"
    "vol_ok good n E (s\<lparr>sfs_mem := m, sfs_dev := d\<rparr>)" "\<forall>j < n. blk d j = blk (sfs_dev s) j"
    using findname_ok [OF ok g_def] by (elim exE conjE) (rule that)
  have eok: "ents_ok (dirlist blk sv s)" using ok(3) by (simp add: dir_ok_def)
  have "case dir_map blk sv s nm of None \<Rightarrow> \<not> df_found g
      | Some ino \<Rightarrow> df_found g \<and> df_ino g = Some ino
          \<and> (\<exists>k < nents sv. df_slot g = Some (int k) \<and> used (dents blk sv s k) \<and> entry_name (dents blk sv s k) = nm)"
  proof (cases "dir_map blk sv s nm")
    case None
    then show ?thesis using scan_none [of "dirlist blk sv s" nm] unfolding g_def by (simp add: dir_map_def)
  next
    case (Some x)
    then have "ents_map (dirlist blk sv s) nm = Some x" by (simp add: dir_map_def)
    from scan_some [OF this eok, of 0 "\<lparr>df_found = False, df_ino = None, df_slot = None, df_empty = None\<rparr>", folded g_def]
    show ?thesis using Some by auto
  qed
  then show ?thesis using r(1) dir_reads [OF assms r(2,3)]
    by (intro exI [of _ "if df_found g then EOK else ENOENT"] exI [of _ g] exI [of _ "s\<lparr>sfs_mem := m, sfs_dev := d\<rparr>"] conjI)
      (auto split: option.splits)
qed

end

text \<open>A volume with a directory of one block that holds no entry yet.\<close>

definition demo_dir_vol :: "u8 list list lhd sfs_fs" where
  "demo_dir_vol = demo_vol\<lparr>sfs_freemap := \<lparr>nbits = 8, bm_v = [7]\<rparr>\<rparr>"

definition demo_dir :: sfs_vnode where
  "demo_dir = \<lparr>sv_i = \<lparr>sfi_size = 0, sfi_type = 2, sfi_linkcount = 2, sfi_direct = 2 # replicate 14 0, sfi_indirect = 0\<rparr>,
     sv_ino = 1, sv_dirty = False\<rparr>"

lemma demo_dir_sound: "dir_sound (lhd_good 8) lhd_blk 8 lhd_env demo_dir demo_dir_vol"
proof -
  have "bitmap_ok \<lparr>nbits = 8, bm_v = [7]\<rparr>" by (auto simp: bitmap_ok_def)
  moreover have b: "bm_bit \<lparr>nbits = 8, bm_v = [7]\<rparr> 0" "bm_bit \<lparr>nbits = 8, bm_v = [7]\<rparr> 2" by (simp_all add: bm_bit_def)
  ultimately have "vol_ok (lhd_good 8) 8 lhd_env demo_dir_vol"
    using demo_vol_ok by (auto simp: vol_ok_def demo_dir_vol_def demo_vol_def simp del: map_eq_conv)
  moreover have "file_block lhd_blk demo_dir demo_dir_vol i = (if i = 0 then 2 else 0)" if "i < MAXBLOCKS" for i
    by (simp add: file_block_def demo_dir_def nth_Cons split: nat.split)
  then have "inode_ok lhd_blk 8 demo_dir demo_dir_vol"
    using b by (simp add: inode_ok_def) (simp add: demo_dir_def demo_dir_vol_def)
  moreover have "dir_ok lhd_blk demo_dir demo_dir_vol" by (simp add: dir_ok_def demo_dir_def ents_ok_def)
  ultimately show ?thesis by (simp add: dir_sound_def)
qed

section \<open>Properties\<close>

text \<open>
  C10: \<open>sfs_dir_findname\<close> on a sound directory of a volume whose disk has no errors is lookup in the map from names to
  inode numbers that the directory stands for: \<open>ENOENT\<close> where the map has nothing, and otherwise the inode
  number and a slot that holds the name. The assertion that the name was not found before never
  fails, and neither the directory nor its entries change.
\<close>

theorem sfs_dir_findname_lookup:
  assumes "dir_sound (lhd_good n) lhd_blk n lhd_env sv s"
  shows "\<exists>e f s'. sfs_dir_findname lhd_env sv nm s = Done (e, f, sv, s') \<and> dir_sound (lhd_good n) lhd_blk n lhd_env sv s'
    \<and> dirlist lhd_blk sv s' = dirlist lhd_blk sv s
    \<and> (case dir_map lhd_blk sv s nm of
         None \<Rightarrow> e = ENOENT
       | Some ino \<Rightarrow> e = EOK \<and> df_ino f = Some ino
           \<and> (\<exists>k < nents sv. df_slot f = Some (int k) \<and> used (dents lhd_blk sv s k) \<and> entry_name (dents lhd_blk sv s k) = nm))"
  by (rule sfs_lhd.findname_map [OF assms])

theorem sfs_dir_findname_lookup_witness:
  "\<exists>f s'. sfs_dir_findname lhd_env demo_dir [97] demo_dir_vol = Done (ENOENT, f, demo_dir, s')"
proof -
  have "dir_map lhd_blk demo_dir demo_dir_vol [97] = None" by (simp add: dir_map_def ents_map_def demo_dir_def)
  then show ?thesis using sfs_dir_findname_lookup [OF demo_dir_sound, of "[97]"] by auto
qed

text \<open>
  C7: \<open>sfs_dir_link\<close> on a sound directory: a name that is there already is refused with \<open>EEXIST\<close>, one of 60 bytes or
  more with \<open>ENAMETOOLONG\<close>, and otherwise the map of the directory is updated at that name and nowhere
  else. It fails only with \<open>ENOSPC\<close>, when the entry falls into a hole, or with \<open>EFBIG\<close>, when all 1144 entries
  are in use, and then the map is as it was. The directory stays sound on every path.
\<close>

theorem sfs_dir_link_adds:
  assumes "dir_sound (lhd_good n) lhd_blk n lhd_env sv s" and "0 \<notin> set nm" and "ino \<noteq> 0"
  shows "\<exists>e slot sv' s'. sfs_dir_link lhd_env sv nm ino s = Done (e, slot, sv', s') \<and> dir_sound (lhd_good n) lhd_blk n lhd_env sv' s'
    \<and> (if dir_map lhd_blk sv s nm \<noteq> None then e = EEXIST \<and> dir_map lhd_blk sv' s' = dir_map lhd_blk sv s
       else if SFS_NAMELEN \<le> length nm then e = ENAMETOOLONG \<and> dir_map lhd_blk sv' s' = dir_map lhd_blk sv s
       else e = EOK \<and> dir_map lhd_blk sv' s' = (dir_map lhd_blk sv s)(nm \<mapsto> ino)
         \<or> (e = ENOSPC \<and> (\<exists>k \<le> nents sv. file_block lhd_blk sv s (k div 8) = 0) \<or> e = EFBIG \<and> nents sv = MAXENTS)
           \<and> dir_map lhd_blk sv' s' = dir_map lhd_blk sv s)"
  by (rule sfs_lhd.link_ok [OF assms])

theorem sfs_dir_link_adds_witness:
  "\<exists>slot sv' s'. sfs_dir_link lhd_env demo_dir [97] 5 demo_dir_vol = Done (EOK, slot, sv', s') \<and> dir_map lhd_blk sv' s' [97] = Some 5"
proof -
  have "dir_map lhd_blk demo_dir demo_dir_vol [97] = None" by (simp add: dir_map_def ents_map_def demo_dir_def)
  moreover have "nents demo_dir = 0" "file_block lhd_blk demo_dir demo_dir_vol 0 = 2" by (simp_all add: demo_dir_def file_block_def)
  ultimately show ?thesis
    using sfs_dir_link_adds [OF demo_dir_sound, of "[97]" 5] by (auto simp: SFS_NAMELEN_def MAXENTS_def)
qed

text \<open>
  C11: A name linked into a sound directory with room for it is found under the inode number it was linked
  to, can be unlinked at the slot the search gives, is then not found any more, and the directory maps
  every name to what it mapped it to before.
\<close>

theorem sfs_dir_roundtrip:
  assumes "dir_sound (lhd_good n) lhd_blk n lhd_env sv s" and "0 \<notin> set nm" and "ino \<noteq> 0" and "length nm < SFS_NAMELEN"
    and "dir_map lhd_blk sv s nm = None" and "nents sv < MAXENTS" and "\<forall>k \<le> nents sv. file_block lhd_blk sv s (k div 8) \<noteq> 0"
  shows "\<exists>slot sv1 s1 f s2 k sv3 s3 g s4. sfs_dir_link lhd_env sv nm ino s = Done (EOK, slot, sv1, s1)
    \<and> sfs_dir_findname lhd_env sv1 nm s1 = Done (EOK, f, sv1, s2) \<and> df_ino f = Some ino \<and> df_slot f = Some k
    \<and> sfs_dir_unlink lhd_env sv1 k s2 = Done (EOK, sv3, s3)
    \<and> sfs_dir_findname lhd_env sv3 nm s3 = Done (ENOENT, g, sv3, s4) \<and> dir_map lhd_blk sv3 s3 = dir_map lhd_blk sv s"
proof -
  obtain slot sv1 s1 where l: "sfs_dir_link lhd_env sv nm ino s = Done (EOK, slot, sv1, s1)"
    "dir_sound (lhd_good n) lhd_blk n lhd_env sv1 s1" "dir_map lhd_blk sv1 s1 = (dir_map lhd_blk sv s)(nm \<mapsto> ino)"
    using sfs_lhd.link_ok [OF assms(1-3)] assms(4-7) by auto
  obtain f s2 k where f: "sfs_dir_findname lhd_env sv1 nm s1 = Done (EOK, f, sv1, s2)" "dir_sound (lhd_good n) lhd_blk n lhd_env sv1 s2"
    "dirlist lhd_blk sv1 s2 = dirlist lhd_blk sv1 s1" "df_ino f = Some ino" "k < nents sv1" "df_slot f = Some (int k)"
    "used (dents lhd_blk sv1 s1 k)" "entry_name (dents lhd_blk sv1 s1 k) = nm"
    using sfs_lhd.findname_map [OF l(2), of nm] l(3) by auto
  have same: "dents lhd_blk sv1 s2 k = dents lhd_blk sv1 s1 k" using f(3,5) by simp
  obtain sv3 s3 where u: "sfs_dir_unlink lhd_env sv1 (int k) s2 = Done (EOK, sv3, s3)" "dir_sound (lhd_good n) lhd_blk n lhd_env sv3 s3"
    "dir_map lhd_blk sv3 s3 = (dir_map lhd_blk sv1 s2)(nm := None)"
    using sfs_lhd.unlink_ok [OF f(2,5)] f(7,8) unfolding same by auto
  have m: "dir_map lhd_blk sv3 s3 = dir_map lhd_blk sv s"
    using u(3) l(3) assms(5) unfolding dir_map_def f(3) by (simp add: fun_upd_idem)
  obtain g s4 where "sfs_dir_findname lhd_env sv3 nm s3 = Done (ENOENT, g, sv3, s4)"
    using sfs_lhd.findname_map [OF u(2), of nm] m assms(5) by auto
  then show ?thesis using l(1) f(1,4,6) u(1) m by blast
qed

theorem sfs_dir_roundtrip_witness:
  "\<exists>slot sv1 s1 f s2. sfs_dir_link lhd_env demo_dir [97] 5 demo_dir_vol = Done (EOK, slot, sv1, s1)
     \<and> sfs_dir_findname lhd_env sv1 [97] s1 = Done (EOK, f, sv1, s2) \<and> df_ino f = Some 5"
proof -
  have "dir_map lhd_blk demo_dir demo_dir_vol [97] = None" by (simp add: dir_map_def ents_map_def demo_dir_def)
  moreover have "nents demo_dir = 0" "file_block lhd_blk demo_dir demo_dir_vol 0 = 2" by (simp_all add: demo_dir_def file_block_def)
  ultimately show ?thesis
    using sfs_dir_roundtrip [OF demo_dir_sound, of "[97]" 5] by (auto simp: SFS_NAMELEN_def MAXENTS_def)
qed

end
