(* ===== verification/Kern_Exec.thy ===== *)
theory Kern_Exec
  imports Kern_Proc Kern_Mem
begin

text \<open>
  Program execution: \<open>execv\<close> and the functions that carry its arguments, \<^verbatim>\<open>kern/syscall/psyscall.c\<close>.

  The state is that of the processes, the memory as seen through the current address space, and the
  state \<open>'v\<close> of the file systems. The VFS functions, the loader and the functions on address spaces
  are fields of an environment: the kernel is built with one of two implementations of the latter, and
  switching address spaces changes the memory that is seen.

  Blocks of the kernel heap are values: a string is the bytes that were stored in it. The array of
  argument pointers is the block \<open>kmalloc\<close> handed out, as long as that block is; its slots hold what the
  memory held before (\<open>Garbage\<close>, or \<open>Null\<close> if it was zero). A store outside of a block, and \<open>kfree\<close> or
  a string function on \<open>Garbage\<close>, is a \<open>Fault\<close>. Which calls of \<open>kmalloc\<close> succeed is part of the environment.
\<close>

definition ARGMAX :: nat where "ARGMAX = 65536"

datatype kptr = Null | Garbage | Buf "u8 list"

datatype exec_result = Returned errno | Entered int u32 u32 u32

record ('m, 'v) kst =
  kn_ps :: "'m pstate"
  kn_mem :: umem
  kn_vfs :: 'v

record ('m, 'v) exec_env =
  x_vfs_open :: "u8 list \<Rightarrow> 'v \<Rightarrow> (errno \<times> nat \<times> 'v) outcome"
  x_vfs_close :: "nat \<Rightarrow> 'v \<Rightarrow> 'v outcome"
  x_as_create :: "'m \<Rightarrow> nat option \<times> 'm"
  x_as_deactivate :: "umem \<Rightarrow> 'm \<Rightarrow> umem \<times> 'm"
  x_as_activate :: "nat option \<Rightarrow> umem \<Rightarrow> 'm \<Rightarrow> umem \<times> 'm"
  x_load_elf :: "nat \<Rightarrow> nat option \<Rightarrow> umem \<Rightarrow> 'm \<Rightarrow> 'v \<Rightarrow> (errno \<times> u32 \<times> umem \<times> 'm \<times> 'v) outcome"
  x_as_define_stack :: "nat \<Rightarrow> 'm \<Rightarrow> errno \<times> u32 \<times> 'm"
  x_got_prog :: bool
  x_got_arg :: "nat \<Rightarrow> bool"
  x_got_array :: "nat \<Rightarrow> kptr list option"

section \<open>Strings of the user\<close>

text \<open>The loop of \<open>getLen\<close>: \<open>c\<close> is the byte at \<open>index\<close>.\<close>

function getLen_from :: "u32 \<Rightarrow> nat \<Rightarrow> u8 \<Rightarrow> umem \<Rightarrow> (errno \<times> nat option \<times> umem) outcome" where
  "getLen_from arg_string index c m =
     (if c \<noteq> 0 \<and> index < ARGMAX
      then bnd (copyin m (arg_string + of_nat (Suc index)) 1) (\<lambda>(err, bs, m).
           if err \<noteq> EOK then Done (err, None, m)
           else bnd (arr_get bs 0) (\<lambda>c. getLen_from arg_string (Suc index) c m))
      else if c \<noteq> 0 then Done (E2BIG, None, m)
      else Done (EOK, Some (index + 1), m))"
  by pat_completeness auto
termination
  by (relation "measure (\<lambda>(a, i, c, m). ARGMAX - i)") auto

declare getLen_from.simps [simp del]

definition getLen :: "u32 \<Rightarrow> umem \<Rightarrow> (errno \<times> nat option \<times> umem) outcome" where
  "getLen arg_string m =
     bnd (copyin m arg_string 1) (\<lambda>(err, bs, m).
     if err \<noteq> EOK then Done (err, None, m)
     else bnd (arr_get bs 0) (\<lambda>c. getLen_from arg_string 0 c m))"

text \<open>The pointer in slot \<open>i\<close> of an array of the user.\<close>

definition user_ptr :: "u32 \<Rightarrow> nat \<Rightarrow> umem \<Rightarrow> (errno \<times> u32 \<times> umem) outcome" where
  "user_ptr args i m =
     bnd (copyin m (args + of_nat (4 * i)) 4) (\<lambda>(err, bs, m).
     if err \<noteq> EOK then Done (err, 0, m)
     else bnd (arr_get (be_words bs) 0) (\<lambda>p. Done (EOK, p, m)))"

function getCount_from :: "u32 \<Rightarrow> nat \<Rightarrow> u32 \<Rightarrow> umem \<Rightarrow> (errno \<times> nat option \<times> umem) outcome" where
  "getCount_from args index arg_addr m =
     (if arg_addr \<noteq> 0 \<and> index < ARGMAX
      then bnd (user_ptr args (Suc index) m) (\<lambda>(ret, arg_addr, m).
           if ret \<noteq> EOK then Done (ret, None, m)
           else getCount_from args (Suc index) arg_addr m)
      else if arg_addr \<noteq> 0 then Done (E2BIG, None, m)
      else Done (EOK, Some index, m))"
  by pat_completeness auto
termination
  by (relation "measure (\<lambda>(a, i, c, m). ARGMAX - i)") auto

declare getCount_from.simps [simp del]

definition getCount :: "u32 \<Rightarrow> umem \<Rightarrow> (errno \<times> nat option \<times> umem) outcome" where
  "getCount args m =
     bnd (user_ptr args 0 m) (\<lambda>(ret, arg_addr, m).
     if ret \<noteq> EOK then Done (ret, None, m) else getCount_from args 0 arg_addr m)"

text \<open>\<open>copyinstr\<close> into a block of the kernel heap, which may be missing.\<close>

definition copyinstr_block :: "bool \<Rightarrow> u32 \<Rightarrow> nat \<Rightarrow> umem \<Rightarrow> (errno \<times> u8 list \<times> umem) outcome" where
  "copyinstr_block got src len m =
     (if \<not> got then Fault
      else bnd (copyinstr m src (of_nat len)) (\<lambda>(err, actual, dest, m). Done (err, dest, m)))"

function getargs_from ::
  "(nat \<Rightarrow> bool) \<Rightarrow> u32 \<Rightarrow> nat \<Rightarrow> nat \<Rightarrow> kptr list \<Rightarrow> umem \<Rightarrow> (errno \<times> kptr list \<times> umem) outcome" where
  "getargs_from got args i total_args kern_args m =
     (if i < total_args
      then bnd (user_ptr args i m) (\<lambda>(err, arg_ptr, m).
           if err \<noteq> EOK then Done (err, kern_args, m)
           else bnd (getLen arg_ptr m) (\<lambda>(err, len, m).
           if err \<noteq> EOK then Done (err, kern_args, m)
           else bnd (deref len) (\<lambda>len.
           bnd (copyinstr_block (got i) arg_ptr len m) (\<lambda>(err, kaddr, m).
           if err \<noteq> EOK then Done (err, kern_args, m)
           else bnd (arr_set kern_args i (Buf kaddr)) (\<lambda>kern_args.
           getargs_from got args (Suc i) total_args kern_args m)))))
      else bnd (arr_set kern_args total_args Null) (\<lambda>kern_args. Done (EOK, kern_args, m)))"
  by pat_completeness auto
termination
  by (relation "measure (\<lambda>(g, a, i, n, k, m). n - i)") auto

declare getargs_from.simps [simp del]

definition getargs ::
  "(nat \<Rightarrow> bool) \<Rightarrow> u32 \<Rightarrow> kptr list \<Rightarrow> nat \<Rightarrow> umem \<Rightarrow> (errno \<times> kptr list \<times> umem) outcome" where
  "getargs got args kern_args total_args m = getargs_from got args 0 total_args kern_args m"

definition getProgName :: "bool \<Rightarrow> u32 \<Rightarrow> umem \<Rightarrow> (errno \<times> u8 list \<times> umem) outcome" where
  "getProgName got src_name m =
     bnd (getLen src_name m) (\<lambda>(err, len, m).
     if err \<noteq> EOK then Done (err, [], m)
     else bnd (deref len) (\<lambda>len. copyinstr_block got src_name len m))"

text \<open>\<open>kfree\<close> takes the null pointer and blocks of the heap, and nothing else.\<close>

definition free_args :: "kptr list \<Rightarrow> nat \<Rightarrow> unit outcome" where
  "free_args kern_args total_args =
     (if total_args \<le> length kern_args \<and> Garbage \<notin> set (take total_args kern_args) then Done () else Fault)"

section \<open>Arguments on the new stack\<close>

definition kstrlen :: "u8 list \<Rightarrow> nat outcome" where
  "kstrlen bs = (if 0 \<in> set bs then Done (length (takeWhile (\<lambda>b. b \<noteq> 0) bs)) else Fault)"

text \<open>The loop of \<open>copyout_args\<close>, which goes down from the last argument.\<close>

primrec copyout_strs ::
  "kptr list \<Rightarrow> nat \<Rightarrow> u32 \<Rightarrow> u32 list \<Rightarrow> umem \<Rightarrow> (errno \<times> u32 \<times> u32 list \<times> umem) outcome" where
  "copyout_strs argumentStr 0 stackptr arg_ptrs m = Done (EOK, stackptr, arg_ptrs, m)"
| "copyout_strs argumentStr (Suc i) stackptr arg_ptrs m =
     bnd (arr_get argumentStr i) (\<lambda>p.
     case p of
       Null \<Rightarrow> Done (EFAULT, stackptr, arg_ptrs, m)
     | Garbage \<Rightarrow> Fault
     | Buf bs \<Rightarrow>
         bnd (kstrlen bs) (\<lambda>l.
         let arg_len = l + 1; stackptr = stackptr - of_nat (ROUNDUP arg_len 8) in
         bnd (copyout bs stackptr (of_nat arg_len) m) (\<lambda>(err, m).
         if err \<noteq> EOK then Done (err, stackptr, arg_ptrs, m)
         else bnd (arr_set arg_ptrs i stackptr) (\<lambda>arg_ptrs. copyout_strs argumentStr i stackptr arg_ptrs m))))"

text \<open>
  Result: the code, the stack pointer, what was stored through \<open>args_out_addr\<close>, and the memory. The
  array of pointers on the kernel stack starts with whatever was there, here zeros; every slot is set
  before it is used.
\<close>

definition copyout_args :: "kptr list \<Rightarrow> nat \<Rightarrow> u32 \<Rightarrow> umem \<Rightarrow> (errno \<times> u32 \<times> u32 option \<times> umem) outcome" where
  "copyout_args argumentStr total_args stackptr m =
     bnd (copyout_strs argumentStr total_args stackptr (replicate (total_args + 1) 0) m) (\<lambda>(err, stackptr, arg_ptrs, m).
     if err \<noteq> EOK then Done (err, stackptr, None, m)
     else bnd (arr_set arg_ptrs total_args 0) (\<lambda>arg_ptrs.
     let stackptr = stackptr - of_nat (ROUNDUP ((total_args + 1) * 4) 8); args_out_addr = stackptr in
     bnd (copyout (be_bytes arg_ptrs) args_out_addr (of_nat ((total_args + 1) * 4)) m) (\<lambda>(err, m).
     if err \<noteq> EOK then Done (err, stackptr, Some args_out_addr, m)
     else Done (EOK, stackptr - stackptr mod 8, Some args_out_addr, m))))"

section \<open>The system call\<close>

text \<open>Switching to an address space: deactivate, \<open>proc_setas\<close>, activate.\<close>

definition switch_as :: "('m, 'v) exec_env \<Rightarrow> nat option \<Rightarrow> ('m, 'v) kst \<Rightarrow> ('m, 'v) kst outcome" where
  "switch_as X as s =
     (let (mem, vm) = x_as_deactivate X (kn_mem s) (ps_vm (kn_ps s)) in
      bnd (proc_setas as ((kn_ps s)\<lparr>ps_vm := vm\<rparr>)) (\<lambda>(old, ps).
      bnd (proc_getas ps) (\<lambda>cur.
      let (mem, vm) = x_as_activate X cur mem (ps_vm ps) in
      Done (s\<lparr>kn_ps := ps\<lparr>ps_vm := vm\<rparr>, kn_mem := mem\<rparr>))))"

text \<open>A failure after the arguments were copied in: the blocks are freed.\<close>

definition exec_fail :: "kptr list \<Rightarrow> nat \<Rightarrow> errno \<Rightarrow> ('m, 'v) kst \<Rightarrow> (exec_result \<times> ('m, 'v) kst) outcome" where
  "exec_fail argumentStr total_args err s =
     bnd (free_args argumentStr total_args) (\<lambda>_. Done (Returned err, s))"

text \<open>From the point where the new address space is in place.\<close>

definition exec_load ::
  "('m, 'v) exec_env \<Rightarrow> nat option \<Rightarrow> nat \<Rightarrow> nat \<Rightarrow> kptr list \<Rightarrow> nat \<Rightarrow> ('m, 'v) kst \<Rightarrow> (exec_result \<times> ('m, 'v) kst) outcome" where
  "exec_load X old_as new_as v argumentStr total_args s =
     bnd (x_load_elf X v (Some new_as) (kn_mem s) (ps_vm (kn_ps s)) (kn_vfs s)) (\<lambda>(err, entrypoint, mem, vm, vfs).
     let s = s\<lparr>kn_ps := (kn_ps s)\<lparr>ps_vm := vm\<rparr>, kn_mem := mem, kn_vfs := vfs\<rparr> in
     if err \<noteq> EOK
     then bnd (switch_as X old_as s) (\<lambda>s.
          bnd (x_vfs_close X v (kn_vfs s)) (\<lambda>vfs. exec_fail argumentStr total_args err (s\<lparr>kn_vfs := vfs\<rparr>)))
     else bnd (x_vfs_close X v (kn_vfs s)) (\<lambda>vfs.
     let (err, stackptr, vm) = x_as_define_stack X new_as (ps_vm (kn_ps s));
         s = s\<lparr>kn_ps := (kn_ps s)\<lparr>ps_vm := vm\<rparr>, kn_vfs := vfs\<rparr> in
     if err \<noteq> EOK then bnd (switch_as X old_as s) (exec_fail argumentStr total_args err)
     else bnd (copyout_args argumentStr total_args stackptr (kn_mem s)) (\<lambda>(err, stackptr, args_out_addr, mem).
     let s = s\<lparr>kn_mem := mem\<rparr> in
     if err \<noteq> EOK then bnd (switch_as X old_as s) (exec_fail argumentStr total_args err)
     else bnd (free_args argumentStr total_args) (\<lambda>_.
     bnd (deref args_out_addr) (\<lambda>argv. Done (Entered (int total_args) argv stackptr entrypoint, s))))))"

definition sys_execv ::
  "('m, 'v) exec_env \<Rightarrow> u32 \<Rightarrow> u32 \<Rightarrow> ('m, 'v) kst \<Rightarrow> (exec_result \<times> ('m, 'v) kst) outcome" where
  "sys_execv X program args s =
     bnd (getLen program (kn_mem s)) (\<lambda>(err, nameLen, mem).
     let s = s\<lparr>kn_mem := mem\<rparr> in
     if err \<noteq> EOK then Done (Returned err, s)
     else bnd (getProgName (x_got_prog X) program (kn_mem s)) (\<lambda>(err, progToCreate, mem).
     let s = s\<lparr>kn_mem := mem\<rparr> in
     if err \<noteq> EOK then Done (Returned err, s)
     else bnd (getCount args (kn_mem s)) (\<lambda>(err, total_args, mem).
     let s = s\<lparr>kn_mem := mem\<rparr> in
     if err \<noteq> EOK then Done (Returned err, s)
     else bnd (deref total_args) (\<lambda>total_args.
     let argumentStr = (case x_got_array X total_args of None \<Rightarrow> [] | Some block \<Rightarrow> block) in
     bnd (getargs (x_got_arg X) args argumentStr total_args (kn_mem s)) (\<lambda>(err, argumentStr, mem).
     let s = s\<lparr>kn_mem := mem\<rparr> in
     if err \<noteq> EOK then exec_fail argumentStr total_args err s
     else bnd (x_vfs_open X progToCreate (kn_vfs s)) (\<lambda>(err, v, vfs).
     let s = s\<lparr>kn_vfs := vfs\<rparr> in
     if err \<noteq> EOK then exec_fail argumentStr total_args err s
     else bnd (proc_getas (kn_ps s)) (\<lambda>old_as.
     let (new_as, vm) = x_as_create X (ps_vm (kn_ps s)); s = s\<lparr>kn_ps := (kn_ps s)\<lparr>ps_vm := vm\<rparr>\<rparr> in
     case new_as of
       None \<Rightarrow> bnd (x_vfs_close X v (kn_vfs s)) (\<lambda>vfs. exec_fail argumentStr total_args ENOMEM (s\<lparr>kn_vfs := vfs\<rparr>))
     | Some new_as \<Rightarrow>
         bnd (switch_as X (Some new_as) s) (\<lambda>s. exec_load X old_as new_as v argumentStr total_args s))))))))"

section \<open>Strings and arrays in user memory\<close>

definition user_string :: "umem \<Rightarrow> u32 \<Rightarrow> u8 list \<Rightarrow> bool" where
  "user_string m p s \<longleftrightarrow> 0 \<notin> set s \<and> unat p + length s < 2 ^ 31 \<and> (\<forall>i \<le> length s. um_rd m (p + of_nat i))
     \<and> mem_block m p (length s + 1) = s @ [0]"

definition user_argv :: "umem \<Rightarrow> u32 \<Rightarrow> u32 list \<Rightarrow> bool" where
  "user_argv m args ptrs \<longleftrightarrow> 0 \<notin> set ptrs \<and> unat args + 4 * (length ptrs + 1) \<le> 2 ^ 31
     \<and> (\<forall>i < 4 * (length ptrs + 1). um_rd m (args + of_nat i))
     \<and> be_words (mem_block m args (4 * (length ptrs + 1))) = ptrs @ [0]"

lemma quiet [simp]: "\<not> tm_badfaultfunc m \<Longrightarrow> m\<lparr>tm_badfaultfunc := False\<rparr> = m"
  by (rule umem.equality) simp_all

lemma nth_not_in: "x \<notin> set xs \<Longrightarrow> i < length xs \<Longrightarrow> xs ! i \<noteq> x"
  by auto

lemma user_string_byte:
  assumes "user_string m p s" and "i \<le> length s"
  shows "um_byte m (p + of_nat i) = (s @ [0]) ! i"
proof -
  have "mem_block m p (length s + 1) ! i = um_byte m (p + of_nat i)" using assms(2) by (simp add: mem_block_def del: upt_Suc)
  then show ?thesis using assms(1) by (simp add: user_string_def)
qed

lemma copyin_byte:
  assumes "user_string m p s" and "i \<le> length s" and "\<not> tm_badfaultfunc m"
  shows "copyin m (p + of_nat i) 1 = Done (EOK, [(s @ [0]) ! i], m)"
proof -
  have "unat p + i < 2 ^ 31" using assms(1,2) by (simp add: user_string_def)
  then have "user_block (p + of_nat i) 1" using nat_addr [of p i] by (simp add: user_block_def)
  moreover have "um_rd m (p + of_nat i)" using assms(1,2) by (simp add: user_string_def)
  ultimately have "copyin m (p + of_nat i) 1 = Done (EOK, mem_block m (p + of_nat i) 1, m)"
    using copyin_reads [of "p + of_nat i" 1 m] assms(3) by simp
  then show ?thesis using user_string_byte [OF assms(1,2)] by (simp add: mem_block_def)
qed

lemma getLen_from_ok:
  assumes str: "user_string m p s" "length s \<le> ARGMAX" and q: "\<not> tm_badfaultfunc m" and "i \<le> length s"
  shows "getLen_from p i ((s @ [0]) ! i) m = Done (EOK, Some (length s + 1), m)"
  using assms(4)
proof (induction "length s - i" arbitrary: i)
  case 0
  then show ?case by (simp add: getLen_from.simps [of p i] nth_append)
next
  case (Suc k)
  then have i: "i < length s" by simp
  then have "s ! i \<noteq> 0" using str(1) nth_not_in [OF _ i] by (simp add: user_string_def)
  moreover have "copyin m (p + of_nat (Suc i)) 1 = Done (EOK, [(s @ [0]) ! Suc i], m)" using copyin_byte [OF str(1) _ q, of "Suc i"] i by simp
  moreover have "getLen_from p (Suc i) ((s @ [0]) ! Suc i) m = Done (EOK, Some (length s + 1), m)" using Suc i by simp
  ultimately show ?case using i str(2) by (simp add: getLen_from.simps [of p i] nth_append)
qed

lemma getLen_ok:
  assumes "user_string m p s" and "length s \<le> ARGMAX" and "\<not> tm_badfaultfunc m"
  shows "getLen p m = Done (EOK, Some (length s + 1), m)"
  using copyin_byte [OF assms(1) _ assms(3), of 0] getLen_from_ok [OF assms, of 0] by (simp add: getLen_def)

lemma copyinstr_block_ok:
  assumes str: "user_string m p s" "length s \<le> ARGMAX" and q: "\<not> tm_badfaultfunc m"
  shows "copyinstr_block True p (length s + 1) m = Done (EOK, s @ [0], m)"
proof -
  have len: "unat (of_nat (length s + 1) :: u32) = length s + 1" using str(2) by (simp add: ARGMAX_def unat_of_nat del: of_nat_Suc)
  have "copyinstr m p (of_nat (length s + 1)) = Done (EOK, Some (length s + 1), mem_block m p (Suc (length s)), m\<lparr>tm_badfaultfunc := False\<rparr>)"
  proof (rule copyinstr_found)
    show "unat p + length s < 2 ^ 31" using str(1) by (simp add: user_string_def)
    show "length s < unat (of_nat (length s + 1) :: u32)" unfolding len by simp
    show "unat p + unat (of_nat (length s + 1) :: u32) \<le> 2 ^ 32" unfolding len using str(1) by (simp add: user_string_def)
    show "um_rd m (p + of_nat j)" if "j \<le> length s" for j using str(1) that by (simp add: user_string_def)
    show "um_byte m (p + of_nat (length s)) = 0" using user_string_byte [OF str(1)] by simp
    show "um_byte m (p + of_nat j) \<noteq> 0" if "j < length s" for j
      using user_string_byte [OF str(1), of j] that str(1) nth_not_in [OF _ that] by (simp add: user_string_def nth_append)
  qed
  then show ?thesis using str(1) q by (simp add: copyinstr_block_def user_string_def)
qed

lemma be_words_nth:
  "4 * i + 4 \<le> length bs \<Longrightarrow> be_words bs ! i = be_words (take 4 (drop (4 * i) bs)) ! 0"
proof (induction bs arbitrary: i rule: be_words.induct)
  case (1 a b c d bs)
  show ?case
  proof (cases i)
    case (Suc j)
    have "4 * Suc j = Suc (Suc (Suc (Suc (4 * j))))" by simp
    then show ?thesis using 1 Suc by (simp del: mult_Suc_right)
  qed simp
qed auto

lemma mem_block_sub: "off + len \<le> n \<Longrightarrow> mem_block m (a + of_nat off) len = take len (drop off (mem_block m a n))"
  by (intro nth_equalityI) (simp_all add: mem_block_def add.assoc)

lemma user_ptr_ok:
  assumes a: "user_argv m args ptrs" and i: "i \<le> length ptrs" and q: "\<not> tm_badfaultfunc m"
  shows "user_ptr args i m = Done (EOK, (ptrs @ [0]) ! i, m)"
proof -
  let ?n = "4 * (length ptrs + 1)"
  have top: "unat args + ?n \<le> 2 ^ 31" and in_range: "4 * i + 4 \<le> ?n" using a i by (simp_all add: user_argv_def)
  have un: "unat (args + of_nat (4 * i)) = unat args + 4 * i" using top in_range by (intro nat_addr) simp
  have blk: "user_block (args + of_nat (4 * i)) 4" using top in_range unfolding user_block_def un by simp
  have "um_rd m (args + of_nat (4 * i) + of_nat j)" if "j < 4" for j
  proof -
    have "um_rd m (args + of_nat (4 * i + j))" using a that in_range by (simp add: user_argv_def del: of_nat_add of_nat_mult)
    then show ?thesis by (simp add: add.assoc)
  qed
  then have c: "copyin m (args + of_nat (4 * i)) 4 = Done (EOK, mem_block m (args + of_nat (4 * i)) 4, m)"
    using copyin_reads [OF blk, of m] q by simp
  have "mem_block m (args + of_nat (4 * i)) 4 = take 4 (drop (4 * i) (mem_block m args ?n))"
    using in_range by (intro mem_block_sub) simp
  then have "be_words (mem_block m (args + of_nat (4 * i)) 4) ! 0 = (ptrs @ [0]) ! i"
    using be_words_nth [of i "mem_block m args ?n"] in_range a by (simp add: user_argv_def)
  moreover have "length (be_words (mem_block m (args + of_nat (4 * i)) 4)) = 1" by (simp add: length_be_words)
  ultimately show ?thesis using c unfolding user_ptr_def by simp
qed

lemma getCount_from_ok:
  assumes a: "user_argv m args ptrs" and q: "\<not> tm_badfaultfunc m" and n: "length ptrs \<le> ARGMAX" and "i \<le> length ptrs"
  shows "getCount_from args i ((ptrs @ [0]) ! i) m = Done (EOK, Some (length ptrs), m)"
  using assms(4)
proof (induction "length ptrs - i" arbitrary: i)
  case 0
  then show ?case by (simp add: getCount_from.simps [of args i] nth_append)
next
  case (Suc k)
  then have i: "i < length ptrs" by simp
  then have "ptrs ! i \<noteq> 0" using a nth_not_in [OF _ i] by (simp add: user_argv_def)
  moreover have "getCount_from args (Suc i) ((ptrs @ [0]) ! Suc i) m = Done (EOK, Some (length ptrs), m)" using Suc i by simp
  ultimately show ?case using i n user_ptr_ok [OF a _ q, of "Suc i"] by (simp add: getCount_from.simps [of args i] nth_append)
qed

lemma getCount_ok:
  assumes "user_argv m args ptrs" and "length ptrs \<le> ARGMAX" and "\<not> tm_badfaultfunc m"
  shows "getCount args m = Done (EOK, Some (length ptrs), m)"
  using user_ptr_ok [OF assms(1) _ assms(3), of 0] getCount_from_ok [OF assms(1,3,2), of 0] by (simp add: getCount_def)

text \<open>All arguments are copied; the store of the final null pointer needs one slot more than there are arguments.\<close>

lemma getargs_from_ok:
  assumes a: "user_argv m args ptrs" and q: "\<not> tm_badfaultfunc m"
    and strs: "list_all2 (user_string m) ptrs strs" "\<forall>s \<in> set strs. length s \<le> ARGMAX"
    and got: "\<forall>i < length ptrs. got i" and len: "length ptrs \<le> length block" and "i \<le> length ptrs"
  shows "getargs_from got args i (length ptrs) (map (\<lambda>s. Buf (s @ [0])) (take i strs) @ drop i block) m
    = bnd (arr_set (map (\<lambda>s. Buf (s @ [0])) strs @ drop (length ptrs) block) (length ptrs) Null) (\<lambda>ka. Done (EOK, ka, m))"
  using assms(7)
proof (induction "length ptrs - i" arbitrary: i)
  case 0
  then have "take i strs = strs" "i = length ptrs" using list_all2_lengthD [OF strs(1)] by simp_all
  then show ?case by (simp add: getargs_from.simps [of got args "length ptrs"])
next
  case (Suc k)
  let ?ka = "\<lambda>i. map (\<lambda>s. Buf (s @ [0])) (take i strs) @ drop i block"
  have n: "length strs = length ptrs" using list_all2_lengthD [OF strs(1)] by simp
  have i: "i < length ptrs" "i < length strs" "i < length block" using Suc n len by simp_all
  have str: "user_string m (ptrs ! i) (strs ! i)" "length (strs ! i) \<le> ARGMAX"
    using list_all2_nthD [OF strs(1) i(1)] strs(2) i(2) by simp_all
  have p: "user_ptr args i m = Done (EOK, ptrs ! i, m)" using user_ptr_ok [OF a _ q, of i] i(1) by (simp add: nth_append)
  have "(?ka i)[i := Buf (strs ! i @ [0])] = ?ka (Suc i)"
    using i Cons_nth_drop_Suc [OF i(3)] by (simp add: list_update_append take_Suc_conv_app_nth flip: Cons_nth_drop_Suc)
  then have "arr_set (?ka i) i (Buf (strs ! i @ [0])) = Done (?ka (Suc i))" using i by simp
  then have "getargs_from got args i (length ptrs) (?ka i) m = getargs_from got args (Suc i) (length ptrs) (?ka (Suc i)) m"
    using i(1) p got getLen_ok [OF str q] copyinstr_block_ok [OF str q] by (simp add: getargs_from.simps [of got args i])
  then show ?case using Suc i(1) by simp
qed

lemma getargs_runs:
  assumes "user_argv m args ptrs" and "\<not> tm_badfaultfunc m"
    and "list_all2 (user_string m) ptrs strs" "\<forall>s \<in> set strs. length s \<le> ARGMAX"
    and "\<forall>i < length ptrs. got i" and "length ptrs \<le> length block"
  shows "getargs got args block (length ptrs) m =
    (if length ptrs < length block
     then Done (EOK, map (\<lambda>s. Buf (s @ [0])) strs @ Null # drop (Suc (length ptrs)) block, m) else Fault)"
proof -
  have n: "length strs = length ptrs" using list_all2_lengthD [OF assms(3)] by simp
  have run: "getargs got args block (length ptrs) m
      = bnd (arr_set (map (\<lambda>s. Buf (s @ [0])) strs @ drop (length ptrs) block) (length ptrs) Null) (\<lambda>ka. Done (EOK, ka, m))"
    using getargs_from_ok [OF assms, of 0] by (simp add: getargs_def)
  show ?thesis
  proof (cases "length ptrs < length block")
    case True
    then have "(drop (length ptrs) block)[0 := Null] = Null # drop (Suc (length ptrs)) block"
      by (simp flip: Cons_nth_drop_Suc)
    then show ?thesis using run True n by (simp add: list_update_append)
  next
    case False
    then show ?thesis using run n assms(6) by simp
  qed
qed

section \<open>The arguments on the stack\<close>

definition arg_space :: "u8 list \<Rightarrow> nat" where
  "arg_space s = ROUNDUP (length s + 1) 8"

definition stack_need :: "u8 list list \<Rightarrow> nat" where
  "stack_need strs = sum_list (map arg_space strs) + ROUNDUP ((length strs + 1) * 4) 8"

text \<open>Addresses \<open>a\<close> to \<open>b\<close>, the end excluded, can be read and written.\<close>

definition stack_area :: "umem \<Rightarrow> nat \<Rightarrow> nat \<Rightarrow> bool" where
  "stack_area m a b \<longleftrightarrow> (\<forall>p :: u32. a \<le> unat p \<and> unat p < b \<longrightarrow> um_rd m p \<and> um_wr m p)"

lemma arg_space_bounds: "length s + 1 \<le> arg_space s" "arg_space s < length s + 9" "arg_space s mod 8 = 0"
  using ROUNDUP_ge [of 8 "length s + 1"] ROUNDUP_less [of 8 "length s + 1"] by (simp_all add: arg_space_def ROUNDUP_def)

lemma kstrlen_ok:
  assumes "0 \<notin> set s"
  shows "kstrlen (s @ [0]) = Done (length s)"
proof -
  have "takeWhile (\<lambda>b. b \<noteq> 0) (s @ [0]) = s @ takeWhile (\<lambda>b. b \<noteq> 0) [0]" using assms by (intro takeWhile_append2) auto
  then show ?thesis by (simp add: kstrlen_def)
qed

lemma unat_minus_nat:
  fixes p :: u32
  assumes "k \<le> unat p"
  shows "unat (p - of_nat k) = unat p - k"
proof -
  have k: "unat (of_nat k :: u32) = k" using assms unat_lt32 [of p] by (simp add: unat_of_nat)
  then have "of_nat k \<le> p" using assms by (simp add: word_le_nat_alt)
  then show ?thesis using k by (simp add: unat_sub)
qed

text \<open>A copy to the stack: what it stores and what it leaves.\<close>

lemma copyout_stack:
  assumes area: "stack_area m (unat p) (unat p + n)" and top: "unat p + n \<le> 2 ^ 31" and n: "0 < n" "n \<le> length bs"
    and q: "\<not> tm_badfaultfunc m"
  shows "copyout bs p (of_nat n) m = Done (EOK, mem_store (take n bs) p m)"
proof -
  have un: "unat (of_nat n :: u32) = n" using top by (simp add: unat_of_nat)
  have "0 < (of_nat n :: u32)" using n(1) un by (metis unat_gt_0 word_gt_0 less_irrefl)
  then have blk: "user_block p (of_nat n)" using top un by (simp add: user_block_def)
  have "um_wr m (p + of_nat i)" if "i < n" for i
    using area that nat_addr [of p i] top by (simp add: stack_area_def)
  then have "copyout bs p (of_nat n) m = Done (EOK, (mem_store (take n bs) p m)\<lparr>tm_badfaultfunc := False\<rparr>)"
    using copyout_writes [OF blk, of bs m] un n(2) by simp
  then show ?thesis using q by simp
qed

lemma mem_block_keep:
  assumes "\<And>i. i < n \<Longrightarrow> um_byte m' (p + of_nat i) = um_byte m (p + of_nat i)"
  shows "mem_block m' p n = mem_block m p n"
  using assms by (simp add: mem_block_def)

lemma mem_store_outside:
  "unat x < unat p \<or> unat p + length bs \<le> unat x \<Longrightarrow> um_byte (mem_store bs p m) x = um_byte m x"
  by (auto simp: mem_store_def)

lemma stack_area_sub: "stack_area m a b \<Longrightarrow> a \<le> a' \<Longrightarrow> b' \<le> b \<Longrightarrow> stack_area m a' b'"
  by (auto simp: stack_area_def)

lemma copyout_strs_ok:
  assumes "length ka \<ge> i" and "i \<le> length strs" and "\<forall>j < i. ka ! j = Buf (strs ! j @ [0])" and "\<forall>s \<in> set strs. 0 \<notin> set s"
    and "i \<le> length ptrs" and "sum_list (map arg_space (take i strs)) \<le> unat sp" and "unat sp \<le> 2 ^ 31"
    and "stack_area m (unat sp - sum_list (map arg_space (take i strs))) (unat sp)" and "\<not> tm_badfaultfunc m"
  shows "\<exists>sp' ptrs' m'. copyout_strs ka i sp ptrs m = Done (EOK, sp', ptrs', m')
    \<and> unat sp' = unat sp - sum_list (map arg_space (take i strs)) \<and> length ptrs' = length ptrs
    \<and> (\<forall>j. i \<le> j \<longrightarrow> ptrs' ! j = ptrs ! j)
    \<and> (\<forall>j < i. unat sp' \<le> unat (ptrs' ! j) \<and> unat (ptrs' ! j) + length (strs ! j) + 1 \<le> unat sp
         \<and> mem_block m' (ptrs' ! j) (length (strs ! j) + 1) = strs ! j @ [0])
    \<and> (\<forall>x. unat x < unat sp' \<or> unat sp \<le> unat x \<longrightarrow> um_byte m' x = um_byte m x)
    \<and> um_rd m' = um_rd m \<and> um_wr m' = um_wr m \<and> \<not> tm_badfaultfunc m'"
  using assms
proof (induction i arbitrary: sp ptrs m)
  case 0
  then show ?case by simp
next
  case (Suc i)
  let ?s = "strs ! i" and ?S = "\<lambda>i. sum_list (map arg_space (take i strs))"
  have i: "i < length ka" "i < length strs" "i < length ptrs" using Suc.prems by simp_all
  have S: "?S (Suc i) = ?S i + arg_space ?s" using i(2) by (simp add: take_Suc_conv_app_nth)
  define sp1 where "sp1 = sp - of_nat (arg_space ?s)"
  have usp1: "unat sp1 = unat sp - arg_space ?s" using Suc.prems(6) unfolding S sp1_def by (intro unat_minus_nat) simp
  note b = arg_space_bounds [of ?s]
  have le: "arg_space ?s \<le> unat sp" "?S i \<le> unat sp1" using Suc.prems(6) unfolding S usp1 by simp_all
  have in1: "unat sp1 + (length ?s + 1) \<le> unat sp" using b(1) le usp1 by simp
  have "stack_area m (unat sp1) (unat sp1 + (length ?s + 1))"
    using Suc.prems(8) in1 unfolding S usp1 by (elim stack_area_sub) simp_all
  then have c: "copyout (?s @ [0]) sp1 (of_nat (length ?s + 1)) m = Done (EOK, mem_store (?s @ [0]) sp1 m)"
    using copyout_stack [of m sp1 "length ?s + 1" "?s @ [0]"] in1 Suc.prems(7,9) by simp
  define m1 where "m1 = mem_store (?s @ [0]) sp1 m"
  have m1: "um_rd m1 = um_rd m" "um_wr m1 = um_wr m" "\<not> tm_badfaultfunc m1" using Suc.prems(9) by (simp_all add: m1_def)
  have z: "kstrlen (?s @ [0]) = Done (length ?s)" using Suc.prems(4) i(2) by (intro kstrlen_ok) simp
  have step: "copyout_strs ka (Suc i) sp ptrs m = copyout_strs ka i sp1 (ptrs[i := sp1]) m1"
    using Suc.prems(3) i z c unfolding m1_def sp1_def arg_space_def by (simp add: Let_def)
  have area: "stack_area m1 (unat sp1 - ?S i) (unat sp1)"
    using Suc.prems(8) unfolding stack_area_def m1 S usp1 by (auto simp: add.commute)
  have pre: "i \<le> length ka" "i \<le> length strs" "\<forall>j < i. ka ! j = Buf (strs ! j @ [0])" "i \<le> length (ptrs[i := sp1])" "unat sp1 \<le> 2 ^ 31"
    using Suc.prems(3,7) i usp1 by simp_all
  from Suc.IH [OF pre(1-3) Suc.prems(4) pre(4) le(2) pre(5) area m1(3)] obtain sp' ptrs' m' where
    r: "copyout_strs ka i sp1 (ptrs[i := sp1]) m1 = Done (EOK, sp', ptrs', m')" "unat sp' = unat sp1 - ?S i"
      "length ptrs' = length (ptrs[i := sp1])" "\<forall>j. i \<le> j \<longrightarrow> ptrs' ! j = (ptrs[i := sp1]) ! j" "\<forall>j < i. unat sp' \<le> unat (ptrs' ! j) \<and> unat (ptrs' ! j) + length (strs ! j) + 1 \<le> unat sp1
         \<and> mem_block m' (ptrs' ! j) (length (strs ! j) + 1) = strs ! j @ [0]"
      "\<forall>x. unat x < unat sp' \<or> unat sp1 \<le> unat x \<longrightarrow> um_byte m' x = um_byte m1 x"
      "um_rd m' = um_rd m1" "um_wr m' = um_wr m1" "\<not> tm_badfaultfunc m'"
    by (elim exE conjE) (rule that)
  have own: "ptrs' ! i = sp1" using r(4) i(3) by simp
  have top: "unat sp' \<le> unat sp1" using r(2) by simp
  have "mem_block m' sp1 (length ?s + 1) = mem_block m1 sp1 (length ?s + 1)"
  proof (rule mem_block_keep)
    fix k assume "k < length ?s + 1"
    then have "unat (sp1 + of_nat k) = unat sp1 + k" using in1 Suc.prems(7) by (intro nat_addr) simp
    then show "um_byte m' (sp1 + of_nat k) = um_byte m1 (sp1 + of_nat k)" using r(6) by simp
  qed
  also have "\<dots> = ?s @ [0]" using mem_block_store [of sp1 "?s @ [0]" m] in1 Suc.prems(7) by (simp add: m1_def)
  finally have mine: "mem_block m' sp1 (length ?s + 1) = ?s @ [0]" .
  have outside: "um_byte m' x = um_byte m x" if "unat x < unat sp' \<or> unat sp \<le> unat x" for x
  proof -
    have "unat x < unat sp1 \<or> unat sp1 + length (?s @ [0]) \<le> unat x" using that top in1 by auto
    then have "um_byte m1 x = um_byte m x" unfolding m1_def by (rule mem_store_outside)
    moreover have "unat x < unat sp' \<or> unat sp1 \<le> unat x" using that usp1 by auto
    then have "um_byte m' x = um_byte m1 x" using r(6) by blast
    ultimately show ?thesis by simp
  qed
  have all: "unat sp' \<le> unat (ptrs' ! j) \<and> unat (ptrs' ! j) + length (strs ! j) + 1 \<le> unat sp
      \<and> mem_block m' (ptrs' ! j) (length (strs ! j) + 1) = strs ! j @ [0]" if "j < Suc i" for j
  proof (cases "j = i")
    case True
    then show ?thesis using mine own top in1 by simp
  next
    case False
    then have "j < i" using that by simp
    then have h: "unat sp' \<le> unat (ptrs' ! j) \<and> unat (ptrs' ! j) + length (strs ! j) + 1 \<le> unat sp1
      \<and> mem_block m' (ptrs' ! j) (length (strs ! j) + 1) = strs ! j @ [0]" using r(5) by blast
    then show ?thesis using usp1 by auto
  qed
  have far: "ptrs' ! j = ptrs ! j" if "Suc i \<le> j" for j using r(4) that by simp
  have "unat sp' = unat sp - ?S (Suc i)" using r(2) unfolding S usp1 by simp
  then show ?case unfolding step using r(1,3,7-9) m1(1,2) outside all far
    by (intro exI [of _ sp'] exI [of _ ptrs'] exI [of _ m']) simp
qed

lemma stack_string:
  assumes "mem_block m p (length s + 1) = s @ [0]" and "0 \<notin> set s" and "stack_area m a b" and "a \<le> unat p"
    and "unat p + length s + 1 \<le> b" and "b \<le> 2 ^ 31"
  shows "user_string m p s"
proof -
  have "um_rd m (p + of_nat i)" if "i \<le> length s" for i
    using assms(3-6) that nat_addr [of p i] by (simp add: stack_area_def)
  then show ?thesis using assms by (simp add: user_string_def)
qed

lemma copyout_args_ok:
  assumes ka: "n = length strs" "n \<le> length ka" "\<forall>j < n. ka ! j = Buf (strs ! j @ [0])" and nz: "\<forall>s \<in> set strs. 0 \<notin> set s"
    and sp: "stack_need strs < unat sp" "unat sp \<le> 2 ^ 31" "unat sp mod 8 = 0"
    and area: "stack_area m (unat sp - stack_need strs) (unat sp)" and q: "\<not> tm_badfaultfunc m"
  shows "\<exists>argv ptrs m'. copyout_args ka n sp m = Done (EOK, argv, Some argv, m')
    \<and> unat argv = unat sp - stack_need strs \<and> unat argv mod 8 = 0
    \<and> user_argv m' argv ptrs \<and> list_all2 (user_string m') ptrs strs \<and> \<not> tm_badfaultfunc m'
    \<and> (\<forall>x. unat x < unat argv \<or> unat sp \<le> unat x \<longrightarrow> um_byte m' x = um_byte m x)"
proof -
  let ?S = "sum_list (map arg_space strs)" and ?w = "ROUNDUP ((n + 1) * 4) 8"
  have need: "stack_need strs = ?S + ?w" using ka(1) by (simp add: stack_need_def)
  have w: "(n + 1) * 4 \<le> ?w" "?w mod 8 = 0" using ROUNDUP_ge [of 8 "(n + 1) * 4"] by (simp_all add: ROUNDUP_def)
  have pre: "?S \<le> unat sp" "stack_area m (unat sp - ?S) (unat sp)"
    using sp(1) area unfolding need by (auto elim!: stack_area_sub)
  obtain sp1 ptrs m1 where r: "copyout_strs ka n sp (replicate (n + 1) 0) m = Done (EOK, sp1, ptrs, m1)"
    "unat sp1 = unat sp - ?S" "length ptrs = n + 1"
    "\<forall>j < n. unat sp1 \<le> unat (ptrs ! j) \<and> unat (ptrs ! j) + length (strs ! j) + 1 \<le> unat sp
       \<and> mem_block m1 (ptrs ! j) (length (strs ! j) + 1) = strs ! j @ [0]"
    "\<forall>x. unat x < unat sp1 \<or> unat sp \<le> unat x \<longrightarrow> um_byte m1 x = um_byte m x"
    "um_rd m1 = um_rd m" "um_wr m1 = um_wr m" "\<not> tm_badfaultfunc m1"
    using copyout_strs_ok [of n ka strs "replicate (n + 1) 0" sp m] ka nz pre sp(2) q by auto
  define argv where "argv = sp1 - of_nat ?w"
  have ua: "unat argv = unat sp - stack_need strs" "?w \<le> unat sp1"
    using sp(1) r(2) unat_minus_nat [of ?w sp1] unfolding need argv_def by simp_all
  have ptrs0: "ptrs[n := 0] = take n ptrs @ [0]" using r(3) by (simp add: list_eq_iff_nth_eq nth_append nth_list_update)
  have top: "unat argv + (n + 1) * 4 \<le> unat sp1" using w(1) ua r(2) need by simp
  have area1: "stack_area m1 (unat argv) (unat argv + (n + 1) * 4)"
    using area top r(2) unfolding stack_area_def r(6,7) ua(1) by auto
  define m' where "m' = mem_store (be_bytes (take n ptrs @ [0])) argv m1"
  have len: "length (be_bytes (take n ptrs @ [0])) = (n + 1) * 4" using r(3) by simp
  have c: "copyout (be_bytes (take n ptrs @ [0])) argv (of_nat ((n + 1) * 4)) m1 = Done (EOK, m')"
    using copyout_stack [OF area1, of "be_bytes (take n ptrs @ [0])"] top r(2,8) sp(2) len unfolding m'_def by simp
  have S8: "sum_list (map arg_space ss) mod 8 = 0" for ss :: "u8 list list"
    using arg_space_bounds(3) by (induction ss) (auto simp: mod_eq_0_iff_dvd intro: dvd_add)
  have al: "unat argv mod 8 = 0"
    using sp(3) S8 [of strs] w(2) unfolding ua(1) need by (auto simp: mod_eq_0_iff_dvd intro!: dvd_diff_nat dvd_add)
  have av: "sp1 - of_nat (ROUNDUP (4 + n * 4) 8) = argv" by (simp add: argv_def)
  have "argv mod 8 = 0" using al by (simp add: word_unat_eq_iff unat_mod)
  then have run: "copyout_args ka n sp m = Done (EOK, argv, Some argv, m')"
    using r(1,3) c by (simp add: copyout_args_def Let_def ptrs0 av)
  have rd: "um_rd m' = um_rd m" "\<not> tm_badfaultfunc m'" using r(6,8) by (simp_all add: m'_def)
  have out: "um_byte m' x = um_byte m1 x" if "unat x < unat argv \<or> unat sp1 \<le> unat x" for x
    unfolding m'_def using that top len by (intro mem_store_outside) auto
  have "user_argv m' argv (take n ptrs)"
  proof -
    have "0 \<notin> set (take n ptrs)"
    proof
      assume "0 \<in> set (take n ptrs)"
      then obtain j where "j < n" "ptrs ! j = 0" by (auto simp: in_set_conv_nth)
      then have "unat sp1 \<le> unat (0 :: u32)" using r(4) by metis
      then show False using sp(1) r(2) need w(1) by simp
    qed
    moreover have "um_rd m' (argv + of_nat i)" if "i < 4 * (n + 1)" for i
      using area1 that nat_addr [of argv i] top r(2,6) sp(2) unfolding rd by (simp add: stack_area_def)
    moreover have "mem_block m' argv ((n + 1) * 4) = be_bytes (take n ptrs @ [0])"
      using mem_block_store [of argv "be_bytes (take n ptrs @ [0])" m1, unfolded len] top r(2) sp(2) unfolding m'_def by simp
    ultimately show ?thesis using r(2,3) top sp(2) by (simp add: user_argv_def be_words_bytes mult.commute)
  qed
  moreover have "list_all2 (user_string m') (take n ptrs) strs"
  proof (rule list_all2_all_nthI)
    show "length (take n ptrs) = length strs" using r(3) ka(1) by simp
    fix j assume "j < length (take n ptrs)"
    then have j: "j < n" "j < length strs" using ka(1) by simp_all
    have h: "unat sp1 \<le> unat (ptrs ! j)" "unat (ptrs ! j) + length (strs ! j) + 1 \<le> unat sp"
      "mem_block m1 (ptrs ! j) (length (strs ! j) + 1) = strs ! j @ [0]" using r(4) j(1) by blast+
    have "mem_block m' (ptrs ! j) (length (strs ! j) + 1) = mem_block m1 (ptrs ! j) (length (strs ! j) + 1)"
      using h(1,2) sp(2) nat_addr [of "ptrs ! j"] by (intro mem_block_keep out) simp
    moreover have "stack_area m' (unat sp1) (unat sp)" using pre(2) r(2) unfolding stack_area_def rd by (auto simp: m'_def r(7))
    ultimately show "user_string m' (take n ptrs ! j) (strs ! j)"
      using h nz j sp(2) by (simp add: stack_string [of m' "ptrs ! j" "strs ! j" "unat sp1" "unat sp"])
  qed
  moreover have "um_byte m' x = um_byte m x" if "unat x < unat argv \<or> unat sp \<le> unat x" for x
  proof -
    have "unat x < unat argv \<or> unat sp1 \<le> unat x" "unat x < unat sp1 \<or> unat sp \<le> unat x" using that r(2) top by auto
    then show ?thesis using out [of x] r(5) by metis
  qed
  ultimately show ?thesis using run ua(1) al rd(2) by (intro exI [of _ argv] exI [of _ "take n ptrs"] exI [of _ m']) simp
qed

section \<open>The whole call\<close>

text \<open>The program is found and loaded: \<open>entry\<close> is its entry point, \<open>sp\<close> its stack and \<open>mem\<close> the memory it starts with.\<close>

definition exec_ready :: "('m, 'v) exec_env \<Rightarrow> u8 list \<Rightarrow> ('m, 'v) kst \<Rightarrow> u32 \<Rightarrow> u32 \<Rightarrow> umem \<Rightarrow> bool" where
  "exec_ready X prog s entry sp mem \<longleftrightarrow>
     (\<exists>c q v new vfs vm m1 vm1 m2 vm2 vm3 vfs2 vfs3 vm4. ps_curproc (kn_ps s) = Some c \<and> ps_procs (kn_ps s) c = Some q
        \<and> x_vfs_open X (prog @ [0]) (kn_vfs s) = Done (EOK, v, vfs) \<and> x_as_create X (ps_vm (kn_ps s)) = (Some new, vm)
        \<and> x_as_deactivate X (kn_mem s) vm = (m1, vm1) \<and> x_as_activate X (Some new) m1 vm1 = (m2, vm2)
        \<and> x_load_elf X v (Some new) m2 vm2 vfs = Done (EOK, entry, mem, vm3, vfs2)
        \<and> x_vfs_close X v vfs2 = Done vfs3 \<and> x_as_define_stack X new vm3 = (EOK, sp, vm4))"

text \<open>The first half of \<open>sys_execv\<close>: name, count and arguments are in the kernel.\<close>

lemma execv_front:
  assumes q: "\<not> tm_badfaultfunc (kn_mem s)" and prog: "user_string (kn_mem s) program prog" "length prog \<le> ARGMAX" "x_got_prog X"
    and args: "user_argv (kn_mem s) args ptrs" "length ptrs \<le> ARGMAX"
  shows "sys_execv X program args s =
     (let block = (case x_got_array X (length ptrs) of None \<Rightarrow> [] | Some block \<Rightarrow> block) in
     bnd (getargs (x_got_arg X) args block (length ptrs) (kn_mem s)) (\<lambda>(err, argumentStr, mem).
     let s = s\<lparr>kn_mem := mem\<rparr> in
     if err \<noteq> EOK then exec_fail argumentStr (length ptrs) err s
     else bnd (x_vfs_open X (prog @ [0]) (kn_vfs s)) (\<lambda>(err, v, vfs).
     let s = s\<lparr>kn_vfs := vfs\<rparr> in
     if err \<noteq> EOK then exec_fail argumentStr (length ptrs) err s
     else bnd (proc_getas (kn_ps s)) (\<lambda>old_as.
     let (new_as, vm) = x_as_create X (ps_vm (kn_ps s)); s = s\<lparr>kn_ps := (kn_ps s)\<lparr>ps_vm := vm\<rparr>\<rparr> in
     case new_as of
       None \<Rightarrow> bnd (x_vfs_close X v (kn_vfs s)) (\<lambda>vfs. exec_fail argumentStr (length ptrs) ENOMEM (s\<lparr>kn_vfs := vfs\<rparr>))
     | Some new_as \<Rightarrow> bnd (switch_as X (Some new_as) s) (\<lambda>s. exec_load X old_as new_as v argumentStr (length ptrs) s)))))"
proof -
  have same: "s\<lparr>kn_mem := kn_mem s\<rparr> = s" by simp
  have name: "getProgName True program (kn_mem s) = Done (EOK, prog @ [0], kn_mem s)"
    using getLen_ok [OF prog(1,2) q] copyinstr_block_ok [OF prog(1,2) q] by (simp add: getProgName_def)
  show ?thesis
    unfolding sys_execv_def getLen_ok [OF prog(1,2) q] by (simp add: name prog(3) same getCount_ok [OF args q])
qed

lemma free_args_bufs: "n = length strs \<Longrightarrow> free_args (map (\<lambda>s. Buf (s @ [0])) strs @ ps) n = Done ()"
  by (auto simp: free_args_def)

text \<open>A run with one argument, \<open>hi\<close>, and an environment in which everything succeeds.\<close>

definition demo_mem :: umem where
  "demo_mem = mem_store (be_bytes [0x3000, 0]) 0x2000 (mem_store [104, 105, 0] 0x3000 flat_mem)"

definition demo_exec :: "nat \<Rightarrow> kptr \<Rightarrow> (unit, unit) exec_env" where
  "demo_exec n g = \<lparr>x_vfs_open = \<lambda>_ v. Done (EOK, 7, v), x_vfs_close = \<lambda>_ v. Done v, x_as_create = \<lambda>vm. (Some 1, vm),
     x_as_deactivate = \<lambda>m vm. (m, vm), x_as_activate = \<lambda>_ m vm. (m, vm),
     x_load_elf = \<lambda>_ _ m vm v. Done (EOK, 0x400000, flat_mem, vm, v), x_as_define_stack = \<lambda>_ vm. (EOK, 0x7ffffff8, vm),
     x_got_prog = True, x_got_arg = \<lambda>_. True, x_got_array = \<lambda>_. Some (replicate n g)\<rparr>"

definition demo_kst :: "umem \<Rightarrow> (unit, unit) kst" where
  "demo_kst m = \<lparr>kn_ps = demo_booted\<lparr>ps_curproc := Some 100\<rparr>, kn_mem = m, kn_vfs = ()\<rparr>"

lemma demo_mem_string: "user_string demo_mem 0x3000 [104, 105]"
  by (simp add: user_string_def demo_mem_def mem_block_def mem_store_def flat_mem_def be_bytes_def)

lemma demo_mem_prog: "user_string demo_mem 0x1000 []"
  by (simp add: user_string_def demo_mem_def mem_block_def mem_store_def flat_mem_def be_bytes_def)

lemma demo_mem_argv: "user_argv demo_mem 0x2000 [0x3000]"
proof -
  have "mem_block demo_mem 0x2000 8 = be_bytes [0x3000, 0]"
    using mem_block_store [of "0x2000" "be_bytes [0x3000, 0]" "mem_store [104, 105, 0] 0x3000 flat_mem"] by (simp add: demo_mem_def)
  then show ?thesis by (simp add: user_argv_def be_words_bytes) (simp add: demo_mem_def flat_mem_def)
qed

lemma demo_mem_quiet: "\<not> tm_badfaultfunc demo_mem"
  by (simp add: demo_mem_def flat_mem_def)

section \<open>Properties\<close>

text \<open>
  C4: \<open>execv\<close> hands its arguments over unchanged. If the strings and the array of pointers are readable and
  end within the bounds, memory is there, and the program is found and loaded, then the call enters the
  new program with the number of arguments, and with a stack pointer, a multiple of 8, at which there
  is an array of that many pointers to strings with the same bytes, followed by a null pointer.
\<close>

theorem execv_passes_arguments:
  assumes "\<not> tm_badfaultfunc (kn_mem s)" and "user_string (kn_mem s) program prog" and "length prog \<le> ARGMAX" and "x_got_prog X"
    and "user_argv (kn_mem s) args ptrs" and "length ptrs \<le> ARGMAX" and "list_all2 (user_string (kn_mem s)) ptrs strs"
    and "\<forall>str \<in> set strs. length str \<le> ARGMAX" and "\<forall>i < length ptrs. x_got_arg X i"
    and "x_got_array X (length ptrs) = Some block" and "length ptrs < length block"
    and "exec_ready X prog s entry sp mem" and "\<not> tm_badfaultfunc mem"
    and "stack_need strs < unat sp" and "unat sp \<le> 2 ^ 31" and "unat sp mod 8 = 0" and "stack_area mem (unat sp - stack_need strs) (unat sp)"
  shows "\<exists>argv ptrs' s'. sys_execv X program args s = Done (Entered (int (length strs)) argv argv entry, s')
    \<and> unat argv mod 8 = 0 \<and> user_argv (kn_mem s') argv ptrs' \<and> list_all2 (user_string (kn_mem s')) ptrs' strs"
proof -
  have n: "length strs = length ptrs" using list_all2_lengthD [OF assms(7)] by simp
  define ka where "ka = map (\<lambda>s. Buf (s @ [0])) strs @ Null # drop (Suc (length ptrs)) block"
  have ga: "getargs (x_got_arg X) args block (length ptrs) (kn_mem s) = Done (EOK, ka, kn_mem s)"
    using getargs_runs [OF assms(5,1,7-9), of block] assms(11) by (simp add: ka_def)
  have nz: "\<forall>str \<in> set strs. 0 \<notin> set str"
    using assms(7) by (auto simp: list_all2_conv_all_nth user_string_def in_set_conv_nth)
  have ka: "length ptrs = length strs" "length ptrs \<le> length ka" "\<forall>j < length ptrs. ka ! j = Buf (strs ! j @ [0])"
    using n by (simp_all add: ka_def nth_append)
  obtain argv ptrs' m' where co: "copyout_args ka (length ptrs) sp mem = Done (EOK, argv, Some argv, m')" "unat argv mod 8 = 0"
    "user_argv m' argv ptrs'" "list_all2 (user_string m') ptrs' strs"
    using copyout_args_ok [OF ka nz assms(14-17,13)] by (elim exE conjE) (rule that)
  have fr: "free_args ka (length ptrs) = Done ()" using free_args_bufs [of "length ptrs" strs] n by (simp add: ka_def)
  from assms(12) obtain c q v new vfs vm m1 vm1 m2 vm2 vm3 vfs2 vfs3 vm4 where
    e: "ps_curproc (kn_ps s) = Some c" "ps_procs (kn_ps s) c = Some q"
      "x_vfs_open X (prog @ [0]) (kn_vfs s) = Done (EOK, v, vfs)" "x_as_create X (ps_vm (kn_ps s)) = (Some new, vm)"
      "x_as_deactivate X (kn_mem s) vm = (m1, vm1)" "x_as_activate X (Some new) m1 vm1 = (m2, vm2)"
      "x_load_elf X v (Some new) m2 vm2 vfs = Done (EOK, entry, mem, vm3, vfs2)"
      "x_vfs_close X v vfs2 = Done vfs3" "x_as_define_stack X new vm3 = (EOK, sp, vm4)"
    unfolding exec_ready_def by (elim exE conjE) (rule that)
  have "\<exists>s'. sys_execv X program args s = Done (Entered (int (length ptrs)) argv argv entry, s') \<and> kn_mem s' = m'"
    unfolding execv_front [OF assms(1-6)] using assms(10) ga e co(1) fr
    by (simp add: Let_def proc_getas_def proc_get_def proc_setas_def proc_upd_def switch_as_def exec_load_def)
  then show ?thesis using co n by auto
qed

theorem execv_passes_arguments_witness:
  "\<exists>argv ptrs' s'. sys_execv (demo_exec 4 Garbage) 0x1000 0x2000 (demo_kst demo_mem) = Done (Entered 1 argv argv 0x400000, s')
     \<and> user_argv (kn_mem s') argv ptrs' \<and> list_all2 (user_string (kn_mem s')) ptrs' [[104, 105]]"
proof -
  have "exec_ready (demo_exec 4 Garbage) [] (demo_kst demo_mem) 0x400000 0x7ffffff8 flat_mem"
    unfolding exec_ready_def by (simp add: demo_exec_def demo_kst_def demo_booted_facts)
  moreover have "stack_need [[104, 105]] = 16" by (simp add: stack_need_def arg_space_def ROUNDUP_def DIVROUNDUP_def)
  ultimately show ?thesis
    using execv_passes_arguments [of "demo_kst demo_mem" "0x1000" "[]" "demo_exec 4 Garbage" "0x2000" "[0x3000]" "[[104, 105]]"
        "replicate 4 Garbage" "0x400000" "0x7ffffff8" flat_mem]
      demo_mem_string demo_mem_prog demo_mem_argv demo_mem_quiet
    by (auto simp: demo_kst_def demo_exec_def ARGMAX_def flat_mem_def stack_area_def)
qed

text \<open>
  C31: The array that \<open>execv\<close> allocates for the arguments has no slot for the final null pointer. If \<open>kmalloc\<close> hands
  out a block of exactly the size asked for, then \<open>execv\<close> stores past the end of that block, for every
  number of arguments and for every program.
\<close>

theorem execv_array_overflow:
  assumes "\<not> tm_badfaultfunc (kn_mem s)" and "user_string (kn_mem s) program prog" and "length prog \<le> ARGMAX" and "x_got_prog X"
    and "user_argv (kn_mem s) args ptrs" and "length ptrs \<le> ARGMAX" and "list_all2 (user_string (kn_mem s)) ptrs strs"
    and "\<forall>str \<in> set strs. length str \<le> ARGMAX" and "\<forall>i < length ptrs. x_got_arg X i"
    and "x_got_array X (length ptrs) = Some block" and "length block = length ptrs"
  shows "sys_execv X program args s = Fault"
  unfolding execv_front [OF assms(1-6)] using getargs_runs [OF assms(5,1,7-9), of block] assms(10,11) by simp

theorem execv_array_overflow_witness: "sys_execv (demo_exec 1 Garbage) 0x1000 0x2000 (demo_kst demo_mem) = Fault"
  using execv_array_overflow [of "demo_kst demo_mem" "0x1000" "[]" "demo_exec 1 Garbage" "0x2000" "[0x3000]" "[[104, 105]]"
      "replicate 1 Garbage"]
    demo_mem_string demo_mem_prog demo_mem_argv demo_mem_quiet
  by (simp add: demo_kst_def demo_exec_def ARGMAX_def)



end
