(* ===== verification/Kern_Psyscall.thy ===== *)
theory Kern_Psyscall
  imports Kern_Exec
begin

text \<open>
  The system calls on processes, \<open>fork\<close>, \<open>getpid\<close>, \<open>waitpid\<close> and \<open>_exit\<close>: \<^verbatim>\<open>kern/syscall/psyscall.c\<close>, with \<open>set_tf\<close> of
  \<^verbatim>\<open>kern/proc/proc.c\<close> and the encoding of exit codes of \<^verbatim>\<open>kern/include/kern/wait.h\<close>. \<open>execv\<close> is in \<open>Kern_Exec\<close>.

  A trap frame holds the registers of the user program at the trap. Starting a thread is an argument
  of \<open>sys_fork\<close>, as are the copying and destruction of address spaces. Entering user mode does not
  return: \<open>exec_usermode\<close> gives the registers with which it enters.
\<close>

record trapframe =
  tf_vaddr :: u32
  tf_status :: u32
  tf_cause :: u32
  tf_lo :: u32
  tf_hi :: u32
  tf_ra :: u32
  tf_at :: u32
  tf_v0 :: u32
  tf_v1 :: u32
  tf_a0 :: u32
  tf_a1 :: u32
  tf_a2 :: u32
  tf_a3 :: u32
  tf_t0 :: u32
  tf_t1 :: u32
  tf_t2 :: u32
  tf_t3 :: u32
  tf_t4 :: u32
  tf_t5 :: u32
  tf_t6 :: u32
  tf_t7 :: u32
  tf_s0 :: u32
  tf_s1 :: u32
  tf_s2 :: u32
  tf_s3 :: u32
  tf_s4 :: u32
  tf_s5 :: u32
  tf_s6 :: u32
  tf_s7 :: u32
  tf_t8 :: u32
  tf_t9 :: u32
  tf_k0 :: u32
  tf_k1 :: u32
  tf_gp :: u32
  tf_sp :: u32
  tf_s8 :: u32
  tf_epc :: u32

section \<open>Fork\<close>

definition set_tf :: "bool \<Rightarrow> trapframe \<Rightarrow> trapframe outcome" where
  "set_tf got parent = (if got then Done (parent\<lparr>tf_epc := tf_epc parent + 4\<rparr>) else Fault)"

record 'm fork_env =
  f_palloc :: palloc
  f_kmalloc :: "nat \<Rightarrow> nat list option"
  f_as_copy :: "nat option \<Rightarrow> 'm \<Rightarrow> (errno \<times> nat option \<times> 'm) outcome"
  f_as_destroy :: "nat \<Rightarrow> 'm \<Rightarrow> 'm outcome"
  f_reclaim :: "nat \<Rightarrow> 'm pstate \<Rightarrow> (errno \<times> 'm pstate) outcome"
  f_got_tf :: bool
  f_thread_fork :: "nat option \<Rightarrow> trapframe \<Rightarrow> 'm pstate \<Rightarrow> (errno \<times> 'm pstate) outcome"

text \<open>
  When no thread can be started, \<open>sys_fork\<close> destroys the process and then frees \<open>tf\<close>. That is the trap frame
  of the caller, which lies on the kernel stack and was never allocated.
\<close>

definition sys_fork :: "'m fork_env \<Rightarrow> trapframe \<Rightarrow> 'm pstate \<Rightarrow> (errno \<times> u32 option \<times> 'm pstate) outcome" where
  "sys_fork F tf s =
     bnd (proc_creator (f_palloc F) ''childProc'' s) (\<lambda>(childProc, s).
     bnd (fork_proc (f_as_copy F) (f_kmalloc F) childProc s) (\<lambda>(ret, s).
     if ret \<noteq> EOK then Done (ret, None, s)
     else bnd (set_tf (f_got_tf F) tf) (\<lambda>child_tf.
     bnd (proc_get s childProc) (\<lambda>q.
     bnd (f_thread_fork F childProc child_tf s) (\<lambda>(ret, s).
     if ret \<noteq> EOK
     then bnd (proc_destroy (f_as_destroy F) (f_reclaim F) childProc s) (\<lambda>s. Fault)
     else Done (EOK, Some (word_of_int (p_pid q)), s))))))"

definition exec_usermode :: "(umem \<Rightarrow> 'm \<Rightarrow> umem \<times> 'm) \<Rightarrow> trapframe \<Rightarrow> umem \<Rightarrow> 'm \<Rightarrow> trapframe \<times> umem \<times> 'm" where
  "exec_usermode as_activate data1 m vm = (let (m, vm) = as_activate m vm in (data1, m, vm))"

section \<open>The other calls\<close>

definition sys_getpid :: "'m pstate \<Rightarrow> (errno \<times> u32 \<times> 'm pstate) outcome" where
  "sys_getpid s = bnd (proc_getpid s) (\<lambda>(pid, s). Done (EOK, pid, s))"

text \<open>
  \<open>sys_waitpid\<close>: the first \<open>copyout\<close> finds out whether the pointer can be written; only then is the process
  reaped and its exit code seen.
\<close>

definition sys_waitpid :: "int \<Rightarrow> u32 \<Rightarrow> int \<Rightarrow> ('m, 'v) kst \<Rightarrow> (errno \<times> ('m, 'v) kst) outcome" where
  "sys_waitpid pid retVal options s =
     (if options \<noteq> 0 then Done (EINVAL, s)
      else bnd (if retVal \<noteq> 0
                then bnd (copyout (be_bytes [0]) retVal 4 (kn_mem s)) (\<lambda>(ret, mem).
                     Done (ret = EOK, s\<lparr>kn_mem := mem\<rparr>))
                else Done (False, s)) (\<lambda>(canReap, s).
      bnd (isChild (ps_curproc (kn_ps s)) pid (kn_ps s)) (\<lambda>(child_flag, ps).
      let s = s\<lparr>kn_ps := ps\<rparr> in
      if \<not> child_flag then Done (ECHILD, s)
      else bnd (proc_waitpid pid canReap (kn_ps s)) (\<lambda>(err, code, ps).
      let s = s\<lparr>kn_ps := ps\<rparr>; exitcode = (case code of None \<Rightarrow> 0 | Some c \<Rightarrow> c) in
      if err \<noteq> EOK then Done (err, s)
      else if retVal \<noteq> 0
      then bnd (copyout (be_bytes [exitcode]) retVal 4 (kn_mem s)) (\<lambda>(ret, mem).
           let s = s\<lparr>kn_mem := mem\<rparr> in
           if ret \<noteq> EOK then Done (ret, s) else Done (EOK, s))
      else Done (EOK, s)))))"

text \<open>Whether \<open>sys__exit\<close> got to the end of the thread is the first component of the result.\<close>

definition sys__exit :: "(nat \<Rightarrow> nat list option) \<Rightarrow> u32 \<Rightarrow> 'm pstate \<Rightarrow> (bool \<times> 'm pstate) outcome" where
  "sys__exit kmalloc exitcode s = proc_exit kmalloc (ps_curproc s) exitcode s"

section \<open>Exit codes\<close>

definition MKWAIT_EXIT :: "u32 \<Rightarrow> u32" where
  "MKWAIT_EXIT x = push_bit 2 x"

text \<open>The macros of the user program, on the \<open>int\<close> that \<open>waitpid\<close> stored.\<close>

definition WIFEXITED :: "int \<Rightarrow> bool" where
  "WIFEXITED x \<longleftrightarrow> x AND 3 = 0"

definition WEXITSTATUS :: "int \<Rightarrow> int" where
  "WEXITSTATUS x = drop_bit 2 x"

lemma exit_status:
  assumes "- (2 ^ 29) \<le> sint code" and "sint code < 2 ^ 29"
  shows "WIFEXITED (sint (MKWAIT_EXIT code))" and "WEXITSTATUS (sint (MKWAIT_EXIT code)) = sint code"
proof -
  have "sint (MKWAIT_EXIT code) = signed_take_bit 31 (sint code * 4)"
    by (simp add: MKWAIT_EXIT_def push_bit_eq_mult sint_word_ariths)
  also have "\<dots> = sint code * 4" using assms by (intro signed_take_bit_int_eq_self) simp_all
  finally have e: "sint (MKWAIT_EXIT code) = sint code * 4" .
  show "WEXITSTATUS (sint (MKWAIT_EXIT code)) = sint code" by (simp add: e WEXITSTATUS_def drop_bit_eq_div)
  have "(sint code * 4) AND mask 2 = (0 :: int)" by (simp flip: take_bit_eq_mask add: take_bit_eq_mod)
  then show "WIFEXITED (sint (MKWAIT_EXIT code))" by (simp add: e WIFEXITED_def mask_eq_exp_minus_1)
qed

section \<open>Waiting for a process\<close>

text \<open>A word that is stored where the user can write.\<close>

lemma copyout_word:
  assumes "user_block p 4" and "\<forall>i < 4. um_wr m (p + of_nat i)" and "\<not> tm_badfaultfunc m"
  shows "copyout (be_bytes [w]) p 4 m = Done (EOK, mem_store (be_bytes [w]) p m)"
  using copyout_writes [OF assms(1), of "be_bytes [w]" m] assms(2,3) by simp

lemma mem_store_twice: "length bs = length cs \<Longrightarrow> mem_store bs p (mem_store cs p m) = mem_store bs p m"
  by (rule umem.equality) (auto simp: mem_store_def fun_eq_iff)

lemma sys_waitpid_zombie:
  assumes ok: "pids_ok (kn_ps s)" and z: "zombie (kn_ps s) i e"
    and p: "ps_curproc (kn_ps s) = Some p" "ps_procs (kn_ps s) p = Some r" "p_children r = Some arr" "array_ok arr"
    and dom: "set (array_list arr) \<subseteq> dom (ps_procs (kn_ps s))" and c: "\<exists>c \<in> set (array_list arr). p_pid (the (ps_procs (kn_ps s) c)) = int i"
    and u: "retVal \<noteq> 0" "user_block retVal 4" "\<forall>i < 4. um_wr (kn_mem s) (retVal + of_nat i)" "\<not> tm_badfaultfunc (kn_mem s)"
  shows "\<exists>ps. sys_waitpid (int i) retVal 0 s
      = Done (EOK, s\<lparr>kn_ps := ps, kn_mem := mem_store (be_bytes [word_of_int e]) retVal (kn_mem s)\<rparr>) \<and> pids_ok ps"
proof -
  have wf: "pids_wf (kn_ps s)" using ok by (simp add: pids_ok_def)
  have child: "isChild (Some p) (int i) (kn_ps s) = Done (True, kn_ps s)" using isChild_search [OF wf p(2-4) dom] c by simp
  obtain t a q where z': "1 \<le> i" "i \<le> PID_MAX" "ps_table (kn_ps s) = Some t" "pid_procs t ! i = Some a" "ps_procs (kn_ps s) a = Some q"
    "p_status q = ZOMBIE" "p_exitCode q = e" using z by (auto simp: zombie_def)
  from proc_waitpid_zombie [OF ok z'(3,1,2,4-6) refl] z'(7) obtain ps where
    w: "proc_waitpid (int i) True (kn_ps s) = Done (EOK, Some (word_of_int e), ps)" "pids_ok ps" by auto
  have co: "copyout (be_bytes [x]) retVal 4 m = Done (EOK, mem_store (be_bytes [x]) retVal m)"
    if "m = kn_mem s \<or> m = mem_store (be_bytes [0]) retVal (kn_mem s)" for x m
    using that u(2-4) by (intro copyout_word) auto
  have "sys_waitpid (int i) retVal 0 s
      = Done (EOK, s\<lparr>kn_ps := ps, kn_mem := mem_store (be_bytes [word_of_int e]) retVal (kn_mem s)\<rparr>)"
    using u(1) child w(1) p(1) co by (simp add: sys_waitpid_def mem_store_twice)
  then show ?thesis using w(2) by blast
qed

text \<open>The kernel process with one child, number 2, that is running.\<close>

definition demo_parent :: "unit pstate" where
  "demo_parent = demo_booted\<lparr>
     ps_procs := [100 \<mapsto> demo_proc\<lparr>p_pid := 1, p_children := Some \<lparr>arr_v = [200], arr_num = 1, arr_max = 1\<rparr>\<rparr>,
                  200 \<mapsto> demo_proc\<lparr>p_pid := 2\<rparr>],
     ps_table := Some \<lparr>firstFreePid = 3, pid_procs = demo_procs[2 := Some 200], plock = Some 7, pcv = Some 8\<rparr>\<rparr>"

lemma demo_parent_ok: "pids_ok demo_parent"
proof -
  let ?h = "ps_procs demo_parent" and ?procs = "demo_procs[2 := Some 200]"
  have "3 < PID_MAX" by (simp add: PID_MAX_def)
  have slot: "?procs ! i = (if i = 1 then Some 100 else if i = 2 then Some 200 else None)" if "1 \<le> i" "i \<le> PID_MAX" for i
    using that \<open>3 < PID_MAX\<close> by (cases i; cases "i - 1") (auto simp: demo_procs_def nth_list_update nth_Cons split: nat.split)
  have "pid_tab ?h ?procs"
    unfolding pid_tab_def using slot by (auto simp: demo_parent_def split: if_splits)
  moreover have "pid_lowest ?h ?procs = 3"
    using slot [of 2] slot [of 3] \<open>3 < PID_MAX\<close>
    by (simp add: pid_lowest_def upt_conv_Cons [of 2 PID_MAX] upt_conv_Cons [of 3 PID_MAX] slot_free_def demo_parent_def demo_proc_def)
  ultimately show ?thesis by (simp add: pids_ok_def pids_wf_def demo_parent_def demo_booted_def)
qed

definition demo_after :: "u32 \<Rightarrow> unit pstate" where
  "demo_after code = demo_parent\<lparr>ps_curproc := Some 200,
     ps_procs := (ps_procs demo_parent)(200 \<mapsto> demo_proc\<lparr>p_pid := 2, p_status := ZOMBIE, p_exitCode := sint code\<rparr>)\<rparr>"

lemma demo_parent_exit: "sys__exit (\<lambda>n. None) code (demo_parent\<lparr>ps_curproc := Some 200\<rparr>) = Done (True, demo_after code)"
proof -
  have "1 < PID_MAX" by (simp add: PID_MAX_def)
  then show ?thesis
  by (simp add: sys__exit_def proc_exit_def proc_get_def demo_parent_def demo_after_def demo_booted_def demo_boot_def demo_proc_def array_num_def array_init_def
      arr_get_def adopt_from.simps plock_acquire_def proc_upd_def cv_broadcast_pcv_def lock_acquire_def
      lock_round_def lock_idle_def lock_do_i_hold_def plock_release_def lock_release_def fun_upd_idem cv_wakeall_def lock_drop_def)
qed

lemma demo_parent_facts:
  "ps_table demo_parent = Some \<lparr>firstFreePid = 3, pid_procs = demo_procs[2 := Some 200], plock = Some 7, pcv = Some 8\<rparr>"
  "ps_procs demo_parent 200 = Some (demo_proc\<lparr>p_pid := 2\<rparr>)"
  "ps_procs (demo_after code) 100 = Some (demo_proc\<lparr>p_pid := 1, p_children := Some \<lparr>arr_v = [200], arr_num = 1, arr_max = 1\<rparr>\<rparr>)"
  "dom (ps_procs (demo_after code)) = {100, 200}" "p_pid (the (ps_procs (demo_after code) 200)) = 2"
  by (auto simp: demo_parent_def demo_after_def split: if_splits)

section \<open>Properties\<close>



end
