(* ===== verification/Kern_Syscall.thy ===== *)
theory Kern_Syscall
  imports Kern_Psyscall Kern_Fsyscall Kern_Klib
begin

text \<open>
  System calls from the trap to the return: \<open>syscall\<close> of \<^verbatim>\<open>kern/arch/mips/syscall/syscall.c\<close>, \<open>sys___time\<close> of
  \<^verbatim>\<open>kern/syscall/time_syscalls.c\<close>, and what the stub of the C library makes of the registers,
  \<^verbatim>\<open>userland/lib/libc/arch/mips/syscalls-mips.S\<close>.

  The calls on files act on the file table of the current process, which is taken out of its record and
  put back. The environment holds the arguments of all calls. The assertions on the interrupt level at
  the start and the end are about state that is not part of the model.
\<close>

record ('m, 'v) sys_env =
  y_exec :: "('m, 'v) exec_env"
  y_fork :: "'m fork_env"
  y_shutdown :: "('m, 'v) kst \<Rightarrow> ('m, 'v) kst outcome"
  y_gettime :: timespec
  y_got_path :: bool
  y_got_stat :: "int option"
  y_vfs_open :: "u8 list \<Rightarrow> u32 \<Rightarrow> u32 \<Rightarrow> 'v \<Rightarrow> (errno \<times> nat \<times> 'v) outcome"
  y_vfs_chdir :: "u32 \<Rightarrow> umem \<Rightarrow> 'v \<Rightarrow> (errno \<times> umem \<times> 'v) outcome"
  y_vfs_getcwd :: "uio \<Rightarrow> umem \<Rightarrow> 'v \<Rightarrow> (errno \<times> uio \<times> umem \<times> 'v) outcome"
  y_VOP_READ :: "'v vop"
  y_VOP_WRITE :: "'v vop"
  y_VOP_ISSEEKABLE :: "nat \<Rightarrow> 'v \<Rightarrow> bool"
  y_VOP_STAT :: "nat \<Rightarrow> int \<Rightarrow> 'v \<Rightarrow> (errno \<times> int \<times> 'v) outcome"

text \<open>How a system call ends: with registers for the user, in a new program, with the end of the thread, or of the machine.\<close>

datatype sys_end = UserReturn trapframe | NewProgram int u32 u32 u32 | ThreadEnd | MachineStop u32

section \<open>Reboot and the time\<close>

text \<open>
  \<open>sys_reboot\<close>: what \<open>shutdown\<close> does is an argument. Stopping the machine does not return, so the panic after it is not
  reached; the result says with which code the machine stops.
\<close>

definition sys_reboot :: "(('m, 'v) kst \<Rightarrow> ('m, 'v) kst outcome) \<Rightarrow> u32 \<Rightarrow> ('m, 'v) kst \<Rightarrow> (errno + u32 \<times> ('m, 'v) kst) outcome" where
  "sys_reboot shutdown code s =
     (if code \<notin> {0, 1, 2} then Done (Inl EINVAL) else bnd (shutdown s) (\<lambda>s. Done (Inr (code, s))))"

text \<open>\<open>tv_sec\<close> has 64 bits and \<open>tv_nsec\<close> 32.\<close>

definition sys___time :: "timespec \<Rightarrow> u32 \<Rightarrow> u32 \<Rightarrow> umem \<Rightarrow> (errno \<times> umem) outcome" where
  "sys___time ts user_seconds_ptr user_nanoseconds_ptr m =
     bnd (copyout (be_bytes [word_of_int (tv_sec ts div 2 ^ 32), word_of_int (tv_sec ts)]) user_seconds_ptr 8 m) (\<lambda>(result, m).
     if result \<noteq> EOK then Done (result, m)
     else bnd (copyout (be_bytes [word_of_int (tv_nsec ts)]) user_nanoseconds_ptr 4 m) (\<lambda>(result, m).
     if result \<noteq> EOK then Done (result, m) else Done (EOK, m)))"

section \<open>Calls on files\<close>

definition files_of :: "('m, 'v) kst \<Rightarrow> 'v ksys outcome" where
  "files_of s = bnd (proc_get (kn_ps s) (ps_curproc (kn_ps s))) (\<lambda>q.
     Done \<lparr>k_ft = p_ft q, k_fs = ps_ft (kn_ps s), k_mem = kn_mem s, k_vfs = kn_vfs s\<rparr>)"

definition files_put :: "'v ksys \<Rightarrow> ('m, 'v) kst \<Rightarrow> ('m, 'v) kst outcome" where
  "files_put k s = bnd (proc_upd (\<lambda>q. q\<lparr>p_ft := k_ft k\<rparr>) (ps_curproc (kn_ps s)) ((kn_ps s)\<lparr>ps_ft := k_fs k\<rparr>)) (\<lambda>ps.
     Done (s\<lparr>kn_ps := ps, kn_mem := k_mem k, kn_vfs := k_vfs k\<rparr>))"

text \<open>Run a call that gives a code and a value; a value that was not stored is the initial 0.\<close>

definition on_files ::
  "('v ksys \<Rightarrow> (errno \<times> 'r \<times> 'v ksys) outcome) \<Rightarrow> ('r \<Rightarrow> u32 \<times> u32) \<Rightarrow> ('m, 'v) kst
     \<Rightarrow> (errno \<times> u32 \<times> u32 \<times> ('m, 'v) kst) outcome" where
  "on_files call ret s =
     bnd (files_of s) (\<lambda>k. bnd (call k) (\<lambda>(err, r, k). bnd (files_put k s) (\<lambda>s. Done (err, fst (ret r), snd (ret r), s))))"

abbreviation (input) one_word :: "('a \<Rightarrow> u32) \<Rightarrow> 'a option \<Rightarrow> u32 \<times> u32" where
  "one_word f r \<equiv> (case r of None \<Rightarrow> (0, 0) | Some x \<Rightarrow> (f x, 0))"

abbreviation (input) no_value :: "('v ksys \<Rightarrow> (errno \<times> 'v ksys) outcome) \<Rightarrow> 'v ksys \<Rightarrow> (errno \<times> unit \<times> 'v ksys) outcome" where
  "no_value call k \<equiv> bnd (call k) (\<lambda>(err, k). Done (err, (), k))"

text \<open>
  The fifth argument of \<open>lseek\<close> comes from the stack of the user. The result of \<open>copyin\<close> is not looked at; bytes that
  could not be read stay 0.
\<close>

definition lseek_whence :: "u32 \<Rightarrow> umem \<Rightarrow> (int \<times> umem) outcome" where
  "lseek_whence sp m =
     bnd (copyin m (sp + 16) 4) (\<lambda>(_, bs, m). Done (sint (hd (be_words (bs @ drop (length bs) [0, 0, 0, 0]))), m))"

definition lseek_pos :: "u32 \<Rightarrow> u32 \<Rightarrow> int" where
  "lseek_pos hi lo = sint (push_bit 32 (ucast hi) OR ucast lo :: u64)"

section \<open>The dispatcher\<close>

text \<open>The outcome of the \<open>switch\<close>: code, \<open>retval\<close>, \<open>retval_lower\<close> and state, or an end without return.\<close>

definition dispatch ::
  "('m, 'v) sys_env \<Rightarrow> trapframe \<Rightarrow> ('m, 'v) kst \<Rightarrow> ((errno \<times> u32 \<times> u32 \<times> ('m, 'v) kst) + (sys_end \<times> ('m, 'v) kst)) outcome" where
  "dispatch Y tf s =
     (let callno = tf_v0 tf; back = (\<lambda>r. bnd r (\<lambda>x. Done (Inl x))) in
      if callno = 119 then bnd (sys_reboot (y_shutdown Y) (tf_a0 tf) s) (\<lambda>r.
        case r of Inl err \<Rightarrow> Done (Inl (err, 0, 0, s)) | Inr (code, s) \<Rightarrow> Done (Inr (MachineStop code, s)))
      else if callno = 113 then back (bnd (sys___time (y_gettime Y) (tf_a0 tf) (tf_a1 tf) (kn_mem s)) (\<lambda>(err, m). Done (err, 0, 0, s\<lparr>kn_mem := m\<rparr>)))
      else if callno = 45 then back (on_files (sys_open (y_vfs_open Y) (y_got_path Y) (tf_a0 tf) (tf_a1 tf) 0) (one_word word_of_int) s)
      else if callno = 49 then back (on_files (no_value (sys_close (sint (tf_a0 tf)))) (\<lambda>_. (0, 0)) s)
      else if callno = 55 then back (on_files (sys_write (y_VOP_WRITE Y) (sint (tf_a0 tf)) (tf_a1 tf) (unat (tf_a2 tf))) (one_word of_nat) s)
      else if callno = 50 then back (on_files (sys_read (y_VOP_READ Y) (sint (tf_a0 tf)) (tf_a1 tf) (unat (tf_a2 tf))) (one_word of_nat) s)
      else if callno = 59 then back (bnd (lseek_whence (tf_sp tf) (kn_mem s)) (\<lambda>(whence, m).
        on_files (sys_lseek (y_VOP_ISSEEKABLE Y) (y_VOP_STAT Y) (y_got_stat Y) (sint (tf_a0 tf)) (lseek_pos (tf_a2 tf) (tf_a3 tf)) whence)
          (\<lambda>r. case r of None \<Rightarrow> (0, 0) | Some p \<Rightarrow> p) (s\<lparr>kn_mem := m\<rparr>)))
      else if callno = 48 then back (on_files (sys_dup2 (sint (tf_a0 tf)) (sint (tf_a1 tf))) (one_word word_of_int) s)
      else if callno = 74 then back (on_files (no_value (sys_chdir (y_vfs_chdir Y) (y_got_path Y) (tf_a0 tf))) (\<lambda>_. (0, 0)) s)
      else if callno = 76 then back (on_files (sys__getcwd (y_vfs_getcwd Y) (tf_a0 tf) (unat (tf_a1 tf))) (one_word of_nat) s)
      else if callno = 0 then back (bnd (sys_fork (y_fork Y) tf (kn_ps s)) (\<lambda>(err, r, ps).
        Done (err, (case r of None \<Rightarrow> 0 | Some pid \<Rightarrow> pid), 0, s\<lparr>kn_ps := ps\<rparr>)))
      else if callno = 5 then back (bnd (sys_getpid (kn_ps s)) (\<lambda>(err, pid, ps). Done (err, pid, 0, s\<lparr>kn_ps := ps\<rparr>)))
      else if callno = 4 then back (bnd (sys_waitpid (sint (tf_a0 tf)) (tf_a1 tf) (sint (tf_a2 tf)) s) (\<lambda>(err, s). Done (err, 0, 0, s)))
      else if callno = 3 then bnd (sys__exit (f_kmalloc (y_fork Y)) (MKWAIT_EXIT (tf_a0 tf)) (kn_ps s)) (\<lambda>(ended, ps).
        let s = s\<lparr>kn_ps := ps\<rparr> in if ended then Done (Inr (ThreadEnd, s)) else Done (Inl (EOK, 0, 0, s)))
      else if callno = 2 then bnd (sys_execv (y_exec Y) (tf_a0 tf) (tf_a1 tf) s) (\<lambda>(r, s).
        case r of Returned err \<Rightarrow> Done (Inl (err, 0, 0, s)) | Entered n argv sp pc \<Rightarrow> Done (Inr (NewProgram n argv sp pc, s)))
      else Done (Inl (ENOSYS, 0, 0, s)))"

primrec errno_word :: "errno \<Rightarrow> u32" where
  "errno_word (Err k) = of_nat k"

definition sys_return :: "errno \<Rightarrow> u32 \<Rightarrow> u32 \<Rightarrow> trapframe \<Rightarrow> trapframe" where
  "sys_return err retval retval_lower tf =
     (let tf = (if err \<noteq> EOK then tf\<lparr>tf_v0 := errno_word err, tf_a3 := 1\<rparr>
                else tf\<lparr>tf_v0 := retval, tf_v1 := retval_lower, tf_a3 := 0\<rparr>)
      in tf\<lparr>tf_epc := tf_epc tf + 4\<rparr>)"

definition syscall :: "('m, 'v) sys_env \<Rightarrow> trapframe \<Rightarrow> ('m, 'v) kst \<Rightarrow> (sys_end \<times> ('m, 'v) kst) outcome" where
  "syscall Y tf s =
     bnd (dispatch Y tf s) (\<lambda>r.
     case r of
       Inl (err, retval, retval_lower, s) \<Rightarrow> Done (UserReturn (sys_return err retval retval_lower tf), s)
     | Inr (e, s) \<Rightarrow> Done (e, s))"

text \<open>The stub of the C library: the registers with which it returns to the program, and \<open>errno\<close> if it was set.\<close>

definition user_stub :: "trapframe \<Rightarrow> trapframe \<times> u32 option" where
  "user_stub tf = (if tf_a3 tf = 0 then (tf, None) else (tf\<lparr>tf_v0 := - 1, tf_v1 := - 1\<rparr>, Some (tf_v0 tf)))"

section \<open>Lemmas\<close>

lemma sys_return_frame:
  "(sys_return err r1 r2 tf)\<lparr>tf_v0 := tf_v0 tf, tf_v1 := tf_v1 tf, tf_a3 := tf_a3 tf, tf_epc := tf_epc tf\<rparr> = tf"
  "tf_epc (sys_return err r1 r2 tf) = tf_epc tf + 4" "tf_a3 (sys_return err r1 r2 tf) = (if err = EOK then 0 else 1)"
  by (simp_all add: sys_return_def Let_def)

lemma user_stub_return:
  "user_stub (sys_return EOK r1 r2 tf) = (sys_return EOK r1 r2 tf, None)"
  "err \<noteq> EOK \<Longrightarrow> user_stub (sys_return err r1 r2 tf) = ((sys_return err r1 r2 tf)\<lparr>tf_v0 := - 1, tf_v1 := - 1\<rparr>, Some (errno_word err))"
  by (simp_all add: user_stub_def sys_return_def)

lemma syscall_Inl: "dispatch Y tf s = Done (Inl (err, r1, r2, s')) \<Longrightarrow> syscall Y tf s = Done (UserReturn (sys_return err r1 r2 tf), s')"
  by (simp add: syscall_def)

lemma syscall_UserReturn:
  assumes "syscall Y tf s = Done (UserReturn tf', s')"
  obtains err r1 r2 where "dispatch Y tf s = Done (Inl (err, r1, r2, s'))" and "tf' = sys_return err r1 r2 tf"
proof -
  obtain r where r: "dispatch Y tf s = Done r" using assms by (auto simp: syscall_def bnd_Done_iff)
  show thesis
  proof (cases r)
    case (Inl x)
    with r assms show thesis by (cases x) (auto simp: syscall_def intro: that)
  next
    case (Inr x)
    have "fst x \<noteq> UserReturn tf'"
      using r unfolding Inr
      by (cases x) (auto simp: dispatch_def Let_def bnd_Done_iff split: if_split_asm sum.split_asm exec_result.split_asm prod.split_asm,
          metis sum.exhaust surj_pair, metis exec_result.exhaust)
    with r Inr assms show thesis by (cases x) (simp add: syscall_def)
  qed
qed

text \<open>A signed number of 64 bits is put together again from its two words.\<close>

lemma lseek_pos_words:
  assumes "- (2 ^ 63) \<le> pos" and "pos < 2 ^ 63"
  shows "lseek_pos (word_of_int (pos div 2 ^ 32)) (word_of_int pos) = pos"
proof -
  let ?hi = "word_of_int (pos div 2 ^ 32) :: u32" and ?lo = "word_of_int pos :: u32"
  have d: "pos div 4294967296 = drop_bit 32 pos" by (simp add: drop_bit_eq_div)
  have "push_bit 32 (ucast ?hi) OR ucast ?lo = (word_of_int pos :: u64)"
  proof (rule bit_word_eqI)
    fix n assume "n < LENGTH(64)"
    then show "bit (push_bit 32 (ucast ?hi) OR ucast ?lo :: u64) n \<longleftrightarrow> bit (word_of_int pos :: u64) n"
      by (cases "n < 32") (auto simp: d bit_simps)
  qed
  then have "lseek_pos ?hi ?lo = signed_take_bit 63 pos" by (simp add: lseek_pos_def sint_sbintrunc')
  also have "\<dots> = pos" using assms by (intro signed_take_bit_int_eq_self) simp_all
  finally show ?thesis .
qed

lemma on_files_done:
  assumes "ps_curproc (kn_ps s) = Some p" and "ps_procs (kn_ps s) p = Some q"
    and "call \<lparr>k_ft = p_ft q, k_fs = ps_ft (kn_ps s), k_mem = kn_mem s, k_vfs = kn_vfs s\<rparr> = Done (err, r, k)"
  shows "on_files call ret s = Done (err, fst (ret r), snd (ret r),
    s\<lparr>kn_ps := (kn_ps s)\<lparr>ps_ft := k_fs k, ps_procs := (ps_procs (kn_ps s))(p \<mapsto> q\<lparr>p_ft := k_ft k\<rparr>)\<rparr>, kn_mem := k_mem k, kn_vfs := k_vfs k\<rparr>)"
  using assms by (simp add: on_files_def files_of_def files_put_def proc_get_def proc_upd_def)

lemma lseek_whence_word:
  assumes "user_block (sp + 16) 4" and "\<forall>i < 4. um_rd m (sp + 16 + of_nat i)" and "mem_block m (sp + 16) 4 = be_bytes [w]"
  shows "lseek_whence sp m = Done (sint w, m\<lparr>tm_badfaultfunc := False\<rparr>)"
proof -
  have "copyin m (sp + 16) 4 = Done (EOK, be_bytes [w], m\<lparr>tm_badfaultfunc := False\<rparr>)"
    using copyin_reads [OF assms(1), of m] assms(2,3) by simp
  then show ?thesis by (simp add: lseek_whence_def be_words_bytes)
qed

lemma sint_fd: "fd < OPEN_MAX \<Longrightarrow> sint (of_nat fd :: u32) = int fd"
proof -
  assume "fd < OPEN_MAX"
  then have "fd < 2 ^ 31" by (simp add: OPEN_MAX_def)
  then have "signed_take_bit 31 (int fd) = int fd" by (intro signed_take_bit_int_eq_self) simp_all
  then show ?thesis using sint_sbintrunc' [of "int fd", where 'a = 32] by simp
qed

text \<open>A process with one open file, and operations that succeed at once.\<close>

definition demo_env :: "(unit, unit) sys_env" where
  "demo_env = \<lparr>y_exec = demo_exec 0 Null,
     y_fork = \<lparr>f_palloc = \<lparr>a_proc = None, a_name = True, a_children = True, a_ft = True, a_fte = \<lambda>_. None, a_lk = \<lambda>_. None\<rparr>,
       f_kmalloc = \<lambda>_. None, f_as_copy = \<lambda>a vm. Done (EOK, a, vm), f_as_destroy = \<lambda>_ vm. Done vm,
       f_reclaim = \<lambda>_ s. Done (EOK, s), f_got_tf = True, f_thread_fork = \<lambda>_ _ s. Done (EOK, s)\<rparr>,
     y_shutdown = Done, y_gettime = \<lparr>tv_sec = 5, tv_nsec = 6\<rparr>, y_got_path = True, y_got_stat = Some 0,
     y_vfs_open = \<lambda>_ _ _ v. Done (EOK, 9, v), y_vfs_chdir = \<lambda>_ m v. Done (EOK, m, v), y_vfs_getcwd = \<lambda>u m v. Done (EOK, u, m, v),
     y_VOP_READ = \<lambda>_ u m v. Done (EOK, u, m, v), y_VOP_WRITE = \<lambda>_ u m v. Done (EOK, u, m, v),
     y_VOP_ISSEEKABLE = \<lambda>_ _. True, y_VOP_STAT = \<lambda>_ _ v. Done (EOK, 100, v)\<rparr>"

definition demo_tf :: "u32 \<Rightarrow> u32 \<Rightarrow> u32 \<Rightarrow> u32 \<Rightarrow> u32 \<Rightarrow> trapframe" where
  "demo_tf callno a0 a1 a2 a3 = \<lparr>tf_vaddr = 0, tf_status = 0, tf_cause = 32, tf_lo = 0, tf_hi = 0, tf_ra = 0x400100, tf_at = 0,
     tf_v0 = callno, tf_v1 = 0, tf_a0 = a0, tf_a1 = a1, tf_a2 = a2, tf_a3 = a3,
     tf_t0 = 0, tf_t1 = 0, tf_t2 = 0, tf_t3 = 0, tf_t4 = 0, tf_t5 = 0, tf_t6 = 0, tf_t7 = 0,
     tf_s0 = 0, tf_s1 = 0, tf_s2 = 0, tf_s3 = 0, tf_s4 = 0, tf_s5 = 0, tf_s6 = 0, tf_s7 = 0, tf_t8 = 0, tf_t9 = 0,
     tf_k0 = 0, tf_k1 = 0, tf_gp = 0, tf_sp = 0x7ffffe00, tf_s8 = 0, tf_epc = 0x400040\<rparr>"

definition demo_file_kst :: "(unit, unit) kst" where
  "demo_file_kst = \<lparr>kn_ps = demo_boot\<lparr>ps_procs := [100 \<mapsto> demo_proc\<lparr>p_ft := demo_ft 0\<rparr>], ps_ft := demo_fs\<rparr>,
     kn_mem = mem_store (be_bytes [2]) 0x7ffffe10 flat_mem, kn_vfs = ()\<rparr>"

section \<open>Properties\<close>



text \<open>
  C9: \<open>lseek\<close> from the registers of the program to the registers it gets back. The position is passed as
  two words in \<open>a2\<close> and \<open>a3\<close> and the third argument on the stack of the user. On a descriptor of a seekable
  file a negative position gives \<open>EINVAL\<close> in \<open>errno\<close> and no descriptor of the process moves; otherwise
  \<open>errno\<close> is not set, \<open>v0\<close> and \<open>v1\<close> joined are the new position, this descriptor alone moves to it, and
  the processes are as before.
\<close>

theorem syscall_lseek:
  assumes "ps_curproc (kn_ps s) = Some p" and "ps_procs (kn_ps s) p = Some q" and "ft_ok (ps_ft (kn_ps s)) (p_ft q)"
    and "fd < OPEN_MAX" and "fd_view (ps_ft (kn_ps s)) (p_ft q) fd = Some (Some vn, off, perm)"
    and "tf_v0 tf = 59" and "tf_a0 tf = of_nat fd"
    and "tf_a2 tf = word_of_int (x div 2 ^ 32)" and "tf_a3 tf = word_of_int x" and "- (2 ^ 63) \<le> x" and "x < 2 ^ 63"
    and "user_block (tf_sp tf + 16) 4" and "\<forall>i < 4. um_rd (kn_mem s) (tf_sp tf + 16 + of_nat i)"
    and "mem_block (kn_mem s) (tf_sp tf + 16) 4 = be_bytes [whence]" and "0 \<le> sint whence" and "sint whence \<le> 2"
    and "y_VOP_ISSEEKABLE Y vn (kn_vfs s)" and "y_got_stat Y = Some st" and "y_VOP_STAT Y vn st (kn_vfs s) = Done (err, eof, v')"
    and "pos = (if sint whence = 0 then x else if sint whence = 1 then off + x else eof + x)" and "pos < 2 ^ 63"
  shows "\<exists>tf' s'. syscall Y tf s = Done (UserReturn tf', s') \<and> ps_procs (kn_ps s') = ps_procs (kn_ps s)
    \<and> (if pos < 0 then snd (user_stub tf') = Some (errno_word EINVAL) \<and> ps_ft (kn_ps s') = ps_ft (kn_ps s)
       else snd (user_stub tf') = None \<and> lseek_pos (tf_v0 tf') (tf_v1 tf') = pos
         \<and> fd_view (ps_ft (kn_ps s')) (p_ft q) = (fd_view (ps_ft (kn_ps s)) (p_ft q))(fd \<mapsto> (Some vn, pos, perm)))"
proof -
  define m where "m = (kn_mem s)\<lparr>tm_badfaultfunc := False\<rparr>"
  define k where "k = \<lparr>k_ft = p_ft q, k_fs = ps_ft (kn_ps s), k_mem = m, k_vfs = kn_vfs s\<rparr>"
  define call where "call = sys_lseek (y_VOP_ISSEEKABLE Y) (y_VOP_STAT Y) (Some st) (int fd) x (sint whence)"
  have d: "dispatch Y tf s = bnd (on_files call (\<lambda>r. case r of None \<Rightarrow> (0, 0) | Some p \<Rightarrow> p) (s\<lparr>kn_mem := m\<rparr>)) (\<lambda>x. Done (Inl x))"
    using assms(6-9,18) lseek_pos_words [OF assms(10,11)] lseek_whence_word [OF assms(12-14)] sint_fd [OF assms(4)]
    by (simp add: dispatch_def m_def call_def)
  have run: "on_files call ret (s\<lparr>kn_mem := m\<rparr>) = Done (e, fst (ret r), snd (ret r), s\<lparr>kn_ps := (kn_ps s)\<lparr>ps_ft := fs\<rparr>, kn_mem := m, kn_vfs := v'\<rparr>)"
    if "call k = Done (e, r, k\<lparr>k_vfs := v', k_fs := fs\<rparr>)" for e r fs ret
  proof -
    have "p_ft q = k_ft k" by (simp add: k_def)
    then show ?thesis
      using on_files_done [where s = "s\<lparr>kn_mem := m\<rparr>" and p = p and q = q and call = call and ret = ret and err = e and r = r
          and k = "k\<lparr>k_vfs := v', k_fs := fs\<rparr>"] assms(1,2) that
      by (simp add: k_def fun_upd_idem)
  qed
  have l: "if pos < 0 then call k = Done (EINVAL, None, k\<lparr>k_vfs := v'\<rparr>)
    else \<exists>fs. call k = Done (EOK, Some (word_of_int (pos div 2 ^ 32), word_of_int pos), k\<lparr>k_vfs := v', k_fs := fs\<rparr>)
      \<and> ft_ok fs (k_ft k) \<and> fd_view fs (k_ft k) = (fd_view (k_fs k) (k_ft k))(fd \<mapsto> (Some vn, pos, perm))"
    unfolding call_def using assms(3-5,15-17,19,20) by (intro lseek_done) (simp_all add: k_def)
  show ?thesis
  proof (cases "pos < 0")
    case True
    with l have "call k = Done (EINVAL, None, k\<lparr>k_vfs := v', k_fs := ps_ft (kn_ps s)\<rparr>)" by (simp add: k_def)
    from run [OF this] have "syscall Y tf s = Done (UserReturn (sys_return EINVAL 0 0 tf), s\<lparr>kn_ps := (kn_ps s)\<lparr>ps_ft := ps_ft (kn_ps s)\<rparr>, kn_mem := m, kn_vfs := v'\<rparr>)"
      by (simp add: syscall_def d)
    then show ?thesis using True by (simp add: user_stub_return)
  next
    case False
    with l obtain fs where "call k = Done (EOK, Some (word_of_int (pos div 2 ^ 32), word_of_int pos), k\<lparr>k_vfs := v', k_fs := fs\<rparr>)"
      and v: "fd_view fs (k_ft k) = (fd_view (k_fs k) (k_ft k))(fd \<mapsto> (Some vn, pos, perm))" by auto
    from run [OF this(1)] have "syscall Y tf s = Done (UserReturn (sys_return EOK (word_of_int (pos div 2 ^ 32)) (word_of_int pos) tf),
        s\<lparr>kn_ps := (kn_ps s)\<lparr>ps_ft := fs\<rparr>, kn_mem := m, kn_vfs := v'\<rparr>)"
      by (simp add: syscall_def d)
    moreover have "lseek_pos (word_of_int (pos div 2 ^ 32)) (word_of_int pos) = pos" using False assms(21) by (intro lseek_pos_words) simp_all
    ultimately show ?thesis using False v by (simp add: user_stub_def k_def sys_return_def del: fun_upd_apply)
  qed
qed

theorem syscall_lseek_witness:
  "\<exists>tf' s'. syscall demo_env (demo_tf 59 2 0 0 7) demo_file_kst = Done (UserReturn tf', s')
     \<and> snd (user_stub tf') = None \<and> lseek_pos (tf_v0 tf') (tf_v1 tf') = 107
     \<and> fd_view (ps_ft (kn_ps s')) (demo_ft 0) 2 = Some (Some 9, 107, 3)"
proof -
  let ?q = "demo_proc\<lparr>p_ft := demo_ft 0\<rparr>"
  have word: "mem_block (mem_store (be_bytes [2]) 0x7ffffe10 m) 0x7ffffe10 4 = be_bytes [2]" for m
    using mem_block_store [of "0x7ffffe10" "be_bytes [2]" m] by simp
  have two: "2 < OPEN_MAX" by (simp add: OPEN_MAX_def)
  have view: "fd_view (ps_ft (kn_ps demo_file_kst)) (p_ft ?q) 2 = Some (Some 9, 5, 3)"
    using demo_sys_view [OF two] by (simp add: demo_file_kst_def demo_sys_def)
  have ok: "ft_ok (ps_ft (kn_ps demo_file_kst)) (p_ft ?q)" using demo_sys_ok by (simp add: demo_file_kst_def demo_sys_def)
  have s: "ps_curproc (kn_ps demo_file_kst) = Some 100" "ps_procs (kn_ps demo_file_kst) 100 = Some ?q"
    by (simp_all add: demo_file_kst_def demo_boot_def)
  have "\<exists>tf' s'. syscall demo_env (demo_tf 59 2 0 0 7) demo_file_kst = Done (UserReturn tf', s') \<and> ps_procs (kn_ps s') = ps_procs (kn_ps demo_file_kst)
    \<and> (if (107 :: int) < 0 then snd (user_stub tf') = Some (errno_word EINVAL) \<and> ps_ft (kn_ps s') = ps_ft (kn_ps demo_file_kst)
       else snd (user_stub tf') = None \<and> lseek_pos (tf_v0 tf') (tf_v1 tf') = 107
         \<and> fd_view (ps_ft (kn_ps s')) (p_ft ?q) = (fd_view (ps_ft (kn_ps demo_file_kst)) (p_ft ?q))(2 \<mapsto> (Some 9, 107, 3)))"
    by (rule syscall_lseek [OF s ok two view, where x = 7 and whence = 2 and st = 0 and err = EOK and eof = 100 and v' = "()"])
      (simp_all add: demo_tf_def demo_env_def demo_file_kst_def user_block_def word flat_mem_def)
  then show ?thesis by auto
qed

end
