(* ===== verification/Kern_Fork.thy ===== *)
theory Kern_Fork
  imports Kern_Syscall
begin

text \<open>
  What \<open>fork\<close> makes, through all the parts that take part in it: the process and its file table (\<open>proc_create\<close>,
  \<open>ft_init\<close>), its number (\<open>addPidEntry\<close>), its files and directory (\<open>fork_proc\<close>, \<open>fork_ft\<close>), its
  registers (\<open>set_tf\<close>), and what the parent and the child see of the call (\<open>syscall\<close> and the stub of
  the C library). The theory has no definitions that model code; those are in \<open>Kern_Filetable\<close>, \<open>Kern_Proc\<close>,
  \<open>Kern_Psyscall\<close> and \<open>Kern_Syscall\<close>.
\<close>

section \<open>Tables in a heap that changes elsewhere\<close>

lemma ft_frame:
  assumes wf: "ft_wf s t" and heap: "\<And>p. Some p \<in> set (ftp t) \<Longrightarrow> ft_heap s' p = ft_heap s p"
    and locks: "\<And>i. i < OPEN_MAX \<Longrightarrow> ft_locks s' (ft_lock s t i) = ft_locks s (ft_lock s t i)"
  shows "ft_wf s' t" and "i < OPEN_MAX \<Longrightarrow> ft_fte s' t i = ft_fte s t i" and "fd_view s' t = fd_view s t"
    and "i < OPEN_MAX \<Longrightarrow> ft_lock s' t i = ft_lock s t i"
proof -
  have slot: "\<exists>p. ftp t ! i = Some p \<and> ft_heap s' p = Some (ft_fte s t i) \<and> ft_heap s p = Some (ft_fte s t i)
    \<and> fte_lock (ft_fte s t i) = Some (ft_lock s t i) \<and> ft_locks s' (ft_lock s t i) = Some lock_idle
    \<and> (fte_flag (ft_fte s t i) = 0 \<or> fte_flag (ft_fte s t i) = 1)" if i: "i < OPEN_MAX" for i
  proof -
    obtain p a where pa: "ftp t ! i = Some p" "ft_heap s p = Some (ft_fte s t i)" "fte_lock (ft_fte s t i) = Some a"
      "ft_locks s a = Some lock_idle" "fte_flag (ft_fte s t i) = 0 \<or> fte_flag (ft_fte s t i) = 1" by (rule ft_wfE [OF wf i])
    have "i < length (ftp t)" using wf i by (simp add: ft_wf_def)
    then have "Some p \<in> set (ftp t)" using nth_mem [of i "ftp t"] unfolding pa(1) by simp
    then have "ft_heap s' p = Some (ft_fte s t i)" using heap [of p] pa(2) by simp
    moreover have "ft_lock s t i = a" using pa(3) by (simp add: ft_lock_def)
    ultimately show ?thesis using pa locks [OF i] by (intro exI [of _ p]) simp
  qed
  show fte: "ft_fte s' t i = ft_fte s t i" if i: "i < OPEN_MAX" for i
  proof -
    obtain p where p: "ftp t ! i = Some p" "ft_heap s' p = Some (ft_fte s t i)" using slot [OF i] by (elim exE conjE) (rule that)
    show ?thesis unfolding ft_fte_def [of s'] p(1) option.sel p(2) ..
  qed
  then show "i < OPEN_MAX \<Longrightarrow> ft_lock s' t i = ft_lock s t i" by (simp add: ft_lock_def)
  show "fd_view s' t = fd_view s t" using fte by (auto simp: fd_view_def fun_eq_iff)
  have "\<exists>p e a. ftp t ! i = Some p \<and> ft_heap s' p = Some e \<and> fte_lock e = Some a \<and> ft_locks s' a = Some lock_idle \<and> (fte_flag e = 0 \<or> fte_flag e = 1)"
    if "i < OPEN_MAX" for i using slot [OF that] by (elim exE conjE) (intro exI conjI)
  then show "ft_wf s' t" using wf by (simp add: ft_wf_def)
qed

section \<open>A new process\<close>

text \<open>The memory for a process: every allocation succeeds, with blocks that are not in use.\<close>

definition fresh_proc :: "palloc \<Rightarrow> nat \<Rightarrow> 'm pstate \<Rightarrow> bool" where
  "fresh_proc A c s \<longleftrightarrow> (\<exists>garbage. a_proc A = Some (c, garbage)) \<and> a_name A \<and> a_children A \<and> a_ft A
     \<and> ps_procs s c = None \<and> ft_blocks (a_fte A) (a_lk A)
     \<and> (\<forall>i < OPEN_MAX. ft_heap (ps_ft s) (the (a_fte A i)) = None \<and> ft_locks (ps_ft s) (the (a_lk A i)) = None)"

lemma pids_ok_frame:
  assumes "pids_ok s" and "ps_table s = Some t" and "plock t = Some lk" and "ft_locks (ps_ft s') lk = Some lock_idle"
    and "ps_table s' = Some t" and "ps_cvs s' = ps_cvs s" and "pid_tab (ps_procs s') (pid_procs t)"
    and "pid_lowest (ps_procs s') (pid_procs t) = pid_lowest (ps_procs s) (pid_procs t)"
  shows "pids_ok s'"
  using assms by (auto simp: pids_ok_def pids_wf_def)

lemma fresh_apart:
  assumes fresh: "fresh_proc A c s" and i: "i < OPEN_MAX"
  shows "ft_heap (ps_ft s) p = Some e \<Longrightarrow> a_fte A i \<noteq> Some p" and "ft_locks (ps_ft s) a = Some l \<Longrightarrow> a_lk A i \<noteq> Some a"
  using fresh i by (auto simp: fresh_proc_def)

lemma proc_creator_fresh:
  fixes s :: "'m pstate"
  assumes fresh: "fresh_proc A c s" and ok: "pids_ok s" "ps_table s = Some t" "plock t = Some lk" and T: "ft_wf (ps_ft s) T"
  obtains fs q where "proc_creator A name s = Done (Some c, s\<lparr>ps_ft := fs, ps_procs := (ps_procs s)(c \<mapsto> q)\<rparr>)"
    and "ft_wf fs (p_ft q)" and "\<forall>fd. fd_view fs (p_ft q) fd = None" and "ft_wf fs T" and "fd_view fs T = fd_view (ps_ft s) T"
    and "ft_apart fs T (p_ft q)" and "\<forall>i < OPEN_MAX. ft_lock fs (p_ft q) i \<noteq> lk" and "\<forall>i < OPEN_MAX. ft_lock fs T i = ft_lock (ps_ft s) T i"
    and "pids_ok (s\<lparr>ps_ft := fs, ps_procs := (ps_procs s)(c \<mapsto> q)\<rparr>)" and "p_cwd q = None"
proof -
  obtain garbage where A: "a_proc A = Some (c, garbage)" "a_name A" "a_children A" "a_ft A" "ps_procs s c = None" "ft_blocks (a_fte A) (a_lk A)"
    using fresh by (auto simp: fresh_proc_def)
  obtain ft fs where init: "ft_init True (a_fte A) (a_lk A) (ps_ft s) = Done (ft, fs)" "ft_wf fs ft" "\<And>fd. fd_view fs ft fd = None"
    and frame: "\<And>p. Some p \<notin> a_fte A ` {..<OPEN_MAX} \<Longrightarrow> ft_heap fs p = ft_heap (ps_ft s) p"
      "\<And>a. Some a \<notin> a_lk A ` {..<OPEN_MAX} \<Longrightarrow> ft_locks fs a = ft_locks (ps_ft s) a"
    and new: "\<And>j. j < OPEN_MAX \<Longrightarrow> ftp ft ! j = a_fte A j \<and> fte_lock (ft_fte fs ft j) = a_lk A j"
    using ft_init_fresh [OF A(6), of "ps_ft s"] by metis
  have lk: "ft_locks (ps_ft s) lk = Some lock_idle" using ok by (auto simp: pids_ok_def pids_wf_def)
  have old: "\<exists>e. ft_heap (ps_ft s) p = Some e" if "Some p \<in> set (ftp T)" for p
  proof -
    from that obtain i where "i < OPEN_MAX" "ftp T ! i = Some p" using T by (auto simp: in_set_conv_nth ft_wf_def)
    then show ?thesis using ft_wfE [OF T, of i] by (metis option.inject)
  qed
  have heap: "ft_heap fs p = ft_heap (ps_ft s) p" if "Some p \<in> set (ftp T)" for p
    using frame(1) [of p] old [OF that] fresh_apart(1) [OF fresh] by fastforce
  have locks: "ft_locks fs a = ft_locks (ps_ft s) a" if "ft_locks (ps_ft s) a = Some l" for a l
    using frame(2) [of a] that fresh_apart(2) [OF fresh] by fastforce
  have Tl: "ft_locks (ps_ft s) (ft_lock (ps_ft s) T i) = Some lock_idle" if "i < OPEN_MAX" for i
    using ft_wf_lock [OF T that] by simp
  have T': "ft_wf fs T" "fd_view fs T = fd_view (ps_ft s) T" "\<And>i. i < OPEN_MAX \<Longrightarrow> ft_lock fs T i = ft_lock (ps_ft s) T i"
    using ft_frame(1,3,4) [OF T, of fs] heap locks [OF Tl] by simp_all
  have nl: "ft_lock fs ft j = the (a_lk A j)" "a_lk A j = Some (ft_lock fs ft j)" if "j < OPEN_MAX" for j
    using new [OF that] A(6) that by (auto simp: ft_lock_def ft_blocks_def)
  have ap: "ft_apart fs T ft"
    unfolding ft_apart_def
  proof (intro conjI allI impI)
    have "x \<notin> set (ftp ft)" if x: "x \<in> set (ftp T)" for x
    proof
      assume "x \<in> set (ftp ft)"
      then obtain j where j: "j < OPEN_MAX" "a_fte A j = x" using init(2) new by (auto simp: in_set_conv_nth ft_wf_def)
      then obtain p where "x = Some p" using A(6) by (auto simp: ft_blocks_def)
      then show False using old [of p] x j fresh_apart(1) [OF fresh j(1)] by fastforce
    qed
    then show "set (ftp T) \<inter> set (ftp ft) = {}" by blast
    show "inj_on (ft_lock fs ft) {..<OPEN_MAX}"
      using A(6) nl(2) by (auto simp: inj_on_def ft_blocks_def)
    show "ft_lock fs T i \<noteq> ft_lock fs ft j" if "i < OPEN_MAX" "j < OPEN_MAX" for i j
      using T'(3) [OF that(1)] Tl [OF that(1)] nl(2) [OF that(2)] fresh_apart(2) [OF fresh that(2)] by metis
  qed
  define q where "q = garbage\<lparr>p_name := name, p_children := array_create (a_children A), p_status := RUNNING,
                      p_ft := ft, p_threads := array_init, p_addrspace := None, p_cwd := None\<rparr>"
  have run: "proc_creator A name s = Done (Some c, s\<lparr>ps_ft := fs, ps_procs := (ps_procs s)(c \<mapsto> q)\<rparr>)"
    using A init(1) by (simp add: proc_creator_def proc_create_def q_def)
  have "ft_locks fs lk = Some lock_idle" using locks [OF lk] lk by simp
  moreover have "pids_ok (s\<lparr>ps_curproc := ps_curproc s, ps_procs := (ps_procs s)(c \<mapsto> q)\<rparr>)" by (rule pids_ok_new(1) [OF ok(1) A(5)])
  ultimately have "pids_ok (s\<lparr>ps_ft := fs, ps_procs := (ps_procs s)(c \<mapsto> q)\<rparr>)"
    using ok(2,3) by (auto simp: pids_ok_def pids_wf_def)
  moreover have "ft_lock fs ft i \<noteq> lk" if "i < OPEN_MAX" for i
    using nl(2) [OF that] fresh_apart(2) [OF fresh that lk] by auto
  ultimately show thesis using that [OF run] init(2,3) T' ap by (simp add: q_def)
qed

section \<open>The copy of a process\<close>

lemma pids_ok_upd:
  assumes ok: "pids_ok s" and "ps_procs s a = Some q" and "p_pid q' = p_pid q" and "p_status q \<noteq> AVAILABLE" and "p_status q' \<noteq> AVAILABLE"
    and "ps_table s' = ps_table s" and "ps_cvs s' = ps_cvs s" and "ps_ft s' = ps_ft s" and "ps_procs s' = (ps_procs s)(a \<mapsto> q')"
  shows "pids_ok s'"
proof -
  obtain t where t: "ps_table s = Some t" "pid_tab (ps_procs s) (pid_procs t)" by (rule pids_okE [OF ok])
  then show ?thesis
    using ok assms(6-9) pid_tab_status [of "ps_procs s" "pid_procs t" a q q', OF t(2) assms(2,3)]
      pid_lowest_status [of "ps_procs s" a q q' "pid_procs t", OF assms(2,4,5)]
    by (auto simp: pids_ok_def pids_wf_def)
qed

text \<open>The working directory of the parent: none, or a vnode that can take one more reference.\<close>

definition cwd_ready :: "proc \<Rightarrow> 'm pstate \<Rightarrow> bool" where
  "cwd_ready r s \<longleftrightarrow> (case p_cwd r of None \<Rightarrow> True | Some v \<Rightarrow> \<exists>n. ps_vnodes s v = Some n \<and> vn_refcount n < 2 ^ 31 - 1)"

lemma inherit_cwd_ok:
  assumes "cwd_ready r s" and "ps_curproc s = Some p" and "ps_procs s p = Some r" and "ps_procs s c = Some q" and "p_cwd q = None"
  obtains h where "inherit_cwd (Some c) s = Done (s\<lparr>ps_vnodes := h, ps_procs := (ps_procs s)(c \<mapsto> q\<lparr>p_cwd := p_cwd r\<rparr>)\<rparr>)"
proof (cases "p_cwd r")
  case None
  have "q\<lparr>p_cwd := None\<rparr> = q" using assms(5) by (cases q) simp
  then have "inherit_cwd (Some c) s = Done (s\<lparr>ps_vnodes := ps_vnodes s, ps_procs := (ps_procs s)(c \<mapsto> q\<lparr>p_cwd := p_cwd r\<rparr>)\<rparr>)"
    using assms(2-4) None by (simp add: inherit_cwd_def proc_get_def fun_upd_idem)
  then show thesis by (rule that)
next
  case (Some v)
  then obtain n where "ps_vnodes s v = Some n" "vn_refcount n < 2 ^ 31 - 1" using assms(1) by (auto simp: cwd_ready_def)
  then have "vnode_incref (Some v) (ps_vnodes s) = Done ((ps_vnodes s)(v \<mapsto> n\<lparr>vn_refcount := vn_refcount n + 1\<rparr>))"
    by (simp add: vnode_incref_def)
  then have "inherit_cwd (Some c) s
      = Done (s\<lparr>ps_vnodes := (ps_vnodes s)(v \<mapsto> n\<lparr>vn_refcount := vn_refcount n + 1\<rparr>), ps_procs := (ps_procs s)(c \<mapsto> q\<lparr>p_cwd := p_cwd r\<rparr>)\<rparr>)"
    using assms(2-4) Some by (simp add: inherit_cwd_def proc_get_def proc_upd_def)
  then show thesis by (rule that)
qed

text \<open>The last part of \<open>fork_proc\<close>: the files, under the lock of the process table.\<close>

lemma fork_files:
  assumes ok: "pids_ok s" "ps_table s = Some t" "plock t = Some lk"
    and p: "ps_curproc s = Some p" "ps_procs s p = Some r" and c: "ps_procs s c = Some q" "p \<noteq> c" "p_status q \<noteq> AVAILABLE"
    and wf: "ft_wf (ps_ft s) (p_ft r)" "ft_wf (ps_ft s) (p_ft q)" "ft_apart (ps_ft s) (p_ft r) (p_ft q)"
    and empty: "\<And>fd. fd_view (ps_ft s) (p_ft q) fd = None"
    and lk: "\<And>i. i < OPEN_MAX \<Longrightarrow> ft_lock (ps_ft s) (p_ft r) i \<noteq> lk" "\<And>i. i < OPEN_MAX \<Longrightarrow> ft_lock (ps_ft s) (p_ft q) i \<noteq> lk"
  obtains fs ft where
    "bnd (plock_acquire s) (\<lambda>s. bnd (proc_get s (ps_curproc s)) (\<lambda>cur. bnd (proc_get s (Some c)) (\<lambda>child.
     bnd (fork_ft (p_ft cur) (p_ft child) (ps_ft s)) (\<lambda>(ft, fs).
     bnd (proc_upd (\<lambda>q. q\<lparr>p_ft := ft\<rparr>) (Some c) (s\<lparr>ps_ft := fs\<rparr>)) (\<lambda>s.
     bnd (plock_release s) (\<lambda>s. Done (EOK, s)))))))
      = Done (EOK, s\<lparr>ps_ft := fs, ps_procs := (ps_procs s)(c \<mapsto> q\<lparr>p_ft := ft\<rparr>)\<rparr>)"
    and "ft_ok fs ft" and "fd_view fs ft = fd_view (ps_ft s) (p_ft r)" and "ft_wf fs (p_ft r)" and "fd_view fs (p_ft r) = fd_view (ps_ft s) (p_ft r)"
    and "pids_ok (s\<lparr>ps_ft := fs, ps_procs := (ps_procs s)(c \<mapsto> q\<lparr>p_ft := ft\<rparr>)\<rparr>)"
proof -
  define fs1 where "fs1 = (ps_ft s)\<lparr>ft_locks := (ft_locks (ps_ft s))(lk \<mapsto> lock_mine (ft_me (ps_ft s)))\<rparr>"
  have acq: "plock_acquire s = Done (plocked s)" using ok(1) by (intro plock_acquire_wf) (simp add: pids_ok_def)
  have pl: "plocked s = s\<lparr>ps_ft := fs1\<rparr>" using ok(2,3) by (simp add: plocked_def fs1_def)
  have idle: "ft_locks (ps_ft s) lk = Some lock_idle" using ok by (auto simp: pids_ok_def pids_wf_def)
  have same: "ft_fte fs1 T i = ft_fte (ps_ft s) T i" "fd_view fs1 T = fd_view (ps_ft s) T" "ft_lock fs1 T i = ft_lock (ps_ft s) T i" for T i
    by (simp_all add: fs1_def ft_fte_def ft_lock_def fd_view_def fun_eq_iff)
  have w1: "ft_wf fs1 (p_ft r)" "ft_wf fs1 (p_ft q)"
    using ft_frame(1) [OF wf(1), of fs1] ft_frame(1) [OF wf(2), of fs1] lk by (simp_all add: fs1_def)
  have ap: "ft_apart fs1 (p_ft r) (p_ft q)" using wf(3) by (simp add: ft_apart_def inj_on_def same(3))
  define fs2 where "fs2 = fs1\<lparr>ft_locks := fork_locks fs1 (p_ft r) (p_ft q) OPEN_MAX\<rparr>"
  obtain ft where f: "fork_ft (p_ft r) (p_ft q) fs1 = Done (ft, fs2)" "ft_ok fs2 ft" "ft_wf fs2 (p_ft r)"
    "fd_view fs2 (p_ft r) = fd_view fs1 (p_ft r)" "\<And>i. fd_view fs2 ft i = (if fd_view fs1 (p_ft r) i \<noteq> None then fd_view fs1 (p_ft r) i else fd_view fs1 (p_ft q) i)"
    using fork_ft_ok [OF w1 ap] by (auto simp: fs2_def)
  have mine: "ft_locks fs2 lk = Some (lock_mine (ft_me (ps_ft s)))"
    using lk(2) by (auto simp: fs2_def fork_locks_def same(3)) (simp_all add: fs1_def)
  define fs where "fs = fs2\<lparr>ft_locks := (ft_locks fs2)(lk \<mapsto> lock_idle)\<rparr>"
  have run: "bnd (plock_acquire s) (\<lambda>s. bnd (proc_get s (ps_curproc s)) (\<lambda>cur. bnd (proc_get s (Some c)) (\<lambda>child.
     bnd (fork_ft (p_ft cur) (p_ft child) (ps_ft s)) (\<lambda>(ft, fs).
     bnd (proc_upd (\<lambda>q. q\<lparr>p_ft := ft\<rparr>) (Some c) (s\<lparr>ps_ft := fs\<rparr>)) (\<lambda>s.
     bnd (plock_release s) (\<lambda>s. Done (EOK, s)))))))
      = Done (EOK, s\<lparr>ps_ft := fs, ps_procs := (ps_procs s)(c \<mapsto> q\<lparr>p_ft := ft\<rparr>)\<rparr>)"
    using p c(1) f(1) ok(2,3) mine by (simp add: acq pl proc_get_def proc_upd_def plock_release_def fs_def)
  have away: "ft_lock fs2 T i \<noteq> lk" if "ft_wf fs2 T" "i < OPEN_MAX" for T i
    using ft_wf_lock [OF that] mine by (auto simp: lock_mine_def lock_idle_def)
  have keep: "ft_wf fs T" if T: "ft_wf fs2 T" for T
    using ft_frame(1) [OF T, of fs] away [OF T] by (simp add: fs_def)
  have view: "fd_view fs T = fd_view fs2 T" "lowest_free fs T = lowest_free fs2 T" for T
    by (simp_all add: fs_def fd_view_def fun_eq_iff ft_fte_def lowest_free_def)
  have "ft_ok fs ft" using f(2) keep view(2) by (simp add: ft_ok_def)
  moreover have "fd_view fs ft i = fd_view (ps_ft s) (p_ft r) i" for i
    using f(5) [of i] empty [of i] by (cases "fd_view (ps_ft s) (p_ft r) i") (simp_all add: view(1) same(2))
  then have "fd_view fs ft = fd_view (ps_ft s) (p_ft r)" by (rule ext)
  moreover have "ft_locks fs lk = Some lock_idle" by (simp add: fs_def)
  then have "pids_ok (s\<lparr>ps_ft := fs\<rparr>)" using ok by (auto simp: pids_ok_def pids_wf_def)
  then have "pids_ok (s\<lparr>ps_ft := fs, ps_procs := (ps_procs s)(c \<mapsto> q\<lparr>p_ft := ft\<rparr>)\<rparr>)"
    by (rule pids_ok_upd [where a = c and q = q and q' = "q\<lparr>p_ft := ft\<rparr>"]) (use c in simp_all)
  ultimately show thesis using that [OF run] keep [OF f(3)] f(4) by (simp add: view(1) same(2))
qed

section \<open>Fork\<close>

text \<open>The parent, with its files and its place in the table, and the memory and the free number for a child.\<close>

definition fork_ready :: "'m fork_env \<Rightarrow> nat \<Rightarrow> nat \<Rightarrow> proc \<Rightarrow> 'm pstate \<Rightarrow> bool" where
  "fork_ready F c p r s \<longleftrightarrow> pids_ok s \<and> ps_curproc s = Some p \<and> ps_procs s p = Some r
     \<and> (\<exists>arr. p_children r = Some arr \<and> array_ok arr \<and> array_num arr < 2 ^ 29) \<and> kmalloc_cells (f_kmalloc F)
     \<and> ft_ok (ps_ft s) (p_ft r) \<and> (\<forall>i < OPEN_MAX. ft_lock (ps_ft s) (p_ft r) i \<noteq> the (plock (the (ps_table s))))
     \<and> fresh_proc (f_palloc F) c s \<and> cwd_ready r s \<and> f_got_tf F
     \<and> (\<exists>i. 2 \<le> i \<and> i < PID_MAX \<and> slot_free (ps_procs s) (pid_procs (the (ps_table s)) ! i))"

lemma fork_proc_ok:
  fixes s :: "'m pstate"
  assumes ok: "pids_ok s" "ps_table s = Some t" "plock t = Some lk" and p: "ps_curproc s = Some p" "ps_procs s p = Some r"
    and arr: "p_children r = Some arr" "array_ok arr" "array_num arr < 2 ^ 29" "kmalloc_cells kmalloc"
    and c: "ps_procs s c = Some q" "p \<noteq> c" "p_cwd q = None" "\<forall>j. 1 \<le> j \<and> j \<le> PID_MAX \<longrightarrow> pid_procs t ! j \<noteq> Some c"
    and wf: "ft_wf (ps_ft s) (p_ft r)" "ft_wf (ps_ft s) (p_ft q)" "ft_apart (ps_ft s) (p_ft r) (p_ft q)"
    and empty: "\<And>fd. fd_view (ps_ft s) (p_ft q) fd = None"
    and lk: "\<And>i. i < OPEN_MAX \<Longrightarrow> ft_lock (ps_ft s) (p_ft r) i \<noteq> lk" "\<And>i. i < OPEN_MAX \<Longrightarrow> ft_lock (ps_ft s) (p_ft q) i \<noteq> lk"
    and cwd: "cwd_ready r s" and copy: "as_copy (p_addrspace r) (ps_vm s) = Done (EOK, as, vm)"
    and free: "\<exists>i. 2 \<le> i \<and> i < PID_MAX \<and> slot_free (ps_procs s) (pid_procs t ! i)"
  obtains i s' q' r' where "fork_proc as_copy kmalloc (Some c) s = Done (EOK, s')" and "pids_ok s'"
    and "2 \<le> i" and "i < PID_MAX" and "slot_free (ps_procs s) (pid_procs t ! i)"
    and "\<forall>j. 2 \<le> j \<and> j < i \<longrightarrow> \<not> slot_free (ps_procs s) (pid_procs t ! j)"
    and "ps_procs s' c = Some q'" and "p_pid q' = int i" and "p_status q' = RUNNING" and "p_addrspace q' = as" and "p_cwd q' = p_cwd r"
    and "ft_ok (ps_ft s') (p_ft q')" and "fd_view (ps_ft s') (p_ft q') = fd_view (ps_ft s) (p_ft r)"
    and "ps_procs s' p = Some r'" and "p_ft r' = p_ft r" and "fd_view (ps_ft s') (p_ft r') = fd_view (ps_ft s) (p_ft r)"
proof -
  from addPidEntry_ok [OF ok(1,2) c(1,4) p(1) c(2) p(2) arr] free
  obtain i s1 t1 arr1 where add: "addPidEntry kmalloc (Some c) s = Done (EOK, s1)" "pids_ok s1" "2 \<le> i" "i < PID_MAX"
    "slot_free (ps_procs s) (pid_procs t ! i)" "\<forall>j. 2 \<le> j \<and> j < i \<longrightarrow> \<not> slot_free (ps_procs s) (pid_procs t ! j)"
    "ps_table s1 = Some t1" "s1 = s\<lparr>ps_procs := ps_procs s1, ps_table := Some t1\<rparr>" "plock t1 = plock t"
    "ps_procs s1 = (ps_procs s)(c \<mapsto> q\<lparr>p_pid := int i, p_status := RUNNING, p_exitCode := 0\<rparr>, p \<mapsto> r\<lparr>p_children := Some arr1\<rparr>)"
    by (elim disjE exE conjE) (simp, blast+)
  define q1 where "q1 = q\<lparr>p_pid := int i, p_status := RUNNING, p_exitCode := 0, p_addrspace := as\<rparr>"
  define r1 where "r1 = r\<lparr>p_children := Some arr1\<rparr>"
  define s2 where "s2 = s1\<lparr>ps_vm := vm, ps_procs := (ps_procs s1)(c \<mapsto> q1)\<rparr>"
  have sel: "ps_ft s1 = ps_ft s" "ps_vm s1 = ps_vm s" "ps_curproc s1 = Some p" "ps_vnodes s1 = ps_vnodes s"
    using p(1) by (subst add(8), simp)+
  have pr: "ps_procs s1 p = Some r1" "ps_procs s1 c = Some (q\<lparr>p_pid := int i, p_status := RUNNING, p_exitCode := 0\<rparr>)"
    using c(2) by (simp_all add: add(10) r1_def)
  have ok2: "pids_ok s2"
    by (rule pids_ok_upd [OF add(2) pr(2), where q' = q1]) (simp_all add: s2_def q1_def)
  have "ps_vnodes s2 = ps_vnodes s" "p_cwd r1 = p_cwd r" by (simp_all add: s2_def r1_def sel)
  then have "cwd_ready r1 s2" using cwd by (simp add: cwd_ready_def split: option.splits)
  moreover have "ps_curproc s2 = Some p" "ps_procs s2 p = Some r1" "ps_procs s2 c = Some q1" "p_cwd q1 = None"
    using c(2,3) by (simp_all add: s2_def sel pr q1_def)
  ultimately obtain h where inh: "inherit_cwd (Some c) s2 = Done (s2\<lparr>ps_vnodes := h, ps_procs := (ps_procs s2)(c \<mapsto> q1\<lparr>p_cwd := p_cwd r1\<rparr>)\<rparr>)"
    by (rule inherit_cwd_ok)
  define q3 where "q3 = q1\<lparr>p_cwd := p_cwd r1\<rparr>"
  define s3 where "s3 = s2\<lparr>ps_vnodes := h, ps_procs := (ps_procs s2)(c \<mapsto> q3)\<rparr>"
  have ok3: "pids_ok s3"
    by (rule pids_ok_upd [OF ok2, where a = c and q = q1 and q' = q3]) (simp_all add: s2_def s3_def q1_def q3_def)
  have s3: "ps_table s3 = Some t1" "ps_curproc s3 = Some p" "ps_procs s3 p = Some r1" "ps_procs s3 c = Some q3" "ps_ft s3 = ps_ft s"
    using c(2) by (simp_all add: s3_def s2_def add(7) sel pr)
  have ft: "p_ft r1 = p_ft r" "p_ft q3 = p_ft q" "p_status q3 \<noteq> AVAILABLE" by (simp_all add: r1_def q3_def q1_def)
  have copy1: "as_copy (p_addrspace r1) (ps_vm s) = Done (EOK, as, vm)" using copy by (simp add: r1_def)
  have pk: "plock t1 = Some lk" using ok(3) add(9) by simp
  obtain fs ft where files: "bnd (plock_acquire s3) (\<lambda>s. bnd (proc_get s (ps_curproc s)) (\<lambda>cur. bnd (proc_get s (Some c)) (\<lambda>child.
     bnd (fork_ft (p_ft cur) (p_ft child) (ps_ft s)) (\<lambda>(ft, fs).
     bnd (proc_upd (\<lambda>q. q\<lparr>p_ft := ft\<rparr>) (Some c) (s\<lparr>ps_ft := fs\<rparr>)) (\<lambda>s.
     bnd (plock_release s) (\<lambda>s. Done (EOK, s)))))))
      = Done (EOK, s3\<lparr>ps_ft := fs, ps_procs := (ps_procs s3)(c \<mapsto> q3\<lparr>p_ft := ft\<rparr>)\<rparr>)"
    and ft': "ft_ok fs ft" "fd_view fs ft = fd_view (ps_ft s) (p_ft r)" "ft_wf fs (p_ft r)" "fd_view fs (p_ft r) = fd_view (ps_ft s) (p_ft r)"
    and ok4: "pids_ok (s3\<lparr>ps_ft := fs, ps_procs := (ps_procs s3)(c \<mapsto> q3\<lparr>p_ft := ft\<rparr>)\<rparr>)"
    by (rule fork_files [OF ok3 s3(1) pk s3(2-4) c(2) ft(3), unfolded ft(1,2) s3(5), OF wf empty lk])
  have "fork_proc as_copy kmalloc (Some c) s = Done (EOK, s3\<lparr>ps_ft := fs, ps_procs := (ps_procs s3)(c \<mapsto> q3\<lparr>p_ft := ft\<rparr>)\<rparr>)"
    using files inh [folded q3_def, folded s3_def] copy1 pr unfolding fork_proc_def
    by (simp add: add(1) proc_get_def [of s1] sel proc_upd_def [of _ _ "s1\<lparr>ps_vm := vm\<rparr>"] q1_def [symmetric] s2_def [symmetric])
  then show thesis
    using that [of "s3\<lparr>ps_ft := fs, ps_procs := (ps_procs s3)(c \<mapsto> q3\<lparr>p_ft := ft\<rparr>)\<rparr>" i "q3\<lparr>p_ft := ft\<rparr>" r1] ok4 add(3-6) ft' s3(3) c(2)
    by (simp add: q3_def q1_def r1_def)
qed

lemma sys_fork_ok:
  fixes s :: "'m pstate"
  assumes ready: "fork_ready F c p r s" and copy: "f_as_copy F (p_addrspace r) (ps_vm s) = Done (EOK, as, vm)"
  obtains i s' q r' where "sys_fork F tf s = bnd (f_thread_fork F (Some c) (tf\<lparr>tf_epc := tf_epc tf + 4\<rparr>) s') (\<lambda>(ret, s).
      if ret \<noteq> EOK then bnd (proc_destroy (f_as_destroy F) (f_reclaim F) (Some c) s) (\<lambda>s. Fault) else Done (EOK, Some (of_nat i), s))"
    and "pids_ok s'" and "2 \<le> i" and "i < PID_MAX" and "slot_free (ps_procs s) (pid_procs (the (ps_table s)) ! i)"
    and "\<forall>j. 2 \<le> j \<and> j < i \<longrightarrow> \<not> slot_free (ps_procs s) (pid_procs (the (ps_table s)) ! j)"
    and "ps_procs s' c = Some q" and "p_pid q = int i" and "p_status q = RUNNING" and "p_addrspace q = as" and "p_cwd q = p_cwd r"
    and "ft_ok (ps_ft s') (p_ft q)" and "fd_view (ps_ft s') (p_ft q) = fd_view (ps_ft s) (p_ft r)"
    and "ps_procs s' p = Some r'" and "p_ft r' = p_ft r" and "fd_view (ps_ft s') (p_ft r') = fd_view (ps_ft s) (p_ft r)"
proof -
  obtain arr where R: "pids_ok s" "ps_curproc s = Some p" "ps_procs s p = Some r" "p_children r = Some arr" "array_ok arr"
    "array_num arr < 2 ^ 29" "kmalloc_cells (f_kmalloc F)" "ft_wf (ps_ft s) (p_ft r)" "fresh_proc (f_palloc F) c s" "cwd_ready r s" "f_got_tf F"
    using ready by (auto simp: fork_ready_def ft_ok_def)
  obtain t lk where t: "ps_table s = Some t" "plock t = Some lk" using R(1) by (auto simp: pids_ok_def pids_wf_def)
  have lk: "ft_lock (ps_ft s) (p_ft r) i \<noteq> lk" if "i < OPEN_MAX" for i using ready that t by (simp add: fork_ready_def)
  have free: "\<exists>i. 2 \<le> i \<and> i < PID_MAX \<and> slot_free (ps_procs s) (pid_procs t ! i)" using ready t(1) by (simp add: fork_ready_def)
  obtain fs q0 where new: "proc_creator (f_palloc F) ''childProc'' s = Done (Some c, s\<lparr>ps_ft := fs, ps_procs := (ps_procs s)(c \<mapsto> q0)\<rparr>)"
    "ft_wf fs (p_ft q0)" "\<forall>fd. fd_view fs (p_ft q0) fd = None" "ft_wf fs (p_ft r)" "fd_view fs (p_ft r) = fd_view (ps_ft s) (p_ft r)"
    "ft_apart fs (p_ft r) (p_ft q0)" "\<forall>i < OPEN_MAX. ft_lock fs (p_ft q0) i \<noteq> lk"
    "\<forall>i < OPEN_MAX. ft_lock fs (p_ft r) i = ft_lock (ps_ft s) (p_ft r) i"
    "pids_ok (s\<lparr>ps_ft := fs, ps_procs := (ps_procs s)(c \<mapsto> q0)\<rparr>)" "p_cwd q0 = None"
    by (rule proc_creator_fresh [OF R(9,1) t R(8), where name = "''childProc''"])
  have c: "ps_procs s c = None" using R(9) by (simp add: fresh_proc_def)
  then have pc: "p \<noteq> c" using R(3) by auto
  have none: "\<forall>j. 1 \<le> j \<and> j \<le> PID_MAX \<longrightarrow> pid_procs t ! j \<noteq> Some c" using pids_ok_new(2) [OF R(1) c t(1)] by blast
  have slots: "slot_free ((ps_procs s)(c \<mapsto> q0)) (pid_procs t ! j) = slot_free (ps_procs s) (pid_procs t ! j)" if "2 \<le> j" "j < PID_MAX" for j
    using none that by (auto simp: slot_free_def split: option.splits)
  let ?s = "s\<lparr>ps_ft := fs, ps_procs := (ps_procs s)(c \<mapsto> q0)\<rparr>"
  have f: "\<exists>i. 2 \<le> i \<and> i < PID_MAX \<and> slot_free (ps_procs ?s) (pid_procs t ! i)" using free slots by auto
  have at: "ps_table ?s = Some t" "ps_curproc ?s = Some p" "ps_procs ?s p = Some r" "ps_procs ?s c = Some q0" "cwd_ready r ?s"
    "f_as_copy F (p_addrspace r) (ps_vm ?s) = Done (EOK, as, vm)"
    using t R(2,3,10) pc copy by (simp_all add: cwd_ready_def split: option.splits)
  have lk': "ft_lock (ps_ft ?s) (p_ft r) i \<noteq> lk" if "i < OPEN_MAX" for i using lk new(8) that by simp
  have wf: "ft_wf (ps_ft ?s) (p_ft r)" "ft_wf (ps_ft ?s) (p_ft q0)" "ft_apart (ps_ft ?s) (p_ft r) (p_ft q0)" using new by simp_all
  have em: "fd_view (ps_ft ?s) (p_ft q0) fd = None" "i < OPEN_MAX \<Longrightarrow> ft_lock (ps_ft ?s) (p_ft q0) i \<noteq> lk" for fd i using new(3,7) by simp_all
  obtain i s' q r' where fork: "fork_proc (f_as_copy F) (f_kmalloc F) (Some c) ?s = Done (EOK, s')" "pids_ok s'"
    "2 \<le> i" "i < PID_MAX" "slot_free (ps_procs ?s) (pid_procs t ! i)" "\<forall>j. 2 \<le> j \<and> j < i \<longrightarrow> \<not> slot_free (ps_procs ?s) (pid_procs t ! j)"
    "ps_procs s' c = Some q" "p_pid q = int i" "p_status q = RUNNING" "p_addrspace q = as" "p_cwd q = p_cwd r"
    "ft_ok (ps_ft s') (p_ft q)" "fd_view (ps_ft s') (p_ft q) = fd_view (ps_ft ?s) (p_ft r)"
    "ps_procs s' p = Some r'" "p_ft r' = p_ft r" "fd_view (ps_ft s') (p_ft r') = fd_view (ps_ft ?s) (p_ft r)"
    by (rule fork_proc_ok [where as_copy = "f_as_copy F" and s = ?s and as = as and vm = vm, OF new(9) at(1) t(2) at(2,3) R(4-7) at(4) pc new(10) none wf em(1) lk' em(2) at(5,6) f])
  have run: "sys_fork F tf s = bnd (f_thread_fork F (Some c) (tf\<lparr>tf_epc := tf_epc tf + 4\<rparr>) s') (\<lambda>(ret, s).
      if ret \<noteq> EOK then bnd (proc_destroy (f_as_destroy F) (f_reclaim F) (Some c) s) (\<lambda>s. Fault) else Done (EOK, Some (word_of_int (p_pid q)), s))"
    using new(1) fork(1,7) R(11) by (simp add: sys_fork_def set_tf_def proc_get_def)
  have pid: "word_of_int (p_pid q) = (of_nat i :: u32)" using fork(8) by simp
  show thesis
    using that [OF run [unfolded pid]] fork(2-16) slots new(5) t(1) by simp
qed

section \<open>A process that forks\<close>

definition demo_fork_boot :: "unit pstate" where
  "demo_fork_boot = demo_boot\<lparr>ps_procs := [100 \<mapsto> demo_proc\<lparr>p_ft := demo_ft 0\<rparr>], ps_ft := demo_fs\<rparr>"

definition demo_fork_state :: "unit pstate" where
  "demo_fork_state = demo_fork_boot\<lparr>ps_procs := [100 \<mapsto> demo_proc\<lparr>p_ft := demo_ft 0, p_pid := 1\<rparr>], ps_cvs := [8 \<mapsto> \<lparr>cv_wchan = []\<rparr>],
     ps_table := Some \<lparr>firstFreePid = 2, pid_procs = demo_procs, plock = Some 90, pcv = Some 8\<rparr>\<rparr>"

definition demo_fork_env :: "unit fork_env" where
  "demo_fork_env = (y_fork demo_env)\<lparr>f_palloc := \<lparr>a_proc = Some (200, demo_proc), a_name = True, a_children = True, a_ft = True,
       a_fte = \<lambda>i. Some (200 + i), a_lk = \<lambda>i. Some (300 + i)\<rparr>, f_kmalloc := \<lambda>n. Some (replicate (n div 4) 0)\<rparr>"

lemma demo_fork_ready: "fork_ready demo_fork_env 200 100 (demo_proc\<lparr>p_ft := demo_ft 0, p_pid := 1\<rparr>) demo_fork_state"
proof -
  have "(ft_locks demo_fs)(90 \<mapsto> lock_idle) = ft_locks demo_fs" by (simp add: demo_fs_def fun_upd_idem)
  then have "pid_table_init True (Some 90) (Some 8) None demo_fork_boot = Done demo_fork_state"
    by (simp add: pid_table_init_def demo_fork_state_def demo_fork_boot_def demo_boot_def demo_procs_def proc_upd_def)
  then have ok: "pids_ok demo_fork_state" by (rule pid_table_init_ok)
  have ft: "ps_ft demo_fork_state = demo_fs" by (simp add: demo_fork_state_def demo_fork_boot_def)
  have "ft_lock demo_fs (demo_ft 0) i \<noteq> 90" if "i < OPEN_MAX" for i
    using demo_fte [of i 0] that by (simp add: ft_lock_def OPEN_MAX_def)
  moreover have "fresh_proc (f_palloc demo_fork_env) 200 demo_fork_state"
    by (simp add: fresh_proc_def ft demo_fork_env_def ft_blocks_def inj_on_def demo_fs_def) (simp add: demo_fork_state_def)
  moreover have "slot_free h (demo_procs ! 2)" "2 < PID_MAX" for h by (simp_all add: demo_procs_def slot_free_def PID_MAX_def)
  moreover have "kmalloc_cells (f_kmalloc demo_fork_env)" by (simp add: kmalloc_cells_def demo_fork_env_def)
  moreover have "ps_curproc demo_fork_state = Some 100" "ps_procs demo_fork_state 100 = Some (demo_proc\<lparr>p_ft := demo_ft 0, p_pid := 1\<rparr>)"
    "ps_table demo_fork_state = Some \<lparr>firstFreePid = 2, pid_procs = demo_procs, plock = Some 90, pcv = Some 8\<rparr>"
    by (simp_all add: demo_fork_state_def demo_fork_boot_def demo_boot_def)
  moreover have "p_children demo_proc = Some array_init" "p_cwd demo_proc = None" "f_got_tf demo_fork_env"
    by (simp_all add: demo_proc_def demo_fork_env_def demo_env_def)
  moreover have "array_num (array_init :: nat array) < 2 ^ 29" by (simp add: array_num_def array_init_def)
  ultimately show ?thesis
    using ok demo_ok array_ok_init unfolding fork_ready_def ft by (auto simp: cwd_ready_def intro: exI [of _ "2 :: nat"])
qed

section \<open>Properties\<close>

text \<open>
  C5: \<open>fork\<close>, when there is memory for a process, a free number and the address space can be copied. The
  process that the new thread is started in has the lowest free number, the copy of the address space and
  the working directory of the parent, and exactly the open descriptors of the parent, at the same files and positions;
  it starts with the registers of the parent, after the call. The parent keeps its descriptors, the table of
  processes is well formed, and if the thread starts the result is the number of the child.
\<close>

theorem fork_makes_child:
  assumes "fork_ready F c p r s" and "f_as_copy F (p_addrspace r) (ps_vm s) = Done (EOK, as, vm)"
  shows "\<exists>i s' q r'. sys_fork F tf s = bnd (f_thread_fork F (Some c) (tf\<lparr>tf_epc := tf_epc tf + 4\<rparr>) s') (\<lambda>(ret, s).
      if ret \<noteq> EOK then bnd (proc_destroy (f_as_destroy F) (f_reclaim F) (Some c) s) (\<lambda>s. Fault) else Done (EOK, Some (of_nat i), s))
    \<and> pids_ok s' \<and> 2 \<le> i \<and> i < PID_MAX \<and> slot_free (ps_procs s) (pid_procs (the (ps_table s)) ! i)
    \<and> (\<forall>j. 2 \<le> j \<and> j < i \<longrightarrow> \<not> slot_free (ps_procs s) (pid_procs (the (ps_table s)) ! j))
    \<and> ps_procs s' c = Some q \<and> p_pid q = int i \<and> p_status q = RUNNING \<and> p_addrspace q = as \<and> p_cwd q = p_cwd r
    \<and> ft_ok (ps_ft s') (p_ft q) \<and> fd_view (ps_ft s') (p_ft q) = fd_view (ps_ft s) (p_ft r)
    \<and> ps_procs s' p = Some r' \<and> p_ft r' = p_ft r \<and> fd_view (ps_ft s') (p_ft r') = fd_view (ps_ft s) (p_ft r)"
proof (rule sys_fork_ok [OF assms, where tf = tf], goal_cases)
  case (1 i s' q r')
  then show ?case by (intro exI [of _ i] exI [of _ s'] exI [of _ q] exI [of _ r']) simp
qed

theorem fork_makes_child_witness:
  "\<exists>i s' q. sys_fork demo_fork_env (demo_tf 0 0 0 0 0) demo_fork_state = Done (EOK, Some (of_nat i), s') \<and> 2 \<le> i
     \<and> ps_procs s' 200 = Some q \<and> p_pid q = int i \<and> fd_view (ps_ft s') (p_ft q) 2 = Some (Some 9, 5, 3)"
proof -
  let ?r = "demo_proc\<lparr>p_ft := demo_ft 0, p_pid := 1\<rparr>"
  have "f_as_copy demo_fork_env (p_addrspace ?r) (ps_vm demo_fork_state) = Done (EOK, p_addrspace ?r, ps_vm demo_fork_state)"
    by (simp add: demo_fork_env_def demo_env_def)
  from fork_makes_child [OF demo_fork_ready this, of "demo_tf 0 0 0 0 0"] obtain i s' q where f:
    "sys_fork demo_fork_env (demo_tf 0 0 0 0 0) demo_fork_state = Done (EOK, Some (of_nat i), s')" "2 \<le> i" "ps_procs s' 200 = Some q" "p_pid q = int i"
    "fd_view (ps_ft s') (p_ft q) = fd_view (ps_ft demo_fork_state) (demo_ft 0)"
    by (auto simp: demo_fork_env_def demo_env_def)
  have "fd_view demo_fs (demo_ft 0) 2 = Some (Some 9, 5, 3)" by (simp add: fd_view_def demo_fte OPEN_MAX_def)
  then have "fd_view (ps_ft s') (p_ft q) 2 = Some (Some 9, 5, 3)" using f(5) by (simp add: demo_fork_state_def demo_fork_boot_def)
  then show ?thesis using f by (intro exI conjI)
qed



end
