(* ===== verification/Spec2Isabelle.thy ===== *)
theory Spec2Isabelle
  imports Kern_Prelude
    Kern_Array
    Kern_Bitmap
    Kern_Threadlist
    Kern_Klib
    Kern_Mem
    Kern_Uio
    Kern_Synch
    Kern_Filetable
    Kern_Device
    Kern_Fsyscall
    Kern_Lhd
    Kern_Sfs
    Kern_Sfs_Trunc
    Kern_Vnode
    Kern_Kpages
    Kern_Proc
    Kern_Sfs_Dir
    Kern_Exec
    Kern_Psyscall
    Kern_Syscall
    Kern_Fork
begin

text \<open>
  \<^bold>\<open>A verification library for an OS/161 kernel\<close>

  The program is a teaching kernel for a simulated MIPS machine, \<^verbatim>\<open>kern/\<close>, with processes, file
  descriptors, locks and a page table that were added to it. This library models the parts below and
  proves what makes each of them correct; where the code does not do what it is meant to do, a theorem
  says what it does instead.

  \<^bold>\<open>The parts and their theories.\<close> Paths are relative to \<^verbatim>\<open>kern/\<close>.

  \<^item> \<open>Kern_Prelude\<close>: result codes, the outcomes of a call, generic lemmas, the contract \<open>indexed\<close> of
    containers that are searched by index.
  \<^item> \<open>Kern_Array\<close>: resizable arrays, \<^verbatim>\<open>lib/array.c\<close>. They hold the children and the threads of a process.
  \<^item> \<open>Kern_Bitmap\<close>: bitmaps, \<^verbatim>\<open>lib/bitmap.c\<close>, as a pool of numbers (contract \<open>number_pool\<close>). The file
    system keeps its free blocks in one.
  \<^item> \<open>Kern_Threadlist\<close>: doubly linked lists in a store of nodes, \<^verbatim>\<open>thread/threadlist.c\<close>, refining
    sequences (contract \<open>thread_lists\<close>).
  \<^item> \<open>Kern_Klib\<close>: byte order and times, \<^verbatim>\<open>lib/bswap.c\<close> and \<^verbatim>\<open>lib/time.c\<close>.
  \<^item> \<open>Kern_Mem\<close>: copying between user and kernel memory, \<^verbatim>\<open>vm/copyinout.c\<close>, with page faults.
  \<^item> \<open>Kern_Uio\<close>: transfers between a buffer and a list of blocks, \<^verbatim>\<open>lib/uio.c\<close>.
  \<^item> \<open>Kern_Synch\<close>: semaphores, locks and condition variables, \<^verbatim>\<open>thread/synch.c\<close>, for one thread and as
    step relations over all threads.
  \<^item> \<open>Kern_Filetable\<close>: the file table of a process, \<^verbatim>\<open>syscall/filetable.c\<close> (contract \<open>descriptor_table\<close>).
  \<^item> \<open>Kern_Device\<close>: devices as files, \<^verbatim>\<open>vfs/device.c\<close> and \<^verbatim>\<open>vfs/devnull.c\<close>.
  \<^item> \<open>Kern_Fsyscall\<close>: the file system calls, \<^verbatim>\<open>syscall/fsyscall.c\<close>, over a file table, user memory and
    the operations of vnodes (contract \<open>vnode_io\<close>, met by the null device).
  \<^item> \<open>Kern_Lhd\<close>: the disk driver, \<^verbatim>\<open>dev/lamebus/lhd.c\<close> (contract \<open>block_disk\<close>).
  \<^item> \<open>Kern_Sfs\<close>: the blocks of the file system, \<^verbatim>\<open>fs/sfs/sfs_balloc.c\<close>, \<^verbatim>\<open>sfs_bmap.c\<close>, \<^verbatim>\<open>sfs_io.c\<close>
    (contract \<open>sfs_volume\<close>, which extends \<open>block_disk\<close> and is met by the disk driver).
  \<^item> \<open>Kern_Sfs_Trunc\<close>: what truncation gives back.
  \<^item> \<open>Kern_Vnode\<close>: reference counts of vnodes, \<^verbatim>\<open>vfs/vnode.c\<close>.
  \<^item> \<open>Kern_Kpages\<close>: physical memory and the page table, \<^verbatim>\<open>arch/mips/vm/ram.c\<close> and \<^verbatim>\<open>vm.c\<close>.
  \<^item> \<open>Kern_Proc\<close>: processes and process numbers, \<^verbatim>\<open>proc/proc.c\<close>, for one thread and as a step relation
    over all processes.

  \<^bold>\<open>How the code is translated.\<close> A C structure is a record with the fields of the source; an
  enumeration is a datatype; a function is a definition with the name of the source. Objects that are
  reached through several pointers (list nodes, file table entries, locks, vnodes, processes) live in
  partial maps from addresses. Every call gives an \<open>outcome\<close>: an ordinary return, a failed assertion
  or \<open>panic\<close>, an access the C language leaves undefined, or a call that never returns. Result codes
  are the numbers of \<^verbatim>\<open>include/kern/errno.h\<close>; a value that is stored through a pointer is a
  component of the result. Machine integers whose wrap-around matters are words; the others are
  numbers with the bound written out where the code depends on it. Code of other parts (\<open>kmalloc\<close>,
  \<open>vfs_open\<close>, the disk card, the copying of address spaces) is an argument, and what is relied on of
  it is a hypothesis.

  \<^bold>\<open>What is shown.\<close>

  \<^item> Interleavings: mutual exclusion and no lost wake-up for locks and condition variables, the count
    of semaphores, and that the exit code of a process reaches whoever waits for it, hold in every
    state that any sequence of steps of the threads or processes reaches.
  \<^item> Memory: \<open>copyout\<close> never changes kernel memory; \<open>uiomove\<close> moves exactly the bytes it accounts for;
    \<open>alloc_kpages\<close> is first fit, ends for every request, and what \<open>free_kpages\<close> gives back.
  \<^item> Tables: the lowest free descriptor, process number, bit or block is the one handed out, tables
    stay well formed, and taking and giving back are inverse.
  \<^item> File system: a block written is read back; growing a file gives it one fresh zeroed block and never
    shares a block; truncation frees the blocks past the end, but for one; every file system call on
    every branch.
  \<^item> Defects: closing a shared descriptor, releasing a lock one does not hold, the block truncation keeps,
    the page table that lies in memory it hands out, pages that are not freed, children that are never
    forgotten, and others, each with a theorem on the code as it is.

  \<^bold>\<open>Bounds and fuel.\<close> Loops with a counter are functions with a measure. The two loops whose end is not
  evident, the doubling of \<open>array_preallocate\<close> and the search of \<open>alloc_kpages\<close>, are partial functions
  into \<open>option\<close>: the first is shown to return below \<open>2 ^ 29\<close> entries, the second always. The retry
  loop of the file system is bounded by the 10 tries of the source. Page tables are well formed up to
  753 pages: from there on the set-up overwrites the table.

  \<^bold>\<open>Not modelled.\<close> Assembly code (exception entry, context switch, cache and TLB instructions); the
  console, timer, network, screen and random devices and the bus, whose behaviour is that of hardware
  registers; name lookup and mounting in \<^verbatim>\<open>vfs/\<close>; \<open>kmalloc\<close>; the thread scheduler; \<open>execv\<close> and the
  loader; the directories, inodes and mounting of the file system; the menu, the tests, the user-level programs and the
  standard library under \<^verbatim>\<open>common/\<close> and \<^verbatim>\<open>userland/\<close>. Spinlocks and interrupt levels are modelled by
  the atomic sections they make.
\<close>

end
